(* ===== verification/Prelude.thy ===== *)
theory Prelude
  imports Main "HOL-Library.Word" "HOL-Library.List_Lexorder"
begin

text \<open>
  Shared vocabulary of the development: the machine types of the C++17 engine under
  \<^verbatim>\<open>src/engine/lsmtree\<close>, the collections of rewrite rules that the component theories
  extend, and generic facts on bytes, lists and orders.

  \<^item> \<open>byte\<close>/\<open>bytes\<close> are \<^verbatim>\<open>char\<close> buffers read as \<^verbatim>\<open>unsigned char\<close>; a \<^verbatim>\<open>Slice\<close>
    (\<^verbatim>\<open>std::string_view\<close>) and a \<^verbatim>\<open>std::string\<close> are the bytes they denote.  With
    \<open>List_Lexorder\<close>, \<open><\<close> on \<open>bytes\<close> is the unsigned lexicographic order of
    \<^verbatim>\<open>string_view::compare\<close>.
  \<^item> \<open>u32\<close>/\<open>u64\<close> are the fixed-width integers; \<^verbatim>\<open>size_t\<close> lengths are \<open>nat\<close>.
  \<^item> \<open>le_word\<close>/\<open>le_bytes\<close> are the reference definition of little-endian numbers.
  \<^item> the locale \<open>key_order\<close> is the contract of a comparator: a strict total order on
    the keys it accepts.
\<close>

unbundle bit_operations_syntax

type_synonym byte = "8 word"
type_synonym bytes = "byte list"
type_synonym u32 = "32 word"
type_synonym u64 = "64 word"

named_theorems codec_simps "round trips of encoders and decoders"
named_theorems size_simps "lengths of encodings"

subsection \<open>Little-endian numbers\<close>

primrec le_word :: "bytes \<Rightarrow> 'a::len word" where
  "le_word [] = 0"
| "le_word (b # bs) = ucast b OR push_bit 8 (le_word bs)"

definition le_bytes :: "nat \<Rightarrow> 'a::len word \<Rightarrow> bytes" where
  "le_bytes k w = map (\<lambda>i. ucast (drop_bit (8 * i) w)) [0..<k]"

text \<open>ASCII text as bytes, for the magic numbers of the file formats.\<close>

definition ascii :: "string \<Rightarrow> bytes" where
  "ascii s = map of_char s"

lemma length_ascii [simp]: "length (ascii s) = length s"
  by (simp add: ascii_def)

lemma length_le_bytes [simp, size_simps]: "length (le_bytes k w) = k"
  by (simp add: le_bytes_def)

lemma ucast_and_ff [simp]: "(ucast (v AND 0xff :: 'a::len word) :: byte) = ucast v"
proof -
  have m: "(0xff :: 'a word) = mask 8" by (simp add: mask_eq_exp_minus_1)
  show ?thesis
    unfolding m by (rule bit_word_eqI) (auto simp add: bit_simps dest: bit_imp_le_length)
qed

lemma bit_le_word:
  "bit (le_word bs :: 'a::len word) n \<longleftrightarrow>
     n < LENGTH('a) \<and> n div 8 < length bs \<and> bit (bs ! (n div 8)) (n mod 8)"
proof (induction bs arbitrary: n)
  case Nil
  then show ?case by simp
next
  case (Cons b bs)
  show ?case
  proof (cases "n < 8")
    case True
    then show ?thesis by (auto simp add: bit_simps)
  next
    case False
    then obtain m where n: "n = m + 8" by (metis le_add_diff_inverse2 not_less)
    have "\<not> bit b n" using False by (auto dest: bit_imp_le_length)
    have d: "(m + 8) div 8 = Suc (m div 8)" "(m + 8) mod 8 = m mod 8" by simp_all
    show ?thesis
      using \<open>\<not> bit b n\<close> by (simp only: n d) (auto simp add: bit_simps Cons.IH)
  qed
qed

lemma le_word_le_bytes:
  "LENGTH('a) \<le> 8 * k \<Longrightarrow> le_word (le_bytes k w) = (w :: 'a::len word)"
proof (rule bit_word_eqI)
  fix n assume k: "LENGTH('a) \<le> 8 * k" and n: "n < LENGTH('a)"
  then have "n div 8 < k" by auto
  then show "bit (le_word (le_bytes k w) :: 'a word) n = bit w n"
    using n by (simp add: bit_le_word le_bytes_def bit_simps)
qed

lemma le_bytes_le_word:
  "8 * length bs \<le> LENGTH('a) \<Longrightarrow> le_bytes (length bs) (le_word bs :: 'a::len word) = bs"
proof (rule nth_equalityI, simp)
  fix i
  assume l: "8 * length bs \<le> LENGTH('a)"
    and i: "i < length (le_bytes (length bs) (le_word bs :: 'a word))"
  show "le_bytes (length bs) (le_word bs :: 'a word) ! i = bs ! i"
    using i l by (intro bit_word_eqI) (auto simp: le_bytes_def bit_simps bit_le_word)
qed

lemma le_word_snoc:
  "le_word (bs @ [b]) = le_word bs OR push_bit (8 * length bs) (ucast b)"
  by (induction bs) (simp_all add: push_bit_or ac_simps)

lemma le_word_inj:
  assumes "length xs = length ys" "8 * length xs \<le> LENGTH('a::len)"
    and "(le_word xs :: 'a word) = le_word ys"
  shows "xs = ys"
  using assms le_bytes_le_word[of xs, where 'a='a] le_bytes_le_word[of ys, where 'a='a] by metis

subsection \<open>Lists\<close>

lemma sorted_wrt_dropWhile: "sorted_wrt P xs \<Longrightarrow> sorted_wrt P (dropWhile Q xs)"
  by (induction xs) auto

lemma takeWhile_length_le: "length (takeWhile P xs) \<le> length xs"
  by (induction xs) auto

lemma drop_length_takeWhile: "drop (length (takeWhile P xs)) xs = dropWhile P xs"
  by (induction xs) auto

lemma concat_nth:
  assumes "j < length xss" "k < length (xss ! j)"
  shows "concat xss ! (length (concat (take j xss)) + k) = xss ! j ! k"
    and "length (concat (take j xss)) + k < length (concat xss)"
    and "length (concat (take (Suc j) xss)) = length (concat (take j xss)) + length (xss ! j)"
proof -
  have c: "concat xss = concat (take j xss) @ xss ! j @ concat (drop (Suc j) xss)"
    using assms(1) by (metis concat.simps(2) concat_append id_take_nth_drop)
  have "length (concat xss) =
      length (concat (take j xss)) + length (xss ! j) + length (concat (drop (Suc j) xss))"
    using arg_cong [OF c, of length] by simp
  then show "length (concat (take j xss)) + k < length (concat xss)" using assms(2) by simp
  show "concat xss ! (length (concat (take j xss)) + k) = xss ! j ! k"
    by (subst c) (simp add: nth_append assms(2))
  show "length (concat (take (Suc j) xss)) = length (concat (take j xss)) + length (xss ! j)"
    using assms(1) by (simp add: take_Suc_conv_app_nth)
qed

subsection \<open>Binary search\<close>

text \<open>
  \<^verbatim>\<open>std::lower_bound\<close> as the C++ library computes it: \<open>before\<close> is the comparison with the searched
  value, the range has \<open>n\<close> elements from \<open>first\<close> on.
\<close>

function std_lower_bound :: "('a \<Rightarrow> bool) \<Rightarrow> 'a list \<Rightarrow> nat \<Rightarrow> nat \<Rightarrow> nat" where
  "std_lower_bound before xs first n =
     (if n = 0 then first
      else let half = n div 2; middle = first + half in
        if before (xs ! middle) then std_lower_bound before xs (middle + 1) (n - half - 1)
        else std_lower_bound before xs first half)"
  by pat_completeness auto
termination
  by (relation "measure (\<lambda>(before, xs, first, n). n)") auto

declare std_lower_bound.simps [simp del]

lemma std_lower_bound_range:
  assumes "\<forall>i < first. before (xs ! i)" "first + n \<le> length xs"
    and "first + n < length xs \<Longrightarrow> \<not> before (xs ! (first + n))"
    and "\<forall>i j. i < j \<and> j < length xs \<and> before (xs ! j) \<longrightarrow> before (xs ! i)"
  shows "std_lower_bound before xs first n = length (takeWhile before xs)"
  using assms
proof (induction before xs first n rule: std_lower_bound.induct)
  case (1 before xs first n)
  show ?case
  proof (cases "n = 0")
    case True
    have "takeWhile before xs = take first xs"
      by (rule takeWhile_eq_take_P_nth) (use "1.prems"(1-3) True in auto)
    then show ?thesis using True "1.prems"(2) by (simp add: std_lower_bound.simps)
  next
    case False
    let ?half = "n div 2" and ?middle = "first + n div 2"
    have m: "?middle < length xs" using False "1.prems"(2) by simp
    show ?thesis
    proof (cases "before (xs ! ?middle)")
      case True
      have "\<forall>i < ?middle + 1. before (xs ! i)"
        using True m "1.prems"(4) by (metis Suc_eq_plus1 less_Suc_eq)
      then have "std_lower_bound before xs (?middle + 1) (n - ?half - 1) = length (takeWhile before xs)"
        using False True "1.prems" by (intro "1.IH"(1)) auto
      then show ?thesis using False True by (simp add: std_lower_bound.simps [of before xs first n] Let_def)
    next
      case nb: False
      then have "std_lower_bound before xs first ?half = length (takeWhile before xs)"
        using False "1.prems" by (intro "1.IH"(2)) auto
      then show ?thesis using False nb by (simp add: std_lower_bound.simps [of before xs first n] Let_def)
    qed
  qed
qed

lemma std_lower_bound_partition:
  assumes "\<forall>i j. i < j \<and> j < length xs \<and> before (xs ! j) \<longrightarrow> before (xs ! i)"
  shows "std_lower_bound before xs 0 (length xs) = length (takeWhile before xs)"
  using assms by (intro std_lower_bound_range) auto

subsection \<open>Comparators\<close>

text \<open>
  What every client of a comparator relies on: on the keys it accepts it is a strict
  total order.
\<close>

locale key_order =
  fixes ok :: "'k \<Rightarrow> bool"
    and less :: "'k \<Rightarrow> 'k \<Rightarrow> bool"
  assumes less_irrefl: "\<not> less x x"
    and less_trans: "ok x \<Longrightarrow> ok y \<Longrightarrow> ok z \<Longrightarrow> less x y \<Longrightarrow> less y z \<Longrightarrow> less x z"
    and less_total: "ok x \<Longrightarrow> ok y \<Longrightarrow> less x y \<or> x = y \<or> less y x"
begin

lemma less_asym: "ok x \<Longrightarrow> ok y \<Longrightarrow> less x y \<Longrightarrow> \<not> less y x"
  using less_irrefl less_trans by blast

lemma not_less_iff: "ok x \<Longrightarrow> ok y \<Longrightarrow> (\<not> less x y) = (x = y \<or> less y x)"
  using less_total less_asym less_irrefl by blast

lemma less_le_trans: "ok x \<Longrightarrow> ok y \<Longrightarrow> ok z \<Longrightarrow> less x y \<Longrightarrow> \<not> less z y \<Longrightarrow> less x z"
  by (metis less_total less_trans)

lemma le_less_trans: "ok x \<Longrightarrow> ok y \<Longrightarrow> ok z \<Longrightarrow> \<not> less y x \<Longrightarrow> less y z \<Longrightarrow> less x z"
  by (metis less_total less_trans)

text \<open>
  In a sorted list the keys below a target are a prefix: skipping them one at a time
  gives the keys that are not below it.
\<close>

lemma dropWhile_less:
  assumes "sorted_wrt less xs" "\<forall>x\<in>set xs. ok x" "ok t"
  shows "dropWhile (\<lambda>x. less x t) xs = filter (\<lambda>x. \<not> less x t) xs"
  using assms
proof (induction xs)
  case Nil
  then show ?case by simp
next
  case (Cons x xs)
  show ?case
  proof (cases "less x t")
    case True
    then show ?thesis using Cons by simp
  next
    case False
    then have "\<not> less y t" if "y \<in> set xs" for y
      using that Cons.prems less_trans by (metis list.set_intros(1,2) sorted_wrt.simps(2))
    then show ?thesis using False by simp
  qed
qed

lemma takeWhile_less:
  assumes "sorted_wrt less xs" "\<forall>x\<in>set xs. ok x" "ok t"
  shows "takeWhile (\<lambda>x. less x t) xs = filter (\<lambda>x. less x t) xs"
  using assms
proof (induction xs)
  case Nil
  then show ?case by simp
next
  case (Cons x xs)
  show ?case
  proof (cases "less x t")
    case True
    then show ?thesis using Cons by simp
  next
    case False
    then have "\<not> less y t" if "y \<in> set xs" for y
      using that Cons.prems less_trans by (metis list.set_intros(1,2) sorted_wrt.simps(2))
    then show ?thesis using False by simp
  qed
qed

lemma sorted_distinct: "sorted_wrt less xs \<Longrightarrow> distinct xs"
  by (induction xs) (auto simp: less_irrefl)

end

end
