(* ===== verification/Status.thy ===== *)
theory Status
  imports Prelude
begin

text \<open>
  \<^verbatim>\<open>StatusCode\<close> and \<^verbatim>\<open>Status\<close> of \<^verbatim>\<open>include/lsmtree/db.h\<close> and \<^verbatim>\<open>src/util/status.cc\<close>, and the
  result type the rest of the model uses for functions that return a \<^verbatim>\<open>Status\<close> and fill
  output parameters: \<open>Inl\<close> a status that is not ok, with every output left as it was,
  or \<open>Inr\<close> the outputs.

  System calls are the environment of the model.  \<open>errno\<close> carries the text that
  \<^verbatim>\<open>std::error_code::message\<close> gives for an error the engine does not name itself.
\<close>

datatype StatusCode = kOk | kNotFound | kAlreadyExists | kInvalidArgument | kIOError
  | kCorruption | kBusy | kNotSupported

record Status =
  st_code :: StatusCode
  st_message :: string

type_synonym 'a result = "Status + 'a"

definition codeName :: "StatusCode \<Rightarrow> string" where
  "codeName code = (case code of
       kOk \<Rightarrow> ''OK''
     | kNotFound \<Rightarrow> ''NotFound''
     | kAlreadyExists \<Rightarrow> ''AlreadyExists''
     | kInvalidArgument \<Rightarrow> ''InvalidArgument''
     | kIOError \<Rightarrow> ''IOError''
     | kCorruption \<Rightarrow> ''Corruption''
     | kBusy \<Rightarrow> ''Busy''
     | kNotSupported \<Rightarrow> ''NotSupported'')"

text \<open>The position of a code in the enumeration, which the C API reports as an \<^verbatim>\<open>int\<close>.\<close>

definition codeValue :: "StatusCode \<Rightarrow> nat" where
  "codeValue code = (case code of
       kOk \<Rightarrow> 0 | kNotFound \<Rightarrow> 1 | kAlreadyExists \<Rightarrow> 2 | kInvalidArgument \<Rightarrow> 3
     | kIOError \<Rightarrow> 4 | kCorruption \<Rightarrow> 5 | kBusy \<Rightarrow> 6 | kNotSupported \<Rightarrow> 7)"

definition success :: Status where
  "success = \<lparr>st_code = kOk, st_message = ''''\<rparr>"

definition notFound :: "string \<Rightarrow> Status" where
  "notFound message = \<lparr>st_code = kNotFound, st_message = message\<rparr>"

definition alreadyExists :: "string \<Rightarrow> Status" where
  "alreadyExists message = \<lparr>st_code = kAlreadyExists, st_message = message\<rparr>"

definition invalidArgument :: "string \<Rightarrow> Status" where
  "invalidArgument message = \<lparr>st_code = kInvalidArgument, st_message = message\<rparr>"

definition ioError :: "string \<Rightarrow> Status" where
  "ioError message = \<lparr>st_code = kIOError, st_message = message\<rparr>"

definition corruption :: "string \<Rightarrow> Status" where
  "corruption message = \<lparr>st_code = kCorruption, st_message = message\<rparr>"

definition busy :: "string \<Rightarrow> Status" where
  "busy message = \<lparr>st_code = kBusy, st_message = message\<rparr>"

definition notSupported :: "string \<Rightarrow> Status" where
  "notSupported message = \<lparr>st_code = kNotSupported, st_message = message\<rparr>"

definition status_ok :: "Status \<Rightarrow> bool" where
  "status_ok s \<longleftrightarrow> st_code s = kOk"

definition isNotFound :: "Status \<Rightarrow> bool" where
  "isNotFound s \<longleftrightarrow> st_code s = kNotFound"

definition toString :: "Status \<Rightarrow> string" where
  "toString s = (if status_ok s then codeName (st_code s)
     else codeName (st_code s) @ '': '' @ st_message s)"

datatype errno = EINTR | EIO | ENOENT | EEXIST | EWOULDBLOCK | EAGAIN | Errno string

definition error_message :: "errno \<Rightarrow> string" where
  "error_message e = (case e of
       EINTR \<Rightarrow> ''Interrupted system call''
     | EIO \<Rightarrow> ''Input/output error''
     | ENOENT \<Rightarrow> ''No such file or directory''
     | EEXIST \<Rightarrow> ''File exists''
     | EWOULDBLOCK \<Rightarrow> ''Resource temporarily unavailable''
     | EAGAIN \<Rightarrow> ''Resource temporarily unavailable''
     | Errno text \<Rightarrow> text)"

lemmas status_defs = success_def notFound_def alreadyExists_def invalidArgument_def
  ioError_def corruption_def busy_def notSupported_def

lemma st_code_simps [simp]:
  "st_code success = kOk" "st_code (notFound m) = kNotFound"
  "st_code (alreadyExists m) = kAlreadyExists"
  "st_code (invalidArgument m) = kInvalidArgument" "st_code (ioError m) = kIOError"
  "st_code (corruption m) = kCorruption" "st_code (busy m) = kBusy"
  "st_code (notSupported m) = kNotSupported"
  by (simp_all add: status_defs)

lemma status_ok_simps [simp]:
  "status_ok success" "\<not> status_ok (notFound m)" "\<not> status_ok (alreadyExists m)"
  "\<not> status_ok (invalidArgument m)" "\<not> status_ok (ioError m)"
  "\<not> status_ok (corruption m)" "\<not> status_ok (busy m)" "\<not> status_ok (notSupported m)"
  by (simp_all add: status_ok_def)

lemma codeValue_inject: "codeValue c = codeValue d \<longleftrightarrow> c = d"
  by (cases c; cases d) (simp_all add: codeValue_def)

end
