(* ===== verification/Coding.thy ===== *)
theory Coding
  imports Status
begin

text \<open>
  \<^verbatim>\<open>src/util/coding.cc\<close>: fixed-width little-endian integers.  Encoders append to a buffer;
  the readers \<open>getFixed32\<close>/\<open>getFixed64\<close> return the value and the rest of the input, or
  \<open>None\<close> (the C++ \<^verbatim>\<open>false\<close>) with the input left alone.  The raw decoders read a buffer
  that their callers guarantee to be long enough.
\<close>

definition encodeFixed32 :: "u32 \<Rightarrow> bytes" where
  "encodeFixed32 value =
     [ucast (value AND 0xff),
      ucast (drop_bit 8 value AND 0xff),
      ucast (drop_bit 16 value AND 0xff),
      ucast (drop_bit 24 value AND 0xff)]"

definition decodeFixed32 :: "bytes \<Rightarrow> u32" where
  "decodeFixed32 src =
     ucast (src ! 0) OR push_bit 8 (ucast (src ! 1)) OR
     push_bit 16 (ucast (src ! 2)) OR push_bit 24 (ucast (src ! 3))"

definition decodeFixed64 :: "bytes \<Rightarrow> u64" where
  "decodeFixed64 data =
     fold (\<lambda>index value. value OR push_bit (index * 8) (ucast (data ! index))) [0..<8] 0"

definition putFixed32 :: "bytes \<Rightarrow> u32 \<Rightarrow> bytes" where
  "putFixed32 dst value = dst @ encodeFixed32 value"

definition putFixed64 :: "bytes \<Rightarrow> u64 \<Rightarrow> bytes" where
  "putFixed64 dst value =
     fold (\<lambda>index d. d @ [ucast (drop_bit (index * 8) value AND 0xff)]) [0..<8] dst"

definition getFixed32 :: "bytes \<Rightarrow> (u32 \<times> bytes) option" where
  "getFixed32 input =
     (if length input < 4 then None else Some (decodeFixed32 input, drop 4 input))"

definition getFixed64 :: "bytes \<Rightarrow> (u64 \<times> bytes) option" where
  "getFixed64 input =
     (if length input < 8 then None else Some (decodeFixed64 input, drop 8 input))"

lemma encodeFixed32_le: "encodeFixed32 v = le_bytes 4 v"
  by (simp add: encodeFixed32_def le_bytes_def upt_rec)

lemma putFixed64_le: "putFixed64 d v = d @ le_bytes 8 v"
  by (simp add: putFixed64_def le_bytes_def upt_rec)

lemma fold_or_le_word:
  "k \<le> length data \<Longrightarrow>
     fold (\<lambda>index value. value OR push_bit (index * 8) (ucast (data ! index))) [0..<k] 0 =
     le_word (take k data)"
  by (induction k) (simp_all add: take_Suc_conv_app_nth le_word_snoc ac_simps)

lemma decodeFixed32_le: "4 \<le> length s \<Longrightarrow> decodeFixed32 s = le_word (take 4 s)"
  using fold_or_le_word[of 4 s, where 'a=32] 
  by (simp add: decodeFixed32_def upt_rec or.assoc numeral_2_eq_2 numeral_3_eq_3)

lemma decodeFixed64_le: "8 \<le> length s \<Longrightarrow> decodeFixed64 s = le_word (take 8 s)"
  unfolding decodeFixed64_def by (rule fold_or_le_word)

lemma length_encodeFixed32 [simp, size_simps]: "length (encodeFixed32 v) = 4"
  by (simp add: encodeFixed32_def)

lemma length_putFixed32 [simp, size_simps]: "length (putFixed32 d v) = length d + 4"
  by (simp add: putFixed32_def)

lemma length_putFixed64 [simp, size_simps]: "length (putFixed64 d v) = length d + 8"
  by (simp add: putFixed64_le)

lemma putFixed64_append: "putFixed64 d v = d @ putFixed64 [] v"
  by (simp add: putFixed64_le)

lemma decodeFixed32_encode [simp, codec_simps]: "decodeFixed32 (encodeFixed32 v @ r) = v"
  by (simp add: decodeFixed32_le encodeFixed32_le le_word_le_bytes)

lemma encodeFixed32_decode: "4 \<le> length s \<Longrightarrow> encodeFixed32 (decodeFixed32 s) = take 4 s"
  using le_bytes_le_word[of "take 4 s", where 'a=32]
  by (simp add: decodeFixed32_le encodeFixed32_le)

lemma decodeFixed64_encode [simp, codec_simps]: "decodeFixed64 (putFixed64 [] v @ r) = v"
  by (simp add: decodeFixed64_le putFixed64_le le_word_le_bytes)

lemma putFixed64_decode: "8 \<le> length s \<Longrightarrow> putFixed64 [] (decodeFixed64 s) = take 8 s"
  using le_bytes_le_word[of "take 8 s", where 'a=64]
  by (simp add: decodeFixed64_le putFixed64_le)

lemma getFixed32_encode [simp, codec_simps]:
  "getFixed32 (encodeFixed32 v @ r) = Some (v, r)"
  by (simp add: getFixed32_def)

lemma getFixed64_put [simp, codec_simps]: "getFixed64 (putFixed64 [] v @ r) = Some (v, r)"
  by (simp add: getFixed64_def)

lemma getFixed32_Some:
  "getFixed32 i = Some (v, r) \<longleftrightarrow> i = encodeFixed32 v @ r"
proof
  assume "getFixed32 i = Some (v, r)"
  then have "4 \<le> length i" "v = decodeFixed32 i" "r = drop 4 i"
    by (auto simp: getFixed32_def split: if_splits)
  then show "i = encodeFixed32 v @ r" by (simp add: encodeFixed32_decode)
qed simp

lemma getFixed64_Some:
  "getFixed64 i = Some (v, r) \<longleftrightarrow> i = putFixed64 [] v @ r"
proof
  assume "getFixed64 i = Some (v, r)"
  then have "8 \<le> length i" "v = decodeFixed64 i" "r = drop 8 i"
    by (auto simp: getFixed64_def split: if_splits)
  then show "i = putFixed64 [] v @ r" by (simp add: putFixed64_decode)
qed simp

lemma getFixed32_None: "getFixed32 i = None \<longleftrightarrow> length i < 4"
  by (simp add: getFixed32_def)

lemma getFixed64_None: "getFixed64 i = None \<longleftrightarrow> length i < 8"
  by (simp add: getFixed64_def)

lemma encodeFixed32_inject: "encodeFixed32 a = encodeFixed32 b \<longleftrightarrow> a = b"
  by (metis decodeFixed32_encode append_Nil2)

lemma putFixed64_inject: "putFixed64 [] a = putFixed64 [] b \<longleftrightarrow> a = b"
  by (metis decodeFixed64_encode append_Nil2)

subsection \<open>Properties\<close>

text \<open>
  C34. The readers are exactly the inverses of the writers: a reader succeeds with value
  \<open>v\<close> and rest \<open>r\<close> if and only if the input is the encoding of \<open>v\<close> followed by \<open>r\<close>,
  and it fails if and only if the input is too short.
\<close>

theorem fixed_readers_invert_writers:
  "(getFixed32 i = Some (v, r) \<longleftrightarrow> i = putFixed32 [] v @ r) \<and>
   (getFixed64 i = Some (w, r) \<longleftrightarrow> i = putFixed64 [] w @ r) \<and>
   (getFixed32 i = None \<longleftrightarrow> length i < 4) \<and> (getFixed64 i = None \<longleftrightarrow> length i < 8)"
  by (simp add: getFixed32_Some getFixed64_Some getFixed32_None getFixed64_None putFixed32_def)

end
