(* ===== verification/Crc32c.thy ===== *)
theory Crc32c
  imports Coding
begin

text \<open>
  \<^verbatim>\<open>src/util/crc32c.cc\<close>: the bitwise CRC-32C loop.  Besides the standard check value, the
  theory shows what the file formats rely on: two buffers of the same length that differ
  in a single byte, or anywhere inside a window of four bytes, never have the same
  checksum.
\<close>

definition kCrc32cPolynomial :: u32 where
  "kCrc32cPolynomial = 0x82f63b78"

definition crc_bit :: "u32 \<Rightarrow> u32" where
  "crc_bit crc = (if crc AND 1 \<noteq> 0 then drop_bit 1 crc XOR kCrc32cPolynomial
                  else drop_bit 1 crc)"

definition crc_byte :: "u32 \<Rightarrow> byte \<Rightarrow> u32" where
  "crc_byte crc character = (crc_bit ^^ 8) (crc XOR ucast character)"

definition crc32c :: "bytes \<Rightarrow> u32" where
  "crc32c input = NOT (fold (\<lambda>character crc. crc_byte crc character) input 0xffffffff)"

lemma xor_right_cancel: "a XOR p = b XOR p \<longleftrightarrow> a = b" for a b p :: "'a::len word"
proof
  assume "a XOR p = b XOR p"
  then have "(a XOR p) XOR p = (b XOR p) XOR p" by (rule arg_cong)
  then show "a = b" by (simp add: xor.assoc)
qed simp

lemma crc_bit_eq: "crc_bit x = drop_bit 1 x XOR (if odd x then kCrc32cPolynomial else 0)"
  by (simp add: crc_bit_def and_one_eq odd_iff_mod_2_eq_one)

lemma crc_bit_xor: "crc_bit (x XOR y) = crc_bit x XOR crc_bit y"
proof -
  have "odd (x XOR y) \<longleftrightarrow> odd x \<noteq> odd y"
    by (simp flip: bit_0 add: bit_xor_iff)
  then show ?thesis
    by (auto simp: crc_bit_eq drop_bit_xor ac_simps)
qed

lemma crc_bits_xor: "(crc_bit ^^ n) (x XOR y) = (crc_bit ^^ n) x XOR (crc_bit ^^ n) y"
  by (induction n) (simp_all add: crc_bit_xor)

lemma bit31_poly: "bit kCrc32cPolynomial 31"
  by (simp add: kCrc32cPolynomial_def)

lemma crc_bit_inj: "crc_bit x = crc_bit y \<Longrightarrow> x = y"
proof -
  assume eq: "crc_bit x = crc_bit y"
  have b31: "bit (crc_bit z) 31 = odd z" for z
    by (auto simp: crc_bit_eq bit_xor_iff bit_drop_bit_eq bit31_poly dest: bit_imp_le_length)
  from eq have o: "odd x = odd y" by (metis b31)
  with eq have d: "drop_bit 1 x = drop_bit 1 y"
    by (cases "odd y") (simp_all add: crc_bit_eq xor_right_cancel)
  show "x = y"
  proof (rule bit_word_eqI)
    fix n
    show "bit x n = bit y n"
    proof (cases n)
      case 0
      then show ?thesis using o by (simp add: bit_0)
    next
      case (Suc m)
      then show ?thesis using d by (metis bit_drop_bit_eq comp_apply plus_1_eq_Suc)
    qed
  qed
qed

lemma crc_bits_inj: "(crc_bit ^^ n) x = (crc_bit ^^ n) y \<Longrightarrow> x = y"
  by (induction n) (auto dest: crc_bit_inj)

text \<open>Shifting out zero bits does not touch the polynomial.\<close>

lemma crc_bits_push:
  "(\<And>i. bit y i \<Longrightarrow> i + n < 32) \<Longrightarrow> (crc_bit ^^ n) (push_bit n y) = y"
proof (induction n)
  case 0
  then show ?case by simp
next
  case (Suc n)
  have "crc_bit (push_bit (Suc n) y) = push_bit n y"
  proof -
    have "even (push_bit (Suc n) y)" by simp
    moreover have "drop_bit 1 (push_bit (Suc n) y) = push_bit n y"
    proof (rule bit_word_eqI)
      fix i assume "i < LENGTH(32)"
      then show "bit (drop_bit 1 (push_bit (Suc n) y)) i = bit (push_bit n y) i"
        unfolding bit_drop_bit_eq comp_def bit_push_bit_iff
        using Suc.prems[of "i - n"] by auto
    qed
    ultimately show ?thesis by (simp add: crc_bit_eq)
  qed
  moreover have "(crc_bit ^^ n) (push_bit n y) = y"
    by (rule Suc.IH) (use Suc.prems in force)
  ultimately show ?case by (simp only: funpow_Suc_right comp_apply)
qed

text \<open>Up to four bytes pass through the register like one little-endian word.\<close>

lemma crc_window:
  "length bs \<le> 4 \<Longrightarrow>
     fold (\<lambda>character crc. crc_byte crc character) bs c = (crc_bit ^^ (8 * length bs)) (c XOR le_word bs)"
proof (induction bs rule: rev_induct)
  case Nil
  then show ?case by simp
next
  case (snoc b bs)
  let ?n = "8 * length bs"
  have b: "(crc_bit ^^ ?n) (push_bit ?n (ucast b)) = ucast b"
    by (rule crc_bits_push) (use snoc.prems in \<open>auto simp: bit_simps dest: bit_imp_le_length\<close>)
  have "le_word (bs @ [b]) = le_word bs XOR push_bit ?n (ucast b :: u32)"
    by (rule bit_word_eqI)
      (auto simp: le_word_snoc bit_or_iff bit_xor_iff bit_le_word bit_push_bit_iff)
  then have "(crc_bit ^^ ?n) (c XOR le_word (bs @ [b]))
      = (crc_bit ^^ ?n) (c XOR le_word bs) XOR ucast b"
    using b by (simp add: crc_bits_xor ac_simps)
  then show ?case
    using snoc by (simp add: crc_byte_def funpow_add add.commute)
qed

lemma crc_fold_inj:
  "fold (\<lambda>character crc. crc_byte crc character) bs c =
   fold (\<lambda>character crc. crc_byte crc character) bs d \<Longrightarrow> c = d"
proof (induction bs arbitrary: c d)
  case Nil
  then show ?case by simp
next
  case (Cons b bs)
  then have "crc_byte c b = crc_byte d b" by simp
  then have "c XOR ucast b = d XOR ucast b"
    unfolding crc_byte_def by (rule crc_bits_inj)
  then show ?case by (simp add: xor_right_cancel)
qed

lemma crc32c_inj_window:
  assumes "length xs = length ys" "length xs \<le> 4"
    and "crc32c (p @ xs @ s) = crc32c (p @ ys @ s)"
  shows "xs = ys"
proof -
  define c where "c = fold (\<lambda>character crc. crc_byte crc character) p 0xffffffff"
  have "fold (\<lambda>character crc. crc_byte crc character) xs c =
        fold (\<lambda>character crc. crc_byte crc character) ys c"
    using assms(3) by (auto simp: crc32c_def c_def dest: crc_fold_inj)
  then have "c XOR le_word xs = c XOR le_word ys"
    using assms(1,2) by (auto simp: crc_window dest: crc_bits_inj)
  then have "(le_word xs :: u32) = le_word ys"
    by (metis xor.commute xor_right_cancel)
  then show ?thesis
    using assms(1,2) by (intro le_word_inj[where 'a=32]) simp_all
qed

subsection \<open>Evaluation\<close>

text \<open>
  Rules that run the loop on concrete buffers: the step unfolds only on numerals, so the
  register is evaluated before it is used.
\<close>

lemmas crc_bit_numeral = crc_bit_def [of "numeral n" for n, unfolded kCrc32cPolynomial_def]

lemma crc_byte_unfold:
  "crc_byte crc b = crc_bit (crc_bit (crc_bit (crc_bit
     (crc_bit (crc_bit (crc_bit (crc_bit (crc XOR ucast b))))))))"
  by (simp add: crc_byte_def eval_nat_numeral)

lemmas crc_eval = crc32c_def crc_byte_unfold crc_bit_numeral

subsection \<open>Properties\<close>

text \<open>
  C33. The checksum detects every corruption confined to a window of at most four bytes:
  replacing the bytes \<open>xs\<close> of a buffer by different bytes \<open>ys\<close> of the same length
  always changes the CRC-32C, whatever surrounds them.
\<close>

theorem crc32c_detects_window:
  assumes "length xs = length ys" and "length xs \<le> 4" and "xs \<noteq> ys"
  shows "crc32c (p @ xs @ s) \<noteq> crc32c (p @ ys @ s)"
  using assms crc32c_inj_window by blast

theorem crc32c_detects_window_witness:
  "crc32c ([0x31] @ [0x32, 0x33] @ [0x34]) \<noteq> crc32c ([0x31] @ [0x33, 0x32] @ [0x34])"
  by (rule crc32c_detects_window) simp_all

text \<open>
  The loop computes the CRC-32C of the Castagnoli polynomial: the standard check
  value of the nine bytes "123456789" is \<open>0xe3069283\<close>, and of the empty buffer \<open>0\<close>.
\<close>

lemma crc32c_check_value:
  "crc32c (ascii ''123456789'') = 0xe3069283 \<and> crc32c [] = 0"
  by (simp add: crc_eval ascii_def)

end
