(* ===== verification/InternalKey.thy ===== *)
theory InternalKey
  imports Coding
begin

text \<open>
  \<^verbatim>\<open>src/db/internal_key.h\<close>, \<^verbatim>\<open>src/db/internal_key.cc\<close> and \<^verbatim>\<open>src/db/lookup_result.h\<close>.  An internal
  key is a user key followed by an eight byte tag with the sequence number in its upper
  56 bits and the value type in its low byte.  The theory proves the round trip, that
  \<open>InternalKeyLess\<close> is the order "user key ascending, sequence and type descending", and
  interprets the contract \<open>key_order\<close> for it.

  \<open>LookupResult\<close> joins the enumeration of \<^verbatim>\<open>lookup_result.h\<close> with the value output that
  goes with \<^verbatim>\<open>LookupResult::kValue\<close>.
\<close>

type_synonym SequenceNumber = u64

definition kMaxSequenceNumber :: SequenceNumber where
  "kMaxSequenceNumber = push_bit 56 1 - 1"

datatype ValueType = kDeletion | kValue

datatype LookupResult = Absent | Found bytes | Deleted

record ParsedInternalKey =
  pk_user_key :: bytes
  pk_sequence :: SequenceNumber
  pk_type :: ValueType

definition kTagSize :: nat where
  "kTagSize = 8"

definition typeCode :: "ValueType \<Rightarrow> u64" where
  "typeCode t = (case t of kDeletion \<Rightarrow> 0 | kValue \<Rightarrow> 1)"

definition isValidValueType :: "u64 \<Rightarrow> ValueType option" where
  "isValidValueType t = (if t = 0 then Some kDeletion else if t = 1 then Some kValue else None)"

definition decodeTag :: "bytes \<Rightarrow> u64" where
  "decodeTag internal_key =
     (case getFixed64 (drop (length internal_key - kTagSize) internal_key) of
        Some (tag, _) \<Rightarrow> tag | None \<Rightarrow> 0)"

definition encodeInternalKey :: "bytes \<Rightarrow> SequenceNumber \<Rightarrow> ValueType \<Rightarrow> bytes" where
  "encodeInternalKey user_key sequence type =
     putFixed64 user_key (push_bit 8 sequence OR typeCode type)"

definition parseInternalKey :: "bytes \<Rightarrow> ParsedInternalKey option" where
  "parseInternalKey encoded =
     (if length encoded < kTagSize then None
      else let tag = decodeTag encoded in
        case isValidValueType (tag AND 0xff) of
          None \<Rightarrow> None
        | Some type \<Rightarrow>
            Some \<lparr>pk_user_key = take (length encoded - kTagSize) encoded,
                  pk_sequence = drop_bit 8 tag, pk_type = type\<rparr>)"

definition InternalKeyLess :: "bytes \<Rightarrow> bytes \<Rightarrow> bool" where
  "InternalKeyLess lhs rhs =
     (let lhs_user_key = take (length lhs - kTagSize) lhs;
          rhs_user_key = take (length rhs - kTagSize) rhs
      in if lhs_user_key \<noteq> rhs_user_key then lhs_user_key < rhs_user_key
         else decodeTag lhs > decodeTag rhs)"

text \<open>The parts of a key, and the keys the engine stores.\<close>

definition userKey :: "bytes \<Rightarrow> bytes" where
  "userKey internal_key = take (length internal_key - kTagSize) internal_key"

definition wf_ikey :: "bytes \<Rightarrow> bool" where
  "wf_ikey k \<longleftrightarrow> parseInternalKey k \<noteq> None"

subsection \<open>Tags\<close>

lemma unat_typeCode: "unat (typeCode t) \<le> 1"
  by (cases t) (simp_all add: typeCode_def)

lemma kMax_unat: "unat kMaxSequenceNumber = 2 ^ 56 - 1"
  by (simp add: kMaxSequenceNumber_def)

lemma unat_tag:
  assumes "s \<le> kMaxSequenceNumber"
  shows "unat (push_bit 8 s OR typeCode t) = 256 * unat s + unat (typeCode t)"
proof -
  have "unat s < 2 ^ 56" using assms by (simp add: word_le_nat_alt kMax_unat)
  moreover have "push_bit 8 s OR typeCode t = push_bit 8 s + typeCode t"
    by (rule disjunctive_add [symmetric])
      (auto simp: typeCode_def bit_simps split: ValueType.splits)
  ultimately show ?thesis
    using unat_typeCode [of t] by (simp add: push_bit_eq_mult unat_word_ariths)
qed

lemma tag_sequence:
  assumes "s \<le> kMaxSequenceNumber"
  shows "drop_bit 8 (push_bit 8 s OR typeCode t) = s"
proof -
  have "unat (drop_bit 8 (push_bit 8 s OR typeCode t)) = unat s"
    using unat_typeCode [of t]
    by (simp only: unat_drop_bit_eq unat_tag assms) (simp add: drop_bit_eq_div)
  then show ?thesis by (simp only: word_unat_eq_iff)
qed

lemma tag_type:
  assumes "s \<le> kMaxSequenceNumber"
  shows "(push_bit 8 s OR typeCode t) AND 0xff = typeCode t"
proof -
  have "(0xff :: u64) = mask 8" by (simp add: mask_eq_exp_minus_1)
  then have "unat ((push_bit 8 s OR typeCode t) AND 0xff) = unat (typeCode t)"
    using unat_typeCode [of t]
    by (simp only: take_bit_eq_mask [symmetric] unsigned_take_bit_eq unat_tag assms)
      (simp add: take_bit_eq_mod)
  then show ?thesis by (simp only: word_unat_eq_iff)
qed

lemma isValidValueType_code [simp]: "isValidValueType (typeCode t) = Some t"
  by (cases t) (simp_all add: isValidValueType_def typeCode_def)

lemma isValidValueType_Some: "isValidValueType c = Some t \<longleftrightarrow> c = typeCode t"
  by (cases t) (auto simp: isValidValueType_def typeCode_def)

subsection \<open>Round trip\<close>

lemma length_encodeInternalKey [simp, size_simps]:
  "length (encodeInternalKey k s t) = length k + 8"
  by (simp add: encodeInternalKey_def)

lemma encodeInternalKey_append:
  "encodeInternalKey k s t = k @ putFixed64 [] (push_bit 8 s OR typeCode t)"
  by (simp add: encodeInternalKey_def putFixed64_append [of k])

lemma decodeTag_append [simp]: "decodeTag (k @ putFixed64 [] tag) = tag"
  using getFixed64_put [of tag "[]"] by (simp add: decodeTag_def kTagSize_def)

lemma userKey_append [simp]: "userKey (k @ putFixed64 [] tag) = k"
  by (simp add: userKey_def kTagSize_def)

lemma ikey_decompose: "8 \<le> length k \<Longrightarrow> userKey k @ putFixed64 [] (decodeTag k) = k"
proof -
  assume "8 \<le> length k"
  then have l: "length (drop (length k - 8) k) = 8" by simp
  then have "getFixed64 (drop (length k - 8) k) =
      Some (decodeFixed64 (drop (length k - 8) k), [])"
    by (simp add: getFixed64_def)
  then have "decodeTag k = decodeFixed64 (drop (length k - 8) k)"
    by (simp add: decodeTag_def kTagSize_def)
  then show ?thesis
    using l by (simp add: putFixed64_decode userKey_def kTagSize_def)
qed

lemma userKey_encode [simp, codec_simps]: "userKey (encodeInternalKey k s t) = k"
  by (simp add: encodeInternalKey_append)

lemma decodeTag_encode [simp]:
  "decodeTag (encodeInternalKey k s t) = push_bit 8 s OR typeCode t"
  by (simp add: encodeInternalKey_append)

lemma parse_encode [codec_simps]:
  assumes "s \<le> kMaxSequenceNumber"
  shows "parseInternalKey (encodeInternalKey k s t) =
    Some \<lparr>pk_user_key = k, pk_sequence = s, pk_type = t\<rparr>"
  using assms userKey_encode [of k s t]
  by (simp add: parseInternalKey_def tag_type tag_sequence userKey_def kTagSize_def
      del: drop_bit_or)

lemma parse_Some:
  assumes "parseInternalKey e = Some p"
  shows "e = encodeInternalKey (pk_user_key p) (pk_sequence p) (pk_type p)"
    and "pk_sequence p \<le> kMaxSequenceNumber"
    and "pk_user_key p = userKey e" and "8 \<le> length e"
proof -
  let ?tag = "decodeTag e"
  have l: "8 \<le> length e" and t: "?tag AND 0xff = typeCode (pk_type p)"
    and p: "pk_user_key p = userKey e" "pk_sequence p = drop_bit 8 ?tag"
    using assms
    by (auto simp: parseInternalKey_def userKey_def kTagSize_def Let_def isValidValueType_Some
        split: if_splits option.splits)
  have m: "(0xff :: u64) = mask 8" by (simp add: mask_eq_exp_minus_1)
  have "?tag = push_bit 8 (drop_bit 8 ?tag) OR (?tag AND 0xff)"
    unfolding m by (rule bit_word_eqI) (auto simp: bit_simps)
  then have tag: "?tag = push_bit 8 (pk_sequence p) OR typeCode (pk_type p)"
    by (simp only: t p)
  show "e = encodeInternalKey (pk_user_key p) (pk_sequence p) (pk_type p)"
    using ikey_decompose [OF l] by (simp add: encodeInternalKey_append p(1) flip: tag)
  have "unat ?tag < 2 ^ 64" using unsigned_less [of ?tag, where 'a=nat] by simp
  then have "unat (drop_bit 8 ?tag) < 2 ^ 56"
    by (simp only: unat_drop_bit_eq) (simp add: drop_bit_eq_div)
  then show "pk_sequence p \<le> kMaxSequenceNumber"
    by (simp add: p(2) word_le_nat_alt kMax_unat)
  show "pk_user_key p = userKey e" "8 \<le> length e" by (fact p(1) l)+
qed

lemma wf_ikey_encode [simp, intro]:
  "s \<le> kMaxSequenceNumber \<Longrightarrow> wf_ikey (encodeInternalKey k s t)"
  by (simp add: wf_ikey_def parse_encode)

lemma wf_ikeyE:
  assumes "wf_ikey e"
  obtains k s t where "e = encodeInternalKey k s t" "s \<le> kMaxSequenceNumber"
proof -
  obtain p where "parseInternalKey e = Some p" using assms by (auto simp: wf_ikey_def)
  then show ?thesis using that parse_Some(1,2) by blast
qed

lemma wf_ikey_length: "wf_ikey e \<Longrightarrow> 8 \<le> length e"
  by (auto simp: wf_ikey_def dest: parse_Some)

subsection \<open>Order\<close>

lemma InternalKeyLess_alt:
  "InternalKeyLess a b \<longleftrightarrow>
     userKey a < userKey b \<or> userKey a = userKey b \<and> decodeTag b < decodeTag a"
  by (auto simp: InternalKeyLess_def userKey_def Let_def)

lemma tag_less:
  assumes "s1 \<le> kMaxSequenceNumber" "s2 \<le> kMaxSequenceNumber"
  shows "(push_bit 8 s2 OR typeCode t2) < (push_bit 8 s1 OR typeCode t1) \<longleftrightarrow>
     s2 < s1 \<or> s2 = s1 \<and> typeCode t2 < typeCode t1"
proof -
  have "256 * unat s2 + unat (typeCode t2) < 256 * unat s1 + unat (typeCode t1) \<longleftrightarrow>
     unat s2 < unat s1 \<or> unat s2 = unat s1 \<and> unat (typeCode t2) < unat (typeCode t1)"
    using unat_typeCode [of t1] unat_typeCode [of t2] by arith
  then show ?thesis
    using assms by (simp add: word_less_nat_alt unat_tag word_unat_eq_iff)
qed

lemma InternalKeyLess_encode:
  assumes "s1 \<le> kMaxSequenceNumber" "s2 \<le> kMaxSequenceNumber"
  shows "InternalKeyLess (encodeInternalKey k1 s1 t1) (encodeInternalKey k2 s2 t2) \<longleftrightarrow>
     k1 < k2 \<or> k1 = k2 \<and> (s2 < s1 \<or> s2 = s1 \<and> typeCode t2 < typeCode t1)"
  by (simp add: InternalKeyLess_alt tag_less assms)

interpretation ikey: key_order "\<lambda>k. 8 \<le> length k" InternalKeyLess
proof
  show "\<not> InternalKeyLess x x" for x by (simp add: InternalKeyLess_alt)
  show "InternalKeyLess x z" if "InternalKeyLess x y" "InternalKeyLess y z" for x y z
    using that by (auto simp: InternalKeyLess_alt)
  show "InternalKeyLess x y \<or> x = y \<or> InternalKeyLess y x"
    if "8 \<le> length x" "8 \<le> length y" for x y
    using ikey_decompose [OF that(1)] ikey_decompose [OF that(2)]
    by (metis InternalKeyLess_alt linorder_neqE)
qed

interpretation wfkey: key_order wf_ikey InternalKeyLess
  by unfold_locales (use ikey.less_irrefl ikey.less_trans ikey.less_total wf_ikey_length in blast)+

subsection \<open>Properties\<close>

text \<open>
  C35. Internal keys round-trip: parsing the encoding of a user key, a sequence number of
  at most 56 bits and a type gives them back, and whatever parses is the encoding of its
  parts.
\<close>

theorem internal_key_roundtrip:
  assumes "s \<le> kMaxSequenceNumber"
  shows "parseInternalKey e = Some \<lparr>pk_user_key = k, pk_sequence = s, pk_type = t\<rparr> \<longleftrightarrow>
     e = encodeInternalKey k s t"
  using assms parse_encode parse_Some(1) by fastforce

theorem internal_key_roundtrip_witness:
  "parseInternalKey (encodeInternalKey [0x61] 7 kValue) =
     Some \<lparr>pk_user_key = [0x61], pk_sequence = 7, pk_type = kValue\<rparr>"
proof -
  have "(7 :: u64) \<le> kMaxSequenceNumber" by (simp add: kMaxSequenceNumber_def)
  from internal_key_roundtrip [OF this] show ?thesis by blast
qed

text \<open>
  C36. The comparator orders internal keys by user key ascending and, for one user key, by
  sequence number descending and then by type descending, so that the newest version of a
  key comes first.
\<close>

theorem internal_key_order:
  assumes "s1 \<le> kMaxSequenceNumber" and "s2 \<le> kMaxSequenceNumber"
  shows "InternalKeyLess (encodeInternalKey k1 s1 t1) (encodeInternalKey k2 s2 t2) \<longleftrightarrow>
     k1 < k2 \<or> k1 = k2 \<and> (s1 > s2 \<or> s1 = s2 \<and> t1 = kValue \<and> t2 = kDeletion)"
  by (cases t1; cases t2) (auto simp: InternalKeyLess_encode assms typeCode_def)

theorem internal_key_order_witness:
  "InternalKeyLess (encodeInternalKey [0x61] 9 kDeletion) (encodeInternalKey [0x61] 7 kValue)"
proof -
  have "(9 :: u64) \<le> kMaxSequenceNumber" "(7 :: u64) \<le> kMaxSequenceNumber"
    by (simp_all add: kMaxSequenceNumber_def)
  from internal_key_order [OF this] show ?thesis by simp
qed

end
