(* ===== verification/WriteBatch.thy ===== *)
theory WriteBatch
  imports InternalKey
begin

text \<open>
  \<^verbatim>\<open>src/db/write_batch.cc\<close>, \<^verbatim>\<open>write_batch_internal.h\<close> and \<^verbatim>\<open>write_batch_codec.cc\<close>.  A batch is
  the list of its operations in call order.  \<open>WriteBatchCodec_encode\<close> and
  \<open>WriteBatchCodec_decode\<close> are the log payload codec; the theory shows that they are
  inverse to each other and that the size checks bound every payload.
\<close>

datatype OperationType = kPut | kDelete

record Operation =
  op_type :: OperationType
  op_key :: bytes
  op_value :: bytes

type_synonym WriteBatch = "Operation list"

definition WriteBatch_put :: "WriteBatch \<Rightarrow> bytes \<Rightarrow> bytes \<Rightarrow> WriteBatch" where
  "WriteBatch_put batch key value =
     batch @ [\<lparr>op_type = kPut, op_key = key, op_value = value\<rparr>]"

definition WriteBatch_erase :: "WriteBatch \<Rightarrow> bytes \<Rightarrow> WriteBatch" where
  "WriteBatch_erase batch key =
     batch @ [\<lparr>op_type = kDelete, op_key = key, op_value = []\<rparr>]"

definition WriteBatch_clear :: "WriteBatch \<Rightarrow> WriteBatch" where
  "WriteBatch_clear batch = []"

definition WriteBatch_count :: "WriteBatch \<Rightarrow> nat" where
  "WriteBatch_count batch = length batch"

definition WriteBatch_empty :: "WriteBatch \<Rightarrow> bool" where
  "WriteBatch_empty batch \<longleftrightarrow> batch = []"

definition kMaxWalRecordPayloadSize :: nat where
  "kMaxWalRecordPayloadSize = 64 * 1024 * 1024"

definition kMaxWriteBatchPayloadSize :: nat where
  "kMaxWriteBatchPayloadSize = kMaxWalRecordPayloadSize"

definition kPutRecord :: byte where
  "kPutRecord = 1"

definition kDeleteRecord :: byte where
  "kDeleteRecord = 2"

definition kBatchHeaderSize :: nat where
  "kBatchHeaderSize = 8 + 4"

definition kOperationHeaderSize :: nat where
  "kOperationHeaderSize = 1 + 4"

definition uint32_max :: nat where
  "uint32_max = 2 ^ 32 - 1"

definition hasValidSequenceRange :: "SequenceNumber \<Rightarrow> nat \<Rightarrow> bool" where
  "hasValidSequenceRange first_sequence operation_count =
     (if first_sequence = 0 \<or> first_sequence > kMaxSequenceNumber \<or> operation_count = 0 \<or>
         operation_count > uint32_max
      then False
      else (let sequence_increment = (of_nat (operation_count - 1) :: SequenceNumber)
            in sequence_increment \<le> kMaxSequenceNumber - first_sequence))"

definition addEncodedSize :: "nat \<Rightarrow> nat \<Rightarrow> nat option" where
  "addEncodedSize amount total_size =
     (if amount > kMaxWriteBatchPayloadSize - total_size then None
      else Some (total_size + amount))"

definition takeByte :: "bytes \<Rightarrow> (byte \<times> bytes) option" where
  "takeByte input = (case input of [] \<Rightarrow> None | b # rest \<Rightarrow> Some (b, rest))"

definition takeBytes :: "bytes \<Rightarrow> u32 \<Rightarrow> (bytes \<times> bytes) option" where
  "takeBytes input len =
     (if length input < unat len then None
      else Some (take (unat len) input, drop (unat len) input))"

text \<open>One iteration of the checking loop: the new total, or the error it returns.\<close>

definition addOperationSize :: "Operation \<Rightarrow> nat \<Rightarrow> nat result" where
  "addOperationSize operation encoded_size =
     (if length (op_key operation) > uint32_max
      then Inl (invalidArgument ''write batch key is too large'')
      else case Option.bind (addEncodedSize kOperationHeaderSize encoded_size)
                  (addEncodedSize (length (op_key operation))) of
        None \<Rightarrow> Inl (invalidArgument ''write batch payload exceeds 64 MiB'')
      | Some size1 \<Rightarrow>
          (case op_type operation of
             kPut \<Rightarrow>
               if length (op_value operation) > uint32_max
               then Inl (invalidArgument ''write batch value is too large'')
               else (case Option.bind (addEncodedSize 4 size1)
                            (addEncodedSize (length (op_value operation))) of
                       None \<Rightarrow> Inl (invalidArgument ''write batch payload exceeds 64 MiB'')
                     | Some size2 \<Rightarrow> Inr size2)
           | kDelete \<Rightarrow> Inr size1))"

fun checkOperations :: "WriteBatch \<Rightarrow> nat \<Rightarrow> nat result" where
  "checkOperations [] size1 = Inr size1"
| "checkOperations (operation # rest) size1 =
     (case addOperationSize operation size1 of
        Inl status \<Rightarrow> Inl status
      | Inr size2 \<Rightarrow> checkOperations rest size2)"

definition encodeOperation :: "bytes \<Rightarrow> Operation \<Rightarrow> bytes" where
  "encodeOperation encoded operation =
     (let encoded1 = encoded @
            [case op_type operation of kPut \<Rightarrow> kPutRecord | kDelete \<Rightarrow> kDeleteRecord];
          encoded2 = putFixed32 encoded1 (of_nat (length (op_key operation)))
                       @ op_key operation
      in if op_type operation = kPut
         then putFixed32 encoded2 (of_nat (length (op_value operation)))
                @ op_value operation
         else encoded2)"

definition WriteBatchCodec_encode :: "WriteBatch \<Rightarrow> SequenceNumber \<Rightarrow> bytes result" where
  "WriteBatchCodec_encode batch first_sequence =
     (let operation_count = length batch in
      if operation_count = 0
      then Inl (invalidArgument ''cannot encode an empty write batch'')
      else if \<not> hasValidSequenceRange first_sequence operation_count
      then Inl (invalidArgument ''invalid write batch sequence range'')
      else case checkOperations batch kBatchHeaderSize of
        Inl status \<Rightarrow> Inl status
      | Inr _ \<Rightarrow>
          Inr (foldl encodeOperation
                 (putFixed32 (putFixed64 [] first_sequence) (of_nat operation_count))
                 batch))"

text \<open>The decoding loop, with the operations left to read as its bound.\<close>

fun decodeOperations :: "nat \<Rightarrow> bytes \<Rightarrow> WriteBatch \<Rightarrow> (WriteBatch \<times> bytes) result" where
  "decodeOperations 0 cursor decoded_batch = Inr (decoded_batch, cursor)"
| "decodeOperations (Suc n) cursor decoded_batch =
     (case takeByte cursor of
        None \<Rightarrow> Inl (corruption ''missing write batch operation type'')
      | Some (operation_type, cursor) \<Rightarrow>
          if operation_type \<noteq> kPutRecord \<and> operation_type \<noteq> kDeleteRecord
          then Inl (corruption ''unknown write batch operation type'')
          else case getFixed32 cursor of
            None \<Rightarrow> Inl (corruption ''truncated write batch key length'')
          | Some (key_length, cursor) \<Rightarrow>
             (case takeBytes cursor key_length of
                None \<Rightarrow> Inl (corruption ''truncated write batch key'')
              | Some (key, cursor) \<Rightarrow>
                  if operation_type = kPutRecord
                  then (case getFixed32 cursor of
                          None \<Rightarrow> Inl (corruption ''truncated write batch value length'')
                        | Some (value_length, cursor) \<Rightarrow>
                           (case takeBytes cursor value_length of
                              None \<Rightarrow> Inl (corruption ''truncated write batch value'')
                            | Some (value, cursor) \<Rightarrow>
                                decodeOperations n cursor
                                  (WriteBatch_put decoded_batch key value)))
                  else decodeOperations n cursor (WriteBatch_erase decoded_batch key)))"

definition WriteBatchCodec_decode :: "bytes \<Rightarrow> (SequenceNumber \<times> WriteBatch) result" where
  "WriteBatchCodec_decode input =
     (if length input < kBatchHeaderSize
      then Inl (corruption ''write batch payload is shorter than its header'')
      else if length input > kMaxWriteBatchPayloadSize
      then Inl (corruption ''write batch payload exceeds 64 MiB'')
      else case getFixed64 input of
        None \<Rightarrow> Inl (corruption ''invalid write batch header'')
      | Some (decoded_sequence, cursor) \<Rightarrow>
         (case getFixed32 cursor of
            None \<Rightarrow> Inl (corruption ''invalid write batch header'')
          | Some (operation_count, cursor) \<Rightarrow>
              if \<not> hasValidSequenceRange decoded_sequence (unat operation_count)
              then Inl (corruption ''invalid write batch sequence range'')
              else if unat operation_count > length cursor div kOperationHeaderSize
              then Inl (corruption ''write batch operation count exceeds payload'')
              else case decodeOperations (unat operation_count) cursor [] of
                Inl status \<Rightarrow> Inl status
              | Inr (decoded_batch, cursor) \<Rightarrow>
                  if cursor \<noteq> []
                  then Inl (corruption ''write batch payload has trailing bytes'')
                  else Inr (decoded_sequence, decoded_batch)))"

text \<open>Batches as the public interface builds them: an erase carries no value.\<close>

definition wf_op :: "Operation \<Rightarrow> bool" where
  "wf_op op \<longleftrightarrow> (op_type op = kDelete \<longrightarrow> op_value op = [])"

text \<open>The bytes one operation contributes to a payload.\<close>

definition op_bytes :: "Operation \<Rightarrow> bytes" where
  "op_bytes op = encodeOperation [] op"

definition op_size :: "Operation \<Rightarrow> nat" where
  "op_size op = (5 + length (op_key op)) +
     (if op_type op = kPut then 4 + length (op_value op) else 0)"

text \<open>The payload of a batch, and when the encoder produces it.\<close>

definition batch_payload :: "WriteBatch \<Rightarrow> SequenceNumber \<Rightarrow> bytes" where
  "batch_payload b s =
     putFixed64 [] s @ encodeFixed32 (of_nat (length b)) @ concat (map op_bytes b)"

definition batch_fits :: "WriteBatch \<Rightarrow> SequenceNumber \<Rightarrow> bool" where
  "batch_fits b s \<longleftrightarrow> b \<noteq> [] \<and> hasValidSequenceRange s (length b) \<and>
     kBatchHeaderSize + sum_list (map op_size b) \<le> kMaxWriteBatchPayloadSize"

subsection \<open>Sizes\<close>

lemmas batch_consts = kMaxWriteBatchPayloadSize_def kMaxWalRecordPayloadSize_def
  kBatchHeaderSize_def kOperationHeaderSize_def uint32_max_def

lemma encodeOperation_append: "encodeOperation enc op = enc @ op_bytes op"
  by (simp add: encodeOperation_def op_bytes_def putFixed32_def Let_def)

lemma foldl_encodeOperation: "foldl encodeOperation h b = h @ concat (map op_bytes b)"
  by (induction b arbitrary: h) (simp_all add: encodeOperation_append)

lemma length_op_bytes [simp, size_simps]: "length (op_bytes op) = op_size op"
  by (simp add: op_bytes_def op_size_def encodeOperation_def Let_def)

lemma length_concat_op_bytes [size_simps]:
  "length (concat (map op_bytes b)) = sum_list (map op_size b)"
  by (induction b) simp_all

lemma op_size_ge: "5 \<le> op_size op"
  by (simp add: op_size_def)

lemma sum_op_size_ge: "5 * length b \<le> sum_list (map op_size b)"
  using op_size_ge by (induction b) (simp_all add: add_mono)

lemma addOperationSize_Inr:
  assumes "n \<le> kMaxWriteBatchPayloadSize"
  shows "addOperationSize op n = Inr m \<longleftrightarrow> m = n + op_size op \<and> m \<le> kMaxWriteBatchPayloadSize"
proof -
  have k: "kMaxWriteBatchPayloadSize \<le> uint32_max" by (simp add: batch_consts)
  show ?thesis
    using assms k
    by (cases "op_type op")
      (auto simp: addOperationSize_def addEncodedSize_def op_size_def kOperationHeaderSize_def
        bind_eq_Some_conv split: option.splits if_splits)
qed

lemma addOperationSize_cases:
  assumes "n \<le> kMaxWriteBatchPayloadSize"
  shows "addOperationSize op n = Inr (n + op_size op) \<and> n + op_size op \<le> kMaxWriteBatchPayloadSize
    \<or> n + op_size op > kMaxWriteBatchPayloadSize \<and>
      (\<exists>m. addOperationSize op n = Inl (invalidArgument m))"
proof (cases "addOperationSize op n")
  case (Inl st)
  then have "\<exists>m. st = invalidArgument m"
    by (auto simp: addOperationSize_def split: option.splits if_splits OperationType.splits)
  then show ?thesis
    using Inl addOperationSize_Inr [OF assms, of op "n + op_size op"] by auto
next
  case (Inr m)
  then show ?thesis using addOperationSize_Inr [OF assms] by auto
qed

lemma checkOperations_cases:
  "n \<le> kMaxWriteBatchPayloadSize \<Longrightarrow>
   (let m = n + sum_list (map op_size b) in
      m \<le> kMaxWriteBatchPayloadSize \<and> checkOperations b n = Inr m
    \<or> m > kMaxWriteBatchPayloadSize \<and> (\<exists>e. checkOperations b n = Inl (invalidArgument e)))"
proof (induction b arbitrary: n)
  case Nil
  then show ?case by simp
next
  case (Cons op b)
  from addOperationSize_cases [OF Cons.prems, of op] show ?case
  proof (elim disjE)
    assume a: "addOperationSize op n = Inr (n + op_size op) \<and>
      n + op_size op \<le> kMaxWriteBatchPayloadSize"
    then show ?thesis using Cons.IH [of "n + op_size op"] by (simp add: Let_def add.assoc)
  next
    assume "n + op_size op > kMaxWriteBatchPayloadSize \<and>
      (\<exists>m. addOperationSize op n = Inl (invalidArgument m))"
    then show ?thesis by (auto simp: Let_def)
  qed
qed

subsection \<open>The decoder inverts the encoder\<close>

lemma takeByte_Cons [simp]: "takeByte (b # r) = Some (b, r)"
  by (simp add: takeByte_def)

lemma takeBytes_append [simp, codec_simps]:
  "length xs \<le> uint32_max \<Longrightarrow> takeBytes (xs @ r) (of_nat (length xs)) = Some (xs, r)"
  by (simp add: takeBytes_def uint32_max_def unat_of_nat take_bit_eq_mod)

lemma takeBytes_Some:
  "takeBytes i n = Some (xs, r) \<Longrightarrow> i = xs @ r \<and> n = of_nat (length xs)"
  by (auto simp: takeBytes_def split: if_splits)

lemma op_bytes_put:
  "op_type op = kPut \<Longrightarrow> op_bytes op = kPutRecord # encodeFixed32 (of_nat (length (op_key op)))
     @ op_key op @ encodeFixed32 (of_nat (length (op_value op))) @ op_value op"
  by (simp add: op_bytes_def encodeOperation_def putFixed32_def)

lemma op_bytes_delete:
  "op_type op = kDelete \<Longrightarrow>
     op_bytes op = kDeleteRecord # encodeFixed32 (of_nat (length (op_key op))) @ op_key op"
  by (simp add: op_bytes_def encodeOperation_def putFixed32_def)

lemma record_types: "kPutRecord \<noteq> kDeleteRecord" "kDeleteRecord \<noteq> kPutRecord"
  by (simp_all add: kPutRecord_def kDeleteRecord_def)

lemma decodeOperations_op:
  assumes "wf_op op" "op_size op \<le> uint32_max"
  shows "decodeOperations (Suc n) (op_bytes op @ r) acc = decodeOperations n r (acc @ [op])"
proof (cases "op_type op")
  case kPut
  then obtain k v where op: "op = \<lparr>op_type = kPut, op_key = k, op_value = v\<rparr>"
    by (cases op) simp
  then have "length k \<le> uint32_max" "length v \<le> uint32_max"
    using assms(2) by (simp_all add: op_size_def)
  then show ?thesis
    using kPut by (simp add: op op_bytes_put record_types WriteBatch_put_def)
next
  case kDelete
  then obtain k where op: "op = \<lparr>op_type = kDelete, op_key = k, op_value = []\<rparr>"
    using assms(1) by (cases op) (simp add: wf_op_def)
  then have "length k \<le> uint32_max"
    using assms(2) by (simp add: op_size_def)
  then show ?thesis
    using kDelete by (simp add: op op_bytes_delete record_types WriteBatch_erase_def)
qed

lemma decodeOperations_concat:
  assumes "\<forall>op \<in> set b. wf_op op" "sum_list (map op_size b) \<le> uint32_max"
  shows "decodeOperations (length b) (concat (map op_bytes b) @ r) acc = Inr (acc @ b, r)"
  using assms
proof (induction b arbitrary: acc)
  case Nil
  then show ?case by simp
next
  case (Cons op b)
  then show ?case by (simp add: decodeOperations_op del: decodeOperations.simps(2))
qed

lemma decodeOperations_Inr:
  "decodeOperations n c acc = Inr (b', r) \<Longrightarrow>
     \<exists>b. b' = acc @ b \<and> length b = n \<and> (\<forall>op \<in> set b. wf_op op) \<and>
         c = concat (map op_bytes b) @ r"
proof (induction n arbitrary: c acc)
  case 0
  then show ?case by simp
next
  case (Suc n)
  obtain ty c1 kl c2 key c3 where d: "takeByte c = Some (ty, c1)"
    "ty = kPutRecord \<or> ty = kDeleteRecord" "getFixed32 c1 = Some (kl, c2)"
    "takeBytes c2 kl = Some (key, c3)"
    using Suc.prems by (auto split: option.splits if_splits)
  have c: "c = ty # encodeFixed32 (of_nat (length key)) @ key @ c3"
    using d takeBytes_Some [OF d(4)]
    by (auto simp: takeByte_def getFixed32_Some split: list.splits)
  show ?case
  proof (cases "ty = kPutRecord")
    case True
    then obtain vl c4 val c5 where e: "getFixed32 c3 = Some (vl, c4)"
      "takeBytes c4 vl = Some (val, c5)"
      "decodeOperations n c5 (WriteBatch_put acc key val) = Inr (b', r)"
      using Suc.prems d by (auto split: option.splits if_splits)
    let ?op = "\<lparr>op_type = kPut, op_key = key, op_value = val\<rparr>"
    from Suc.IH [OF e(3)] obtain b where "b' = (acc @ [?op]) @ b" "length b = n"
      "\<forall>op \<in> set b. wf_op op" "c5 = concat (map op_bytes b) @ r"
      by (auto simp: WriteBatch_put_def)
    moreover have "c = op_bytes ?op @ c5"
      using c True e(1) takeBytes_Some [OF e(2)] by (simp add: op_bytes_put getFixed32_Some)
    ultimately show ?thesis by (intro exI [of _ "?op # b"]) (simp add: wf_op_def)
  next
    case False
    then have e: "decodeOperations n c3 (WriteBatch_erase acc key) = Inr (b', r)"
      using Suc.prems d by (auto split: option.splits if_splits)
    let ?op = "\<lparr>op_type = kDelete, op_key = key, op_value = []\<rparr>"
    from Suc.IH [OF e] obtain b where "b' = (acc @ [?op]) @ b" "length b = n"
      "\<forall>op \<in> set b. wf_op op" "c3 = concat (map op_bytes b) @ r"
      by (auto simp: WriteBatch_erase_def)
    moreover have "c = op_bytes ?op @ c3"
      using c False d(2) by (simp add: op_bytes_delete)
    ultimately show ?thesis by (intro exI [of _ "?op # b"]) (simp add: wf_op_def)
  qed
qed

lemma length_batch_payload [simp, size_simps]:
  "length (batch_payload b s) = kBatchHeaderSize + sum_list (map op_size b)"
  by (simp add: batch_payload_def length_concat_op_bytes kBatchHeaderSize_def)

lemma encode_batch_cases:
  "batch_fits b s \<and> WriteBatchCodec_encode b s = Inr (batch_payload b s) \<or>
   \<not> batch_fits b s \<and> (\<exists>m. WriteBatchCodec_encode b s = Inl (invalidArgument m))"
proof -
  have "kBatchHeaderSize \<le> kMaxWriteBatchPayloadSize" by (simp add: batch_consts)
  from checkOperations_cases [OF this, of b] show ?thesis
    by (auto simp: WriteBatchCodec_encode_def batch_fits_def batch_payload_def Let_def
        foldl_encodeOperation putFixed32_def)
qed

lemma encode_batch_Inr:
  "WriteBatchCodec_encode b s = Inr p \<longleftrightarrow> batch_fits b s \<and> p = batch_payload b s"
  using encode_batch_cases [of b s] by auto

lemma count_word: "n \<le> uint32_max \<Longrightarrow> unat (of_nat n :: u32) = n"
  by (simp add: unat_of_nat uint32_max_def take_bit_eq_mod)

lemma hasValidSequenceRange_count: "hasValidSequenceRange s n \<Longrightarrow> n \<le> uint32_max"
  by (simp add: hasValidSequenceRange_def split: if_splits)

lemma decode_batch_payload:
  assumes "batch_fits b s" "\<forall>op \<in> set b. wf_op op"
  shows "WriteBatchCodec_decode (batch_payload b s) = Inr (s, b)"
proof -
  let ?ops = "concat (map op_bytes b)"
  have f: "b \<noteq> []" "hasValidSequenceRange s (length b)"
    "12 + sum_list (map op_size b) \<le> kMaxWriteBatchPayloadSize"
    using assms(1) by (simp_all add: batch_fits_def kBatchHeaderSize_def)
  have n: "unat (of_nat (length b) :: u32) = length b"
    using f(2) count_word hasValidSequenceRange_count by blast
  have le: "length b \<le> length ?ops div kOperationHeaderSize"
    using sum_op_size_ge [of b] by (simp add: length_concat_op_bytes kOperationHeaderSize_def)
  have "sum_list (map op_size b) \<le> uint32_max" using f(3) by (simp add: batch_consts)
  then have d: "decodeOperations (length b) ?ops [] = Inr (b, [])"
    using decodeOperations_concat [OF assms(2), of "[]" "[]"] by simp
  have l: "12 \<le> length (batch_payload b s)"
    "length (batch_payload b s) \<le> kMaxWriteBatchPayloadSize"
    using f(3) by (simp_all add: kBatchHeaderSize_def)
  have h: "getFixed64 (batch_payload b s) = Some (s, encodeFixed32 (of_nat (length b)) @ ?ops)"
    by (simp add: batch_payload_def)
  show ?thesis
    using l f(2) le by (simp add: WriteBatchCodec_decode_def h n d kBatchHeaderSize_def)
qed

lemma decode_batch_Inr:
  assumes "WriteBatchCodec_decode i = Inr (s, b)"
  shows "batch_fits b s" and "\<forall>op \<in> set b. wf_op op" and "i = batch_payload b s"
proof -
  obtain c1 n c2 where d: "length i \<le> kMaxWriteBatchPayloadSize" "getFixed64 i = Some (s, c1)"
    "getFixed32 c1 = Some (n, c2)" "hasValidSequenceRange s (unat n)"
    "decodeOperations (unat n) c2 [] = Inr (b, [])"
    using assms
    by (auto simp: WriteBatchCodec_decode_def split: if_splits option.splits sum.splits)
  from decodeOperations_Inr [OF d(5)] have b: "length b = unat n" "\<forall>op \<in> set b. wf_op op"
    "c2 = concat (map op_bytes b)"
    by auto
  then have "n = of_nat (length b)" by simp
  with d(2,3) b(3) show i: "i = batch_payload b s"
    by (simp add: batch_payload_def getFixed64_Some getFixed32_Some)
  show "\<forall>op \<in> set b. wf_op op" by (fact b(2))
  have "unat n \<noteq> 0" using d(4) by (simp add: hasValidSequenceRange_def split: if_splits)
  then show "batch_fits b s"
    using d(1,4) b(1) by (auto simp: batch_fits_def i)
qed

subsection \<open>Properties\<close>

text \<open>
  C29. Log payloads round-trip in both directions: a payload decodes to sequence \<open>s\<close> and
  batch \<open>b\<close> exactly when \<open>b\<close> is a batch of the public interface that the encoder
  accepts with first sequence \<open>s\<close> and the payload is its encoding.
\<close>

theorem write_batch_codec_roundtrip:
  "WriteBatchCodec_decode p = Inr (s, b) \<longleftrightarrow>
     (\<forall>op \<in> set b. wf_op op) \<and> WriteBatchCodec_encode b s = Inr p"
proof
  assume "WriteBatchCodec_decode p = Inr (s, b)"
  from decode_batch_Inr [OF this]
  show "(\<forall>op \<in> set b. wf_op op) \<and> WriteBatchCodec_encode b s = Inr p"
    by (simp add: encode_batch_Inr)
next
  assume "(\<forall>op \<in> set b. wf_op op) \<and> WriteBatchCodec_encode b s = Inr p"
  then show "WriteBatchCodec_decode p = Inr (s, b)"
    by (simp add: encode_batch_Inr decode_batch_payload)
qed

theorem write_batch_codec_roundtrip_witness:
  "\<exists>p. WriteBatchCodec_encode (WriteBatch_erase (WriteBatch_put [] [0x61] [0x62]) [0x63]) 5 = Inr p
     \<and> WriteBatchCodec_decode p =
        Inr (5, WriteBatch_erase (WriteBatch_put [] [0x61] [0x62]) [0x63])"
proof -
  let ?b = "WriteBatch_erase (WriteBatch_put [] [0x61] [0x62]) [0x63]"
  have "\<forall>op \<in> set ?b. wf_op op"
    by (simp add: WriteBatch_erase_def WriteBatch_put_def wf_op_def)
  moreover have "batch_fits ?b 5"
    by (simp add: batch_fits_def WriteBatch_erase_def WriteBatch_put_def op_size_def batch_consts
        hasValidSequenceRange_def kMaxSequenceNumber_def)
  then have "WriteBatchCodec_encode ?b 5 = Inr (batch_payload ?b 5)"
    by (simp add: encode_batch_Inr)
  ultimately show ?thesis
    using write_batch_codec_roundtrip [of "batch_payload ?b 5" 5 ?b] by blast
qed

text \<open>
  The encoder accepts a batch exactly when it is not empty, its operations get legal
  consecutive sequence numbers and the payload fits into 64 MiB; then the payload has
  the computed size.  Otherwise it returns an invalid-argument status.
\<close>

lemma write_batch_encode_total:
  "case WriteBatchCodec_encode b s of
     Inr p \<Rightarrow> b \<noteq> [] \<and> s \<noteq> 0 \<and> unat s + length b - 1 \<le> unat kMaxSequenceNumber \<and>
        length p = kBatchHeaderSize + sum_list (map op_size b) \<and>
        length p \<le> kMaxWriteBatchPayloadSize
   | Inl st \<Rightarrow> st_code st = kInvalidArgument"
proof (cases "WriteBatchCodec_encode b s")
  case (Inl st)
  then show ?thesis using encode_batch_cases [of b s] by auto
next
  case (Inr p)
  then have f: "batch_fits b s" and p: "p = batch_payload b s" by (simp_all add: encode_batch_Inr)
  then have h: "hasValidSequenceRange s (length b)" "b \<noteq> []" by (simp_all add: batch_fits_def)
  then have "of_nat (length b - 1) \<le> kMaxSequenceNumber - s" "s \<le> kMaxSequenceNumber" "s \<noteq> 0"
    and l: "length b \<le> uint32_max"
    by (auto simp: hasValidSequenceRange_def Let_def split: if_splits)
  moreover have "unat (of_nat (length b - 1) :: u64) = length b - 1"
    using l by (simp add: unat_of_nat uint32_max_def take_bit_eq_mod)
  ultimately have "length b - 1 \<le> unat kMaxSequenceNumber - unat s"
    "unat s \<le> unat kMaxSequenceNumber"
    by (simp_all add: word_le_nat_alt unat_sub)
  then show ?thesis
    using Inr f p h \<open>s \<noteq> 0\<close> by (simp add: batch_fits_def)
qed

end
