(* ===== verification/Posix.thy ===== *)
theory Posix
  imports Status
begin

text \<open>
  The environment of the engine: files as byte strings, and system calls whose outcomes
  are arguments of the model.  A list of answers says how the kernel perturbs the next
  calls (a short count, an interrupted call, an error); when the list is used up, every
  further call succeeds in full.  Every run of a retry loop that returns meets finitely
  many perturbations, so these lists describe all runs that return.

  \<open>write_loop\<close>, \<open>read_loop\<close> and \<open>sync_loop\<close> are the retry loops that the log, the table
  writer and the manifest share; \<open>to_string\<close> is \<^verbatim>\<open>std::to_string\<close> of an unsigned number.
\<close>

type_synonym fs = "string \<rightharpoonup> bytes"

datatype io_answer = Count nat | Fail errno

definition sys_write :: "io_answer list \<Rightarrow> bytes \<Rightarrow> (errno + nat) \<times> io_answer list" where
  "sys_write answers data =
     (case answers of
        [] \<Rightarrow> (Inr (length data), [])
      | Count n # rest \<Rightarrow> (Inr (min n (length data)), rest)
      | Fail e # rest \<Rightarrow> (Inl e, rest))"

text \<open>
  \<^verbatim>\<open>read\<close> on a regular file transfers at least one byte unless it is at the end of the
  file.
\<close>

definition sys_read :: "io_answer list \<Rightarrow> nat \<Rightarrow> bytes \<Rightarrow> (errno + nat) \<times> io_answer list" where
  "sys_read answers size1 rest_of_file =
     (let available = min size1 (length rest_of_file) in
      case answers of
        [] \<Rightarrow> (Inr available, [])
      | Count n # rest \<Rightarrow> (Inr (min available (max 1 n)), rest)
      | Fail e # rest \<Rightarrow> (Inl e, rest))"

function write_loop :: "io_answer list \<Rightarrow> bytes \<Rightarrow> bytes \<Rightarrow> errno option \<times> bytes \<times> io_answer list"
where
  "write_loop answers data file =
     (if data = [] then (None, file, answers)
      else case sys_write answers data of
        (Inr written, answers') \<Rightarrow>
          if written > 0
          then write_loop answers' (drop written data) (file @ take written data)
          else (Some EIO, file, answers')
      | (Inl error_number, answers') \<Rightarrow>
          if error_number = EINTR then write_loop answers' data file
          else (Some error_number, file, answers'))"
  by pat_completeness auto
termination
  by (relation "measure (\<lambda>(answers, data, file). length answers + length data)")
    (auto simp: sys_write_def split: list.splits io_answer.splits)

text \<open>
  The read loop: the bytes read so far, until \<open>size1\<close> bytes are there or the end of
  the file is reached.
\<close>

function read_loop ::
  "io_answer list \<Rightarrow> nat \<Rightarrow> bytes \<Rightarrow> bytes \<Rightarrow> (errno + bytes) \<times> bytes \<times> io_answer list"
where
  "read_loop answers size1 rest_of_file done =
     (if length done < size1
      then case sys_read answers (size1 - length done) rest_of_file of
        (Inr count, answers') \<Rightarrow>
          if count > 0
          then read_loop answers' size1 (drop count rest_of_file)
                 (done @ take count rest_of_file)
          else (Inr done, rest_of_file, answers')
      | (Inl error_number, answers') \<Rightarrow>
          if error_number = EINTR then read_loop answers' size1 rest_of_file done
          else (Inl error_number, rest_of_file, answers')
      else (Inr done, rest_of_file, answers))"
  by pat_completeness auto
termination
  by (relation "measure (\<lambda>(answers, size1, rest_of_file, done).
        length answers + length rest_of_file)")
    (auto simp: sys_read_def Let_def split: list.splits io_answer.splits)

fun sync_loop :: "errno list \<Rightarrow> errno option \<times> errno list" where
  "sync_loop [] = (None, [])"
| "sync_loop (e # rest) = (if e = EINTR then sync_loop rest else (Some e, rest))"

fun to_string :: "nat \<Rightarrow> string" where
  "to_string n = (if n < 10 then [char_of (48 + n)]
     else to_string (n div 10) @ [char_of (48 + n mod 10)])"

declare write_loop.simps [simp del] read_loop.simps [simp del] to_string.simps [simp del]

text \<open>Answers that only delay a call.\<close>

definition benign :: "io_answer list \<Rightarrow> bool" where
  "benign answers \<longleftrightarrow> (\<forall>a \<in> set answers. a = Fail EINTR \<or> (\<exists>n>0. a = Count n))"

lemma benign_simps [simp]:
  "benign []" "benign (a # as) \<longleftrightarrow> (a = Fail EINTR \<or> (\<exists>n>0. a = Count n)) \<and> benign as"
  by (auto simp: benign_def)

lemma sys_write_benign:
  assumes "benign as" "data \<noteq> []" "sys_write as data = (r, as')"
  shows "benign as'" and "r = Inl EINTR \<or> (\<exists>n. r = Inr n \<and> 0 < n \<and> n \<le> length data)"
  using assms by (auto simp: sys_write_def split: list.splits)

lemma sys_read_benign:
  assumes "benign as" "sys_read as n rest = (r, as')"
  shows "benign as'"
    and "r = Inl EINTR \<or> (\<exists>c. r = Inr c \<and> c \<le> n \<and> c \<le> length rest \<and>
           (0 < c \<or> n = 0 \<or> rest = []))"
proof -
  show "benign as'" using assms by (auto simp: sys_read_def Let_def split: list.splits)
  have "r = Inl EINTR \<or> (\<exists>m>0. r = Inr (min (min n (length rest)) m))
      \<or> r = Inr (min n (length rest))"
    using assms by (auto simp: sys_read_def Let_def split: list.splits)
  then show "r = Inl EINTR \<or> (\<exists>c. r = Inr c \<and> c \<le> n \<and> c \<le> length rest \<and>
           (0 < c \<or> n = 0 \<or> rest = []))"
  proof (elim disjE exE conjE)
    fix m :: nat assume "0 < m" "r = Inr (min (min n (length rest)) m)"
    then show ?thesis by (intro disjI2 exI [of _ "min (min n (length rest)) m"]) auto
  qed auto
qed

subsection \<open>What the loops do\<close>

text \<open>
  A write loop appends everything, or a proper prefix of the data together with an error.
\<close>

lemma write_loop_cases:
  assumes "write_loop as data f = (e, g, as')"
  shows "e = None \<and> g = f @ data \<or>
    (\<exists>x n. e = Some x \<and> x \<noteq> EINTR \<and> n < length data \<and> g = f @ take n data)"
  using assms
proof (induction as data f rule: write_loop.induct)
  case (1 as data f)
  show ?case
  proof (cases "data = []")
    case True
    then show ?thesis using "1.prems" by (simp add: write_loop.simps)
  next
    case False
    obtain r as1 where w: "sys_write as data = (r, as1)" by fastforce
    show ?thesis
    proof (cases r)
      case (Inl x)
      show ?thesis
      proof (cases "x = EINTR")
        case True
        then show ?thesis
          using "1.IH"(1) [OF False w [symmetric] Inl True] "1.prems" False w Inl
          by (simp add: write_loop.simps [of as])
      next
        case nz: False
        then have "e = Some x \<and> g = f @ take 0 data"
          using "1.prems" False w Inl by (simp add: write_loop.simps [of as])
        then show ?thesis using nz False by blast
      qed
    next
      case (Inr n)
      have n: "n \<le> length data"
        using w Inr by (auto simp: sys_write_def split: list.splits io_answer.splits)
      show ?thesis
      proof (cases "0 < n")
        case True
        then have *: "write_loop as1 (drop n data) (f @ take n data) = (e, g, as')"
          using "1.prems" False w Inr by (simp add: write_loop.simps [of as])
        have app: "take n data @ take k (drop n data) = take (n + k) data" for k
          by (simp add: take_add)
        from "1.IH"(2) [OF False w [symmetric] Inr True *] show ?thesis
        proof (elim disjE exE conjE)
          fix x k
          assume "e = Some x" "x \<noteq> EINTR" "k < length (drop n data)"
            "g = (f @ take n data) @ take k (drop n data)"
          then have "n + k < length data" "g = f @ take (n + k) data" by (simp_all add: app)
          then show ?thesis using \<open>e = Some x\<close> \<open>x \<noteq> EINTR\<close> by blast
        qed simp
      next
        case nz: False
        then have "e = Some EIO \<and> g = f @ take 0 data"
          using "1.prems" False w Inr by (simp add: write_loop.simps [of as])
        then show ?thesis using False by blast
      qed
    qed
  qed
qed

lemma write_loop_benign:
  "benign as \<Longrightarrow> \<exists>as'. write_loop as data f = (None, f @ data, as') \<and> benign as'"
proof (induction as data f rule: write_loop.induct)
  case (1 as data f)
  show ?case
  proof (cases "data = []")
    case True
    then show ?thesis using "1.prems" by (simp add: write_loop.simps)
  next
    case False
    obtain r as1 where w: "sys_write as data = (r, as1)" by fastforce
    note b = sys_write_benign [OF "1.prems" False w]
    from b(2) show ?thesis
    proof (elim disjE exE conjE)
      assume r: "r = Inl EINTR"
      show ?thesis
        using "1.IH"(1) [OF False w [symmetric] r refl b(1)] False w r
        by (simp add: write_loop.simps [of as])
    next
      fix n assume n: "r = Inr n" "0 < n"
      show ?thesis
        using "1.IH"(2) [OF False w [symmetric] n b(1)] False w n
        by (simp add: write_loop.simps [of as])
    qed
  qed
qed

lemma read_loop_cases:
  assumes "read_loop as n rest don = (r, rest', as')" "length don \<le> n"
  shows "(\<exists>x. r = Inl x \<and> x \<noteq> EINTR) \<or>
    r = Inr (don @ take (n - length don) rest) \<and> rest' = drop (n - length don) rest"
  using assms
proof (induction as n rest don rule: read_loop.induct)
  case (1 as n rest don)
  show ?case
  proof (cases "length don < n")
    case False
    then show ?thesis using "1.prems" by (simp add: read_loop.simps)
  next
    case True
    obtain q as1 where w: "sys_read as (n - length don) rest = (q, as1)" by fastforce
    show ?thesis
    proof (cases q)
      case (Inl x)
      then show ?thesis
        using "1.IH"(1) [OF True w [symmetric] Inl] "1.prems" True w
        by (cases "x = EINTR") (auto simp: read_loop.simps [of as])
    next
      case (Inr c)
      have c: "c \<le> n - length don" "c \<le> length rest" "c = 0 \<Longrightarrow> rest = []"
        using w Inr True
        by (auto simp: sys_read_def Let_def min_def max_def
            split: list.splits io_answer.splits if_splits)
      show ?thesis
      proof (cases "0 < c")
        case pos: True
        then have "read_loop as1 n (drop c rest) (don @ take c rest) = (r, rest', as')"
          using "1.prems" True w Inr by (simp add: read_loop.simps [of as])
        moreover have e: "c + (n - (length don + c)) = n - length don" using c(1) True by arith
        moreover have "take c rest @ take (n - (length don + c)) (drop c rest)
            = take (n - length don) rest"
          using take_add [of c "n - (length don + c)" rest] by (simp only: e)
        moreover have "drop (n - (length don + c)) (drop c rest) = drop (n - length don) rest"
          by (metis e add.commute drop_drop)
        moreover have "length don + c \<le> n" using c(1) True by arith
        ultimately show ?thesis
          using "1.IH"(2) [OF True w [symmetric] Inr pos] c by (simp add: min_absorb2)
      next
        case False
        then show ?thesis
          using "1.prems" True w Inr c(3) by (simp add: read_loop.simps [of as])
      qed
    qed
  qed
qed

lemma read_loop_benign:
  assumes "benign as" "length don \<le> n"
  shows "\<exists>as'. read_loop as n rest don =
      (Inr (don @ take (n - length don) rest), drop (n - length don) rest, as') \<and> benign as'"
proof -
  have "benign as \<Longrightarrow> read_loop as n rest don = (r, rest', as') \<Longrightarrow>
      benign as' \<and> (\<exists>d. r = Inr d)" for r rest' as'
  proof (induction as n rest don rule: read_loop.induct)
    case (1 as n rest don)
    show ?case
    proof (cases "length don < n")
      case False
      then show ?thesis using "1.prems" by (auto simp: read_loop.simps)
    next
      case True
      obtain q as1 where w: "sys_read as (n - length don) rest = (q, as1)" by fastforce
      note b = sys_read_benign [OF "1.prems"(1) w]
      show ?thesis
      proof (cases q)
        case (Inl x)
        with b(2) have "x = EINTR" by simp
        then show ?thesis
          using "1.IH"(1) [OF True w [symmetric] Inl _ b(1)] "1.prems" True w Inl
          by (simp add: read_loop.simps [of as])
      next
        case (Inr c)
        then show ?thesis
          using "1.IH"(2) [OF True w [symmetric] Inr _ b(1)] "1.prems" True w b(1)
          by (cases "0 < c") (auto simp: read_loop.simps [of as])
      qed
    qed
  qed
  moreover obtain r rest' as' where l: "read_loop as n rest don = (r, rest', as')"
    by (metis prod_cases3)
  ultimately have "benign as'" "\<exists>d. r = Inr d" using assms(1) by blast+
  then show ?thesis using read_loop_cases [OF l assms(2)] l by auto
qed

subsection \<open>One environment for all calls\<close>

text \<open>
  The files, and the answers to the transfers, to \<^verbatim>\<open>fdatasync\<close> and \<^verbatim>\<open>fsync\<close>, and to the calls that only
  succeed or fail (\<^verbatim>\<open>open\<close>, \<^verbatim>\<open>close\<close>, \<^verbatim>\<open>stat\<close>, \<^verbatim>\<open>rename\<close>, \<^verbatim>\<open>unlink\<close> and the like), threaded through the
  operations that make calls of several kinds.  A descriptor open for writing is the path it was
  opened with, one open for reading the content behind it.
\<close>

record Env =
  env_files :: fs
  env_io :: "io_answer list"
  env_sync :: "errno list"
  env_call :: "errno option list"

definition put_file :: "string \<Rightarrow> bytes \<Rightarrow> Env \<Rightarrow> Env" where
  "put_file path content env = env\<lparr>env_files := (env_files env)(path \<mapsto> content)\<rparr>"

definition sys_call :: "Env \<Rightarrow> errno option \<times> Env" where
  "sys_call env = (case env_call env of
       [] \<Rightarrow> (None, env)
     | answer # rest \<Rightarrow> (answer, env\<lparr>env_call := rest\<rparr>))"

text \<open>\<^verbatim>\<open>open\<close> with \<^verbatim>\<open>O_CREAT | O_EXCL\<close>, with \<^verbatim>\<open>O_CREAT | O_TRUNC\<close> and with \<^verbatim>\<open>O_RDONLY\<close>.\<close>

definition sys_create_exclusive :: "string \<Rightarrow> Env \<Rightarrow> errno option \<times> Env" where
  "sys_create_exclusive path env = (case sys_call env of
       (Some e, env) \<Rightarrow> (Some e, env)
     | (None, env) \<Rightarrow> if env_files env path = None then (None, put_file path [] env)
                      else (Some EEXIST, env))"

definition sys_create :: "string \<Rightarrow> Env \<Rightarrow> errno option \<times> Env" where
  "sys_create path env = (case sys_call env of
       (Some e, env) \<Rightarrow> (Some e, env)
     | (None, env) \<Rightarrow> (None, put_file path [] env))"

definition sys_open :: "string \<Rightarrow> Env \<Rightarrow> (errno + bytes) \<times> Env" where
  "sys_open path env = (case sys_call env of
       (Some e, env) \<Rightarrow> (Inl e, env)
     | (None, env) \<Rightarrow> (case env_files env path of
           None \<Rightarrow> (Inl ENOENT, env) | Some content \<Rightarrow> (Inr content, env)))"

definition sys_unlink :: "string \<Rightarrow> Env \<Rightarrow> errno option \<times> Env" where
  "sys_unlink path env = (case sys_call env of
       (Some e, env) \<Rightarrow> (Some e, env)
     | (None, env) \<Rightarrow> if env_files env path = None then (Some ENOENT, env)
                      else (None, env\<lparr>env_files := (env_files env)(path := None)\<rparr>))"

definition sys_rename :: "string \<Rightarrow> string \<Rightarrow> Env \<Rightarrow> errno option \<times> Env" where
  "sys_rename source target env = (case sys_call env of
       (Some e, env) \<Rightarrow> (Some e, env)
     | (None, env) \<Rightarrow> (case env_files env source of
           None \<Rightarrow> (Some ENOENT, env)
         | Some content \<Rightarrow>
             (None, env\<lparr>env_files := (env_files env)(source := None, target \<mapsto> content)\<rparr>)))"

text \<open>
  \<^verbatim>\<open>open\<close> with \<^verbatim>\<open>O_CREAT\<close> only; \<^verbatim>\<open>std::filesystem::exists\<close>, for which a missing file is no error,
  \<^verbatim>\<open>file_size\<close> and \<^verbatim>\<open>resize_file\<close>, which here only shortens a file.
\<close>

definition sys_open_create :: "string \<Rightarrow> Env \<Rightarrow> errno option \<times> Env" where
  "sys_open_create path env = (case sys_call env of
       (Some e, env) \<Rightarrow> (Some e, env)
     | (None, env) \<Rightarrow>
         (None, put_file path (case env_files env path of None \<Rightarrow> [] | Some c \<Rightarrow> c) env))"

definition sys_exists :: "string \<Rightarrow> Env \<Rightarrow> (errno + bool) \<times> Env" where
  "sys_exists path env = (case sys_call env of
       (Some e, env) \<Rightarrow> (if e = ENOENT then Inr False else Inl e, env)
     | (None, env) \<Rightarrow> (Inr (env_files env path \<noteq> None), env))"

definition sys_file_size :: "string \<Rightarrow> Env \<Rightarrow> (errno + nat) \<times> Env" where
  "sys_file_size path env = (case sys_call env of
       (Some e, env) \<Rightarrow> (Inl e, env)
     | (None, env) \<Rightarrow> (case env_files env path of
           None \<Rightarrow> (Inl ENOENT, env) | Some content \<Rightarrow> (Inr (length content), env)))"

definition sys_truncate :: "string \<Rightarrow> nat \<Rightarrow> Env \<Rightarrow> errno option \<times> Env" where
  "sys_truncate path size1 env = (case sys_call env of
       (Some e, env) \<Rightarrow> (Some e, env)
     | (None, env) \<Rightarrow> (case env_files env path of
           None \<Rightarrow> (Some ENOENT, env)
         | Some content \<Rightarrow> (None, put_file path (take size1 content) env)))"

definition env_write :: "string \<Rightarrow> bytes \<Rightarrow> Env \<Rightarrow> errno option \<times> Env" where
  "env_write path data env =
     (case write_loop (env_io env) data (case env_files env path of None \<Rightarrow> [] | Some c \<Rightarrow> c) of
        (result, content, answers) \<Rightarrow> (result, put_file path content (env\<lparr>env_io := answers\<rparr>)))"

definition env_read :: "nat \<Rightarrow> bytes \<Rightarrow> Env \<Rightarrow> (errno + bytes) \<times> Env" where
  "env_read size1 rest_of_file env = (case read_loop (env_io env) size1 rest_of_file [] of
     (result, _, answers) \<Rightarrow> (result, env\<lparr>env_io := answers\<rparr>))"

definition env_fdatasync :: "Env \<Rightarrow> errno option \<times> Env" where
  "env_fdatasync env = (case sync_loop (env_sync env) of
     (result, answers) \<Rightarrow> (result, env\<lparr>env_sync := answers\<rparr>))"

text \<open>An environment with the given files in which calls are at most delayed.\<close>

definition quiet :: "Env \<Rightarrow> bool" where
  "quiet env \<longleftrightarrow> benign (env_io env) \<and> set (env_sync env) \<subseteq> {EINTR} \<and> set (env_call env) \<subseteq> {None}"

definition quiet_at :: "fs \<Rightarrow> Env \<Rightarrow> bool" where
  "quiet_at files env \<longleftrightarrow> quiet env \<and> env_files env = files"

lemma quiet_at_self: "quiet_at (env_files env) env = quiet env"
  by (simp add: quiet_at_def)

lemma quiet_sys_call: "quiet_at F env \<Longrightarrow> \<exists>env'. sys_call env = (None, env') \<and> quiet_at F env'"
  by (auto simp: sys_call_def quiet_def quiet_at_def split: list.splits)

lemma quiet_put_file: "quiet_at F env \<Longrightarrow> quiet_at (F(path \<mapsto> c)) (put_file path c env)"
  by (simp add: quiet_def quiet_at_def put_file_def)

lemma quiet_sys_create_exclusive:
  assumes "quiet_at F env" "F path = None"
  shows "\<exists>env'. sys_create_exclusive path env = (None, env') \<and> quiet_at (F(path \<mapsto> [])) env'"
  using quiet_sys_call [OF assms(1)] assms(2) quiet_put_file
  by (fastforce simp: sys_create_exclusive_def quiet_at_def [of F])

lemma quiet_sys_create:
  assumes "quiet_at F env"
  shows "\<exists>env'. sys_create path env = (None, env') \<and> quiet_at (F(path \<mapsto> [])) env'"
  using quiet_sys_call [OF assms] quiet_put_file by (fastforce simp: sys_create_def)

lemma quiet_sys_open:
  assumes "quiet_at F env"
  shows "\<exists>env'. sys_open path env =
    (case F path of None \<Rightarrow> Inl ENOENT | Some c \<Rightarrow> Inr c, env') \<and> quiet_at F env'"
  using quiet_sys_call [OF assms] by (auto simp: sys_open_def quiet_at_def split: option.splits)

lemma quiet_sys_unlink:
  assumes "quiet_at F env" "F path \<noteq> None"
  shows "\<exists>env'. sys_unlink path env = (None, env') \<and> quiet_at (F(path := None)) env'"
  using quiet_sys_call [OF assms(1)] assms(2) by (auto simp: sys_unlink_def quiet_at_def quiet_def)

lemma quiet_sys_rename:
  assumes "quiet_at F env" "F source = Some c"
  shows "\<exists>env'. sys_rename source target env = (None, env') \<and>
    quiet_at (F(source := None, target \<mapsto> c)) env'"
  using quiet_sys_call [OF assms(1)] assms(2) by (auto simp: sys_rename_def quiet_at_def quiet_def)

lemma quiet_sys_open_create:
  assumes "quiet_at F env"
  shows "\<exists>env'. sys_open_create path env = (None, env') \<and>
    quiet_at (F(path \<mapsto> (case F path of None \<Rightarrow> [] | Some c \<Rightarrow> c))) env'"
  using quiet_sys_call [OF assms] quiet_put_file by (fastforce simp: sys_open_create_def quiet_at_def [of F])

lemma quiet_sys_exists:
  assumes "quiet_at F env"
  shows "\<exists>env'. sys_exists path env = (Inr (F path \<noteq> None), env') \<and> quiet_at F env'"
  using quiet_sys_call [OF assms] by (auto simp: sys_exists_def quiet_at_def)

lemma quiet_sys_file_size:
  assumes "quiet_at F env" "F path = Some c"
  shows "\<exists>env'. sys_file_size path env = (Inr (length c), env') \<and> quiet_at F env'"
  using quiet_sys_call [OF assms(1)] assms(2) by (auto simp: sys_file_size_def quiet_at_def)

lemma quiet_sys_truncate:
  assumes "quiet_at F env" "F path = Some c"
  shows "\<exists>env'. sys_truncate path n env = (None, env') \<and> quiet_at (F(path \<mapsto> take n c)) env'"
  using quiet_sys_call [OF assms(1)] assms(2) quiet_put_file
  by (fastforce simp: sys_truncate_def quiet_at_def [of F])

lemma sys_call_files: "sys_call env = (r, env') \<Longrightarrow> env_files env' = env_files env"
  by (auto simp: sys_call_def split: list.splits)

lemma sys_unlink_other: "q \<noteq> path \<Longrightarrow> env_files (snd (sys_unlink path env)) q = env_files env q"
  by (auto simp: sys_unlink_def sys_call_def split: list.splits option.splits)

lemma sys_rename_cases:
  assumes "sys_rename source target env = (e, env')"
  shows "e = None \<and> (\<exists>c. env_files env source = Some c \<and>
      env_files env' = (env_files env)(source := None, target \<mapsto> c)) \<or>
    e \<noteq> None \<and> env_files env' = env_files env"
  using assms by (auto simp: sys_rename_def sys_call_def split: list.splits option.splits)

lemma call_files: "env_files (snd (sys_call env)) = env_files env"
  by (cases "sys_call env") (simp add: sys_call_files)

lemma rename_finished:
  assumes "sys_rename temporary final env = (r, env')" "env_files env = F(temporary \<mapsto> c)"
    and "F temporary = None" "temporary \<noteq> final"
  shows "if r = None then env_files env' = F(final \<mapsto> c)
    else \<forall>p. p \<noteq> temporary \<longrightarrow> env_files (snd (sys_unlink temporary env')) p = F p"
proof -
  have "F(temporary := None) = F" using assms(3) by auto
  then show ?thesis
    using sys_rename_cases [OF assms(1)] assms(2,4) sys_unlink_other [of _ temporary env'] by (auto simp: fun_upd_twist)
qed

lemma quiet_env_write:
  assumes "quiet_at F env" "F path = Some c"
  shows "\<exists>env'. env_write path data env = (None, env') \<and> quiet_at (F(path \<mapsto> c @ data)) env'"
  using assms write_loop_benign [of "env_io env" data c]
  by (fastforce simp: env_write_def quiet_def quiet_at_def put_file_def)

lemma env_write_cases:
  assumes "env_write path data env = (e, env')" "env_files env path = Some c"
  shows "e = None \<and> env_files env' = (env_files env)(path \<mapsto> c @ data) \<or>
    (\<exists>x n. e = Some x \<and> n < length data \<and> env_files env' = (env_files env)(path \<mapsto> c @ take n data))"
  using assms write_loop_cases [of "env_io env" data c]
  by (auto simp: env_write_def put_file_def split: prod.splits)

lemma quiet_env_read:
  assumes "quiet_at F env"
  shows "\<exists>env'. env_read n rest env = (Inr (take n rest), env') \<and> quiet_at F env'"
  using assms read_loop_benign [of "env_io env" "[]" n rest]
  by (auto simp: env_read_def quiet_def quiet_at_def)

lemma env_read_cases:
  assumes "env_read n rest env = (res, env')"
  shows "(\<exists>e. res = Inl e) \<or> res = Inr (take n rest)"
  using assms read_loop_cases [of "env_io env" n rest "[]"]
  by (fastforce simp: env_read_def split: prod.splits)

lemma quiet_env_fdatasync:
  assumes "quiet_at F env"
  shows "\<exists>env'. env_fdatasync env = (None, env') \<and> quiet_at F env'"
proof -
  have "set as \<subseteq> {EINTR} \<Longrightarrow> \<exists>as'. sync_loop as = (None, as') \<and> set as' \<subseteq> {EINTR}" for as
    by (induction as rule: sync_loop.induct) auto
  then show ?thesis using assms by (fastforce simp: env_fdatasync_def quiet_def quiet_at_def)
qed

end
