(* ===== verification/Wal.thy ===== *)
theory Wal
  imports WriteBatch Crc32c Posix
begin

text \<open>
  \<^verbatim>\<open>src/wal/wal_format.h\<close>, \<^verbatim>\<open>wal_writer.cc\<close> and \<^verbatim>\<open>wal_reader.cc\<close>: the write-ahead log.  The
  content of a log file is threaded through the operations; a writer keeps its path and
  its latched error, a reader the bytes it has not read yet and \<open>valid_bytes_\<close>.  The
  locale \<open>framing\<close> states what recovery relies on, namely that a record is recognised
  wherever it starts and that a torn record is the end of the log, and derives the replay
  of any prefix of a log; it is interpreted on the record format of the writer and the
  reader.
\<close>

definition kWalRecordHeaderSize :: nat where
  "kWalRecordHeaderSize = 8"

record WalWriter =
  ww_path :: string
  ww_error :: Status

record WalReader =
  wr_path :: string
  wr_rest :: bytes
  wr_valid_bytes :: nat

datatype WalReadResult = kRecord bytes | kEnd

definition WalWriter_open :: "errno option \<Rightarrow> string \<Rightarrow> fs \<Rightarrow> WalWriter result \<times> fs" where
  "WalWriter_open answer path files =
     (case answer of
        Some error_number \<Rightarrow>
          (Inl (ioError (''open WAL '' @ path @ '': '' @ error_message error_number)), files)
      | None \<Rightarrow>
          (Inr \<lparr>ww_path = path, ww_error = success\<rparr>,
           files(path \<mapsto> (case files path of None \<Rightarrow> [] | Some content \<Rightarrow> content))))"

definition WalWriter_latchIOError :: "string \<Rightarrow> errno \<Rightarrow> WalWriter \<Rightarrow> Status \<times> WalWriter" where
  "WalWriter_latchIOError operation error_number w =
     (let w' = (if status_ok (ww_error w)
                then w\<lparr>ww_error := ioError (operation @ '' '' @ ww_path w @ '': ''
                                             @ error_message error_number)\<rparr>
                else w)
      in (ww_error w', w'))"

definition WalWriter_writeAll ::
  "io_answer list \<Rightarrow> bytes \<Rightarrow> WalWriter \<Rightarrow> bytes \<Rightarrow> Status \<times> WalWriter \<times> bytes \<times> io_answer list"
where
  "WalWriter_writeAll answers data w log =
     (case write_loop answers data log of
        (None, log', answers') \<Rightarrow> (success, w, log', answers')
      | (Some error_number, log', answers') \<Rightarrow>
          (let (status, w') = WalWriter_latchIOError ''write WAL'' error_number w
           in (status, w', log', answers')))"

definition WalWriter_append ::
  "io_answer list \<Rightarrow> bytes \<Rightarrow> WalWriter \<Rightarrow> bytes \<Rightarrow> Status \<times> WalWriter \<times> bytes \<times> io_answer list"
where
  "WalWriter_append answers payload w log =
     (if \<not> status_ok (ww_error w) then (ww_error w, w, log, answers)
      else if payload = []
      then (invalidArgument ''WAL record payload must not be empty'', w, log, answers)
      else if length payload > kMaxWalRecordPayloadSize
      then (invalidArgument ''WAL record payload exceeds 64 MiB'', w, log, answers)
      else
        let header = putFixed32 (putFixed32 [] (of_nat (length payload))) (crc32c payload);
            (status, w, log, answers) = WalWriter_writeAll answers header w log
        in if \<not> status_ok status then (status, w, log, answers)
           else WalWriter_writeAll answers payload w log)"

definition WalWriter_sync :: "errno list \<Rightarrow> WalWriter \<Rightarrow> Status \<times> WalWriter \<times> errno list" where
  "WalWriter_sync answers w =
     (if \<not> status_ok (ww_error w) then (ww_error w, w, answers)
      else case sync_loop answers of
        (None, answers') \<Rightarrow> (success, w, answers')
      | (Some error_number, answers') \<Rightarrow>
          (let (status, w') = WalWriter_latchIOError ''sync WAL'' error_number w
           in (status, w', answers')))"

definition WalReader_open :: "errno option \<Rightarrow> string \<Rightarrow> fs \<Rightarrow> WalReader result" where
  "WalReader_open answer path files =
     (case (answer, files path) of
        (None, Some content) \<Rightarrow>
          Inr \<lparr>wr_path = path, wr_rest = content, wr_valid_bytes = 0\<rparr>
      | (None, None) \<Rightarrow>
          Inl (ioError (''open WAL '' @ path @ '': '' @ error_message ENOENT))
      | (Some error_number, _) \<Rightarrow>
          Inl (ioError (''open WAL '' @ path @ '': '' @ error_message error_number)))"

definition WalReader_corruptionAt :: "string \<Rightarrow> WalReader \<Rightarrow> Status" where
  "WalReader_corruptionAt message r =
     corruption (message @ '' at offset '' @ to_string (wr_valid_bytes r))"

definition WalReader_readUpTo ::
  "io_answer list \<Rightarrow> nat \<Rightarrow> WalReader \<Rightarrow> bytes result \<times> WalReader \<times> io_answer list"
where
  "WalReader_readUpTo answers size1 r =
     (case read_loop answers size1 (wr_rest r) [] of
        (Inr data, rest, answers') \<Rightarrow> (Inr data, r\<lparr>wr_rest := rest\<rparr>, answers')
      | (Inl error_number, rest, answers') \<Rightarrow>
          (Inl (ioError (''read WAL '' @ wr_path r @ '': '' @ error_message error_number)),
           r\<lparr>wr_rest := rest\<rparr>, answers'))"

definition WalReader_readNext ::
  "io_answer list \<Rightarrow> WalReader \<Rightarrow> WalReadResult result \<times> WalReader \<times> io_answer list"
where
  "WalReader_readNext answers r =
     (case WalReader_readUpTo answers kWalRecordHeaderSize r of
        (Inl status, r, answers) \<Rightarrow> (Inl status, r, answers)
      | (Inr header, r, answers) \<Rightarrow>
          if length header < kWalRecordHeaderSize then (Inr kEnd, r, answers)
          else case getFixed32 header of
            None \<Rightarrow> (Inl (WalReader_corruptionAt ''invalid WAL record header'' r), r, answers)
          | Some (payload_length, header_input) \<Rightarrow>
           (case getFixed32 header_input of
              None \<Rightarrow> (Inl (WalReader_corruptionAt ''invalid WAL record header'' r), r, answers)
            | Some (expected_checksum, _) \<Rightarrow>
                if payload_length = 0
                then (Inl (WalReader_corruptionAt ''empty WAL record payload'' r), r, answers)
                else if unat payload_length > kMaxWalRecordPayloadSize
                then (Inl (WalReader_corruptionAt ''WAL record payload exceeds 64 MiB'' r),
                      r, answers)
                else case WalReader_readUpTo answers (unat payload_length) r of
                  (Inl status, r, answers) \<Rightarrow> (Inl status, r, answers)
                | (Inr decoded_payload, r, answers) \<Rightarrow>
                    if length decoded_payload < unat payload_length
                    then (Inr kEnd, r, answers)
                    else if crc32c decoded_payload \<noteq> expected_checksum
                    then (Inl (WalReader_corruptionAt ''WAL record checksum mismatch'' r),
                          r, answers)
                    else (Inr (kRecord decoded_payload),
                          r\<lparr>wr_valid_bytes := wr_valid_bytes r + kWalRecordHeaderSize
                                               + unat payload_length\<rparr>,
                          answers)))"

text \<open>The bytes of one record, and the payloads the writer accepts.\<close>

definition wal_record :: "bytes \<Rightarrow> bytes" where
  "wal_record payload =
     encodeFixed32 (of_nat (length payload)) @ encodeFixed32 (crc32c payload) @ payload"

definition wal_payload_ok :: "bytes \<Rightarrow> bool" where
  "wal_payload_ok payload \<longleftrightarrow> payload \<noteq> [] \<and> length payload \<le> kMaxWalRecordPayloadSize"

text \<open>What \<open>readNext\<close> makes of the bytes ahead, when no call fails.\<close>

datatype 'r frame = Frame 'r bytes | FrameEnd | FrameBad string

definition wal_frame :: "bytes \<Rightarrow> bytes frame" where
  "wal_frame rest =
     (if length rest < 8 then FrameEnd
      else let len = decodeFixed32 rest; sum = decodeFixed32 (drop 4 rest);
               body = drop 8 rest
        in if len = 0 then FrameBad ''empty WAL record payload''
           else if unat len > kMaxWalRecordPayloadSize
           then FrameBad ''WAL record payload exceeds 64 MiB''
           else if length body < unat len then FrameEnd
           else if crc32c (take (unat len) body) \<noteq> sum
           then FrameBad ''WAL record checksum mismatch''
           else Frame (take (unat len) body) (drop (unat len) body))"

text \<open>The records of a log that are complete in its first \<open>n\<close> bytes.\<close>

fun complete :: "('r \<Rightarrow> nat) \<Rightarrow> nat \<Rightarrow> 'r list \<Rightarrow> 'r list" where
  "complete sz n [] = []"
| "complete sz n (r # rs) = (if sz r \<le> n then r # complete sz (n - sz r) rs else [])"

subsection \<open>Reading one record\<close>

lemma readUpTo_cases:
  assumes "WalReader_readUpTo as n r = (res, r', as')"
  shows "(\<exists>m. res = Inl (ioError m)) \<or>
    res = Inr (take n (wr_rest r)) \<and> r' = r\<lparr>wr_rest := drop n (wr_rest r)\<rparr>"
proof -
  obtain q rest as1 where l: "read_loop as n (wr_rest r) [] = (q, rest, as1)"
    by (metis prod_cases3)
  from read_loop_cases [OF l] show ?thesis
    using assms l by (auto simp: WalReader_readUpTo_def)
qed

lemma readUpTo_benign:
  assumes "benign as"
  shows "\<exists>as'. WalReader_readUpTo as n r =
    (Inr (take n (wr_rest r)), r\<lparr>wr_rest := drop n (wr_rest r)\<rparr>, as') \<and> benign as'"
  using read_loop_benign [OF assms, of "[]" n "wr_rest r"]
  by (auto simp: WalReader_readUpTo_def)

text \<open>
  Whatever the kernel answers, \<open>readNext\<close> either reports an I/O error or does what
  \<open>wal_frame\<close> says about the bytes ahead.
\<close>

definition frame_outcome ::
  "WalReader \<Rightarrow> bytes frame \<Rightarrow> WalReadResult result \<times> WalReader \<Rightarrow> bool" where
  "frame_outcome r f out = (case f of
     Frame p rest \<Rightarrow> out = (Inr (kRecord p),
       r\<lparr>wr_rest := rest, wr_valid_bytes := wr_valid_bytes r + 8 + length p\<rparr>)
   | FrameEnd \<Rightarrow> (\<exists>rest. out = (Inr kEnd, r\<lparr>wr_rest := rest\<rparr>))
   | FrameBad m \<Rightarrow> (\<exists>rest. out = (Inl (WalReader_corruptionAt m r), r\<lparr>wr_rest := rest\<rparr>)))"

lemma corruptionAt_rest [simp]:
  "WalReader_corruptionAt m (r\<lparr>wr_rest := x\<rparr>) = WalReader_corruptionAt m r"
  by (simp add: WalReader_corruptionAt_def)

lemma wal_frame_short: "length rest < 8 \<Longrightarrow> wal_frame rest = FrameEnd"
  by (simp add: wal_frame_def)

lemma header_fields:
  assumes "8 \<le> length rest"
  shows "getFixed32 (take 8 rest) = Some (decodeFixed32 rest, take 4 (drop 4 rest))"
    and "getFixed32 (take 4 (drop 4 rest)) = Some (decodeFixed32 (drop 4 rest), [])"
  using assms by (simp_all add: getFixed32_def decodeFixed32_le drop_take)

lemma readNext_cases:
  assumes "WalReader_readNext as r = (res, r', as')"
  shows "(\<exists>m. res = Inl (ioError m)) \<or> frame_outcome r (wal_frame (wr_rest r)) (res, r')"
proof -
  let ?rest = "wr_rest r"
  obtain h r1 as1 where h: "WalReader_readUpTo as 8 r = (h, r1, as1)" by (metis prod_cases3)
  from readUpTo_cases [OF h] consider
    (err) m where "h = Inl (ioError m)"
  | (hdr) "h = Inr (take 8 ?rest)" "r1 = r\<lparr>wr_rest := drop 8 ?rest\<rparr>" by blast
  then show ?thesis
  proof cases
    case err
    then show ?thesis
      using assms h by (auto simp: WalReader_readNext_def kWalRecordHeaderSize_def)
  next
    case hdr
    show ?thesis
    proof (cases "length ?rest < 8")
      case True
      then show ?thesis
        using assms h hdr
        by (auto simp: WalReader_readNext_def kWalRecordHeaderSize_def wal_frame_short
            frame_outcome_def)
    next
      case False
      define len where "len = decodeFixed32 ?rest"
      define sm where "sm = decodeFixed32 (drop 4 ?rest)"
      have f: "getFixed32 (take 8 ?rest) = Some (len, take 4 (drop 4 ?rest))"
        "getFixed32 (take 4 (drop 4 ?rest)) = Some (sm, [])"
        using header_fields [of ?rest] False by (simp_all add: len_def sm_def)
      obtain b r2 as2 where b: "WalReader_readUpTo as1 (unat len) r1 = (b, r2, as2)"
        by (metis prod_cases3)
      have next_eq: "WalReader_readNext as r =
         (if len = 0 then (Inl (WalReader_corruptionAt ''empty WAL record payload'' r), r1, as1)
          else if unat len > kMaxWalRecordPayloadSize
          then (Inl (WalReader_corruptionAt ''WAL record payload exceeds 64 MiB'' r), r1, as1)
          else case b of Inl st \<Rightarrow> (Inl st, r2, as2)
             | Inr p \<Rightarrow> if length p < unat len then (Inr kEnd, r2, as2)
                 else if crc32c p \<noteq> sm
                 then (Inl (WalReader_corruptionAt ''WAL record checksum mismatch'' r2), r2, as2)
                 else (Inr (kRecord p),
                   r2\<lparr>wr_valid_bytes := wr_valid_bytes r2 + 8 + unat len\<rparr>, as2))"
        using h hdr False b
        by (simp add: WalReader_readNext_def kWalRecordHeaderSize_def f split: sum.splits)
      have fr: "wal_frame ?rest =
         (if len = 0 then FrameBad ''empty WAL record payload''
          else if unat len > kMaxWalRecordPayloadSize
          then FrameBad ''WAL record payload exceeds 64 MiB''
          else if length (drop 8 ?rest) < unat len then FrameEnd
          else if crc32c (take (unat len) (drop 8 ?rest)) \<noteq> sm
          then FrameBad ''WAL record checksum mismatch''
          else Frame (take (unat len) (drop 8 ?rest)) (drop (unat len) (drop 8 ?rest)))"
        using False by (simp add: wal_frame_def Let_def len_def sm_def)
      from readUpTo_cases [OF b] hdr(2) show ?thesis
        using assms unfolding next_eq fr
        by (auto simp: frame_outcome_def split: if_splits)
    qed
  qed
qed

lemma readNext_benign:
  assumes "benign as" "WalReader_readNext as r = (res, r', as')"
  shows "benign as' \<and> frame_outcome r (wal_frame (wr_rest r)) (res, r')"
proof -
  have "benign as' \<and> (\<nexists>m. res = Inl (ioError m))"
  proof -
    obtain as1 where h: "WalReader_readUpTo as kWalRecordHeaderSize r =
        (Inr (take 8 (wr_rest r)), r\<lparr>wr_rest := drop 8 (wr_rest r)\<rparr>, as1)" "benign as1"
      using readUpTo_benign [OF assms(1), of kWalRecordHeaderSize r]
      by (auto simp: kWalRecordHeaderSize_def)
    show ?thesis
    proof (cases "length (wr_rest r) < 8")
      case True
      then show ?thesis
        using assms(2) h by (auto simp: WalReader_readNext_def kWalRecordHeaderSize_def)
    next
      case False
      then have "8 \<le> length (wr_rest r)" by simp
      note f = header_fields [OF this]
      define len where "len = decodeFixed32 (wr_rest r)"
      obtain as2 where b: "WalReader_readUpTo as1 (unat len) (r\<lparr>wr_rest := drop 8 (wr_rest r)\<rparr>) =
          (Inr (take (unat len) (drop 8 (wr_rest r))),
           r\<lparr>wr_rest := drop (unat len) (drop 8 (wr_rest r))\<rparr>, as2)" "benign as2"
        using readUpTo_benign [OF h(2), of "unat len" "r\<lparr>wr_rest := drop 8 (wr_rest r)\<rparr>"]
        by auto
      show ?thesis
        using assms(2) h False b
        by (auto simp: WalReader_readNext_def kWalRecordHeaderSize_def f len_def [symmetric]
            WalReader_corruptionAt_def status_defs split: if_splits)
    qed
  qed
  then show ?thesis using readNext_cases [OF assms(2)] by blast
qed

subsection \<open>Reading a whole log\<close>

text \<open>The contract of a record format, and the replay of a log that was cut anywhere.\<close>

inductive replays :: "(bytes \<Rightarrow> 'r frame) \<Rightarrow> bytes \<Rightarrow> 'r list \<Rightarrow> bool"
  for nxt where
  replays_end: "nxt log = FrameEnd \<Longrightarrow> replays nxt log []"
| replays_record: "nxt log = Frame r rest \<Longrightarrow> replays nxt rest rs \<Longrightarrow> replays nxt log (r # rs)"

locale framing =
  fixes enc :: "'r \<Rightarrow> bytes"
    and ok :: "'r \<Rightarrow> bool"
    and nxt :: "bytes \<Rightarrow> 'r frame"
  assumes nxt_enc: "ok r \<Longrightarrow> nxt (enc r @ rest) = Frame r rest"
    and nxt_torn: "ok r \<Longrightarrow> n < length (enc r) \<Longrightarrow> nxt (take n (enc r)) = FrameEnd"
    and nxt_empty: "nxt [] = FrameEnd"
begin

lemma replays_prefix:
  "\<forall>r \<in> set rs. ok r \<Longrightarrow>
     replays nxt (take n (concat (map enc rs))) (complete (\<lambda>r. length (enc r)) n rs)"
proof (induction rs arbitrary: n)
  case Nil
  then show ?case by (simp add: replays_end nxt_empty)
next
  case (Cons r rs)
  show ?case
  proof (cases "length (enc r) \<le> n")
    case True
    then have "take n (concat (map enc (r # rs))) =
        enc r @ take (n - length (enc r)) (concat (map enc rs))" by simp
    then show ?thesis
      using True Cons by (auto intro!: replays_record nxt_enc)
  next
    case False
    then show ?thesis using Cons.prems nxt_torn by (auto intro!: replays_end)
  qed
qed

lemma replays_log: "\<forall>r \<in> set rs. ok r \<Longrightarrow> replays nxt (concat (map enc rs)) rs"
proof -
  assume "\<forall>r \<in> set rs. ok r"
  from replays_prefix [OF this, of "length (concat (map enc rs))"]
  have "replays nxt (concat (map enc rs))
      (complete (\<lambda>r. length (enc r)) (length (concat (map enc rs))) rs)" by simp
  moreover have "complete (\<lambda>r. length (enc r)) (length (concat (map enc rs))) rs = rs"
    by (induction rs) simp_all
  ultimately show ?thesis by simp
qed

end

lemma length_wal_record [simp, size_simps]: "length (wal_record p) = 8 + length p"
  by (simp add: wal_record_def)

lemma wal_len:
  assumes "wal_payload_ok p"
  shows "unat (of_nat (length p) :: u32) = length p" and "(of_nat (length p) :: u32) \<noteq> 0"
proof -
  have "0 < length p" "length p \<le> uint32_max"
    using assms by (simp_all add: wal_payload_ok_def batch_consts)
  then show u: "unat (of_nat (length p) :: u32) = length p" by (simp add: count_word)
  show "(of_nat (length p) :: u32) \<noteq> 0"
    using u \<open>0 < length p\<close> by (metis less_irrefl unat_0)
qed

lemma wal_frame_fields:
  "wal_frame (encodeFixed32 len @ encodeFixed32 sm @ body) =
     (if len = 0 then FrameBad ''empty WAL record payload''
      else if unat len > kMaxWalRecordPayloadSize
      then FrameBad ''WAL record payload exceeds 64 MiB''
      else if length body < unat len then FrameEnd
      else if crc32c (take (unat len) body) \<noteq> sm
      then FrameBad ''WAL record checksum mismatch''
      else Frame (take (unat len) body) (drop (unat len) body))"
proof -
  let ?log = "encodeFixed32 len @ encodeFixed32 sm @ body"
  have d: "drop 4 ?log = encodeFixed32 sm @ body" "drop 8 ?log = body" by simp_all
  have "decodeFixed32 ?log = len" "decodeFixed32 (drop 4 ?log) = sm"
    unfolding d by (simp_all only: decodeFixed32_encode)
  moreover have "\<not> length ?log < 8" by simp
  ultimately show ?thesis unfolding wal_frame_def Let_def d by simp
qed

interpretation wal: framing wal_record wal_payload_ok wal_frame
proof
  show "wal_frame [] = FrameEnd" by (simp add: wal_frame_def)
  fix p rest assume ok: "wal_payload_ok p"
  show "wal_frame (wal_record p @ rest) = Frame p rest"
    using ok wal_len [OF ok] by (simp add: wal_record_def wal_frame_fields wal_payload_ok_def)
next
  fix p n assume ok: "wal_payload_ok p" and n: "n < length (wal_record p)"
  show "wal_frame (take n (wal_record p)) = FrameEnd"
  proof (cases "n < 8")
    case True
    then show ?thesis using n by (simp add: wal_frame_short)
  next
    case False
    then have "take n (wal_record p) = encodeFixed32 (of_nat (length p)) @
        encodeFixed32 (crc32c p) @ take (n - 8) p"
      by (simp add: wal_record_def take_append)
    then show ?thesis
      using ok wal_len [OF ok] n False by (auto simp: wal_frame_fields wal_payload_ok_def)
  qed
qed

lemma wal_frame_Frame:
  assumes "wal_frame l = Frame p rest"
  shows "wal_payload_ok p" and "l = wal_record p @ rest"
proof -
  define len where "len = decodeFixed32 l"
  have l: "8 \<le> length l" "len \<noteq> 0" "unat len \<le> kMaxWalRecordPayloadSize"
    "unat len \<le> length (drop 8 l)" "p = take (unat len) (drop 8 l)"
    "crc32c p = decodeFixed32 (drop 4 l)" "rest = drop (unat len) (drop 8 l)"
    using assms by (auto simp: wal_frame_def Let_def len_def split: if_splits)
  have n: "length p = unat len" using l(4,5) by simp
  then have w: "of_nat (length p) = len" by simp
  have "encodeFixed32 len = take 4 l" "encodeFixed32 (crc32c p) = take 4 (drop 4 l)"
    using l(1) by (simp_all add: l(6) len_def encodeFixed32_decode)
  moreover have "p @ rest = drop 8 l" unfolding l(5,7) by (rule append_take_drop_id)
  ultimately have "wal_record p @ rest = take 4 l @ take 4 (drop 4 l) @ drop 8 l"
    by (simp add: wal_record_def w)
  also have "\<dots> = l"
    by (metis append_take_drop_id drop_drop numeral_Bit0)
  finally show "l = wal_record p @ rest" ..
  show "wal_payload_ok p"
    using l(2,3) n by (auto simp: wal_payload_ok_def unat_eq_zero)
qed

lemma readNext_record_shrinks:
  assumes "(Inr (kRecord p), r', as') = WalReader_readNext as r"
  shows "length (wr_rest r') < length (wr_rest r)"
  using readNext_cases [OF assms [symmetric]] wal_frame_Frame(2)
  by (fastforce simp: frame_outcome_def split: frame.splits)

text \<open>
  The loop of the log's client: all payloads up to the end of the log, with the status and
  the reader at that point.
\<close>

function WalReader_readAll :: "io_answer list \<Rightarrow> WalReader \<Rightarrow> bytes list \<times> Status \<times> WalReader"
where
  "WalReader_readAll answers r =
     (case WalReader_readNext answers r of
        (Inl status, r', _) \<Rightarrow> ([], status, r')
      | (Inr kEnd, r', _) \<Rightarrow> ([], success, r')
      | (Inr (kRecord payload), r', answers') \<Rightarrow>
          (let (payloads, status, r'') = WalReader_readAll answers' r'
           in (payload # payloads, status, r'')))"
  by pat_completeness auto
termination
  by (relation "measure (\<lambda>(answers, r). length (wr_rest r))") (auto dest: readNext_record_shrinks)

declare WalReader_readAll.simps [simp del]

lemma readAll_replays:
  assumes "replays wal_frame log ps" "benign as" "wr_rest r = log"
  shows "\<exists>r'. WalReader_readAll as r = (ps, success, r') \<and>
    wr_valid_bytes r' = wr_valid_bytes r + length (concat (map wal_record ps))"
  using assms
proof (induction log ps arbitrary: as r rule: replays.induct)
  case (replays_end log)
  obtain res r' as' where n: "WalReader_readNext as r = (res, r', as')" by (metis prod_cases3)
  then show ?case
    using readNext_benign [OF replays_end.prems(1) n] replays_end
    by (auto simp: WalReader_readAll.simps [of as] frame_outcome_def)
next
  case (replays_record log p rest ps)
  obtain res r' as' where n: "WalReader_readNext as r = (res, r', as')" by (metis prod_cases3)
  have b: "benign as'" and res: "res = Inr (kRecord p)"
    "r' = r\<lparr>wr_rest := rest, wr_valid_bytes := wr_valid_bytes r + 8 + length p\<rparr>"
    using readNext_benign [OF replays_record.prems(1) n] replays_record
    by (auto simp: frame_outcome_def)
  obtain r'' where "WalReader_readAll as' r' = (ps, success, r'')"
    "wr_valid_bytes r'' = wr_valid_bytes r' + length (concat (map wal_record ps))"
    using replays_record.IH [OF b, of r'] res(2) by auto
  then show ?case
    using n res by (simp add: WalReader_readAll.simps [of as])
qed

subsection \<open>Writing the log\<close>

definition append_outcome ::
  "bytes \<Rightarrow> WalWriter \<Rightarrow> bytes \<Rightarrow> Status \<Rightarrow> WalWriter \<Rightarrow> bytes \<Rightarrow> bool" where
  "append_outcome p w log st w' log' \<longleftrightarrow>
     status_ok st \<and> status_ok (ww_error w) \<and> wal_payload_ok p \<and> w' = w \<and> log' = log @ wal_record p
   \<or> \<not> status_ok st \<and> w' = w \<and> log' = log \<and>
       (if status_ok (ww_error w) then \<not> wal_payload_ok p \<and> st_code st = kInvalidArgument
        else st = ww_error w)
   \<or> \<not> status_ok st \<and> status_ok (ww_error w) \<and> wal_payload_ok p \<and>
       st_code st = kIOError \<and> ww_error w' = st \<and>
       (\<exists>n < length (wal_record p). log' = log @ take n (wal_record p))"

lemma writeAll_cases:
  assumes "WalWriter_writeAll as data w log = (st, w', log', as')" "status_ok (ww_error w)"
  shows "st = success \<and> w' = w \<and> log' = log @ data \<or>
    \<not> status_ok st \<and> st_code st = kIOError \<and> ww_error w' = st \<and>
      (\<exists>n < length data. log' = log @ take n data)"
proof -
  obtain e g as1 where "write_loop as data log = (e, g, as1)" by (metis prod_cases3)
  with write_loop_cases [OF this] show ?thesis
    using assms
    by (auto simp: WalWriter_writeAll_def WalWriter_latchIOError_def Let_def)
qed

lemma append_cases:
  assumes "WalWriter_append as p w log = (st, w', log', as')"
  shows "append_outcome p w log st w' log'"
proof (cases "status_ok (ww_error w) \<and> wal_payload_ok p")
  case False
  then show ?thesis
    using assms
    by (auto simp: WalWriter_append_def append_outcome_def wal_payload_ok_def
        split: if_splits)
next
  case True
  define h where "h = encodeFixed32 (of_nat (length p)) @ encodeFixed32 (crc32c p)"
  have rec: "wal_record p = h @ p" by (simp add: wal_record_def h_def)
  have put: "putFixed32 (putFixed32 [] (of_nat (length p))) (crc32c p) = h"
    by (simp add: putFixed32_def h_def)
  obtain st1 w1 log1 as1 where w1: "WalWriter_writeAll as h w log = (st1, w1, log1, as1)"
    by (metis prod_cases4)
  have a: "WalWriter_append as p w log =
      (if \<not> status_ok st1 then (st1, w1, log1, as1) else WalWriter_writeAll as1 p w1 log1)"
    using True w1 by (simp add: WalWriter_append_def wal_payload_ok_def put)
  from writeAll_cases [OF w1] True
  consider (ok) "st1 = success" "w1 = w" "log1 = log @ h"
    | (err) n where "\<not> status_ok st1" "st_code st1 = kIOError" "ww_error w1 = st1"
        "n < length h" "log1 = log @ take n h" by blast
  then show ?thesis
  proof cases
    case ok
    then have "WalWriter_writeAll as1 p w (log @ h) = (st, w', log', as')"
      using assms a by simp
    from writeAll_cases [OF this] True
    consider "st = success" "w' = w" "log' = log @ wal_record p"
      | n where "\<not> status_ok st" "st_code st = kIOError" "ww_error w' = st"
          "length h + n < length (wal_record p)" "log' = log @ take (length h + n) (wal_record p)"
      by (auto simp: rec)
    then show ?thesis using True unfolding append_outcome_def by cases auto
  next
    case err
    then have "n < length (wal_record p)" "log1 = log @ take n (wal_record p)"
      by (auto simp: rec)
    then show ?thesis using assms a True err unfolding append_outcome_def by auto
  qed
qed

lemma write_loop_Nil [simp]: "write_loop [] data f = (None, f @ data, [])"
  by (simp add: write_loop.simps sys_write_def)

lemma append_quiet [simp]:
  "status_ok (ww_error w) \<Longrightarrow> wal_payload_ok p \<Longrightarrow>
     WalWriter_append [] p w log = (success, w, log @ wal_record p, [])"
  by (simp add: WalWriter_append_def WalWriter_writeAll_def wal_payload_ok_def wal_record_def
      putFixed32_def)

text \<open>
  A client that appends payloads one after the other: the acknowledged payloads, the writer
  and the content of the log.
\<close>

fun wal_session ::
  "io_answer list \<Rightarrow> bytes list \<Rightarrow> WalWriter \<Rightarrow> bytes \<Rightarrow> bytes list \<times> WalWriter \<times> bytes"
where
  "wal_session as [] w log = ([], w, log)"
| "wal_session as (p # ps) w log =
     (case WalWriter_append as p w log of (st, w', log', as') \<Rightarrow>
        case wal_session as' ps w' log' of (acked, w'', log'') \<Rightarrow>
          (if status_ok st then p # acked else acked, w'', log''))"

lemma wal_session_latched:
  "\<not> status_ok (ww_error w) \<Longrightarrow> wal_session as ps w log = ([], w, log)"
  by (induction ps arbitrary: as) (auto simp: WalWriter_append_def)

lemma wal_session_log:
  assumes "wal_session as ps w log = (acked, w', log')" "status_ok (ww_error w)"
  shows "\<exists>p n. wal_payload_ok p \<and> n < length (wal_record p) \<and> (\<forall>q \<in> set acked. wal_payload_ok q) \<and>
    log' = log @ concat (map wal_record acked) @ take n (wal_record p)"
  using assms
proof (induction ps arbitrary: as w log acked w' log')
  case Nil
  then show ?case
    by (auto intro!: exI [of _ "[0]"] exI [of _ 0]
        simp: wal_payload_ok_def kMaxWalRecordPayloadSize_def)
next
  case (Cons p ps)
  obtain st w1 log1 as1 where a: "WalWriter_append as p w log = (st, w1, log1, as1)"
    by (metis prod_cases4)
  obtain acked1 w2 log2 where s: "wal_session as1 ps w1 log1 = (acked1, w2, log2)"
    by (metis prod_cases3)
  from append_cases [OF a] Cons.prems(2) show ?case
    unfolding append_outcome_def
  proof (elim disjE conjE exE)
    fix n assume "wal_payload_ok p" "\<not> status_ok st" "ww_error w1 = st"
      "n < length (wal_record p)" "log1 = log @ take n (wal_record p)"
    then show ?case using Cons.prems a s wal_session_latched [of w1 as1 ps log1] by auto
  next
    assume "status_ok st" "wal_payload_ok p" "w1 = w" "log1 = log @ wal_record p"
    then show ?case using Cons.prems Cons.IH [OF s] a s by (auto; blast)
  qed (use Cons.prems Cons.IH [OF s] a s in auto)
qed

lemma complete_torn:
  assumes "m < sz r"
  shows "complete sz (min n (sum_list (map sz rs) + m)) (rs @ [r]) = complete sz n rs"
proof (induction rs arbitrary: n)
  case (Cons q rs)
  have "min n (sz q + sum_list (map sz rs) + m) - sz q = min (n - sz q) (sum_list (map sz rs) + m)"
    by arith
  then show ?case using Cons.IH [of "n - sz q"] by (simp add: min_le_iff_disj)
qed (use assms in \<open>simp add: min_le_iff_disj\<close>)

lemma complete_all: "sum_list (map sz rs) \<le> n \<Longrightarrow> complete sz n rs = rs"
  by (induction rs arbitrary: n) auto

lemma replays_session:
  assumes "wal_session as ps w [] = (acked, w', log)" "status_ok (ww_error w)"
  shows "replays wal_frame (take n log) (complete (\<lambda>p. length (wal_record p)) n acked)"
proof -
  obtain p m where p: "wal_payload_ok p" "m < length (wal_record p)"
      "\<forall>q \<in> set acked. wal_payload_ok q"
      "log = concat (map wal_record acked) @ take m (wal_record p)"
    using wal_session_log [OF assms] by auto
  let ?k = "length (concat (map wal_record acked)) + m"
  have "take n log = take (min n ?k) (concat (map wal_record (acked @ [p])))"
    using p(2) unfolding p(4) by (auto simp: min_def le_diff_conv)
  then show ?thesis
    using wal.replays_prefix [of "acked @ [p]" "min n ?k"] p(1,3)
      complete_torn [of m "\<lambda>p. length (wal_record p)" p n acked] p(2)
    by (simp add: length_concat comp_def)
qed

subsection \<open>Properties\<close>

text \<open>
  C27. Whatever the kernel answers, appending a payload has one of three outcomes: success,
  and the log grew by exactly one record (length, checksum, payload); a rejected call, with
  the latched error of an earlier failure or an invalid payload, and neither the log nor the
  writer changed; an I/O error, which the writer latches, and the log grew by a proper
  prefix of the record.
\<close>

theorem wal_append_outcome:
  assumes "WalWriter_append answers payload w log = (status, w', log', answers')"
  shows "append_outcome payload w log status w' log'"
  using assms by (rule append_cases)

theorem wal_append_outcome_witness:
  "append_outcome [7] \<lparr>ww_path = ''000001.log'', ww_error = success\<rparr> []
     (fst (WalWriter_append [Fail EINTR, Count 3, Fail EIO] [7]
        \<lparr>ww_path = ''000001.log'', ww_error = success\<rparr> []))
     \<lparr>ww_path = ''000001.log'',
      ww_error = ioError ''write WAL 000001.log: Input/output error''\<rparr>
     [1, 0, 0]"
proof -
  let ?w = "\<lparr>ww_path = ''000001.log'', ww_error = success\<rparr>"
  have "WalWriter_append [Fail EINTR, Count 3, Fail EIO] [7] ?w [] =
      (ioError ''write WAL 000001.log: Input/output error'',
       \<lparr>ww_path = ''000001.log'',
        ww_error = ioError ''write WAL 000001.log: Input/output error''\<rparr>, [1, 0, 0], [])"
    by (simp add: WalWriter_append_def WalWriter_writeAll_def WalWriter_latchIOError_def
        write_loop.simps sys_write_def putFixed32_def encodeFixed32_def error_message_def
        kMaxWalRecordPayloadSize_def Let_def)
  from wal_append_outcome [OF this] show ?thesis by (simp only: \<open>_ = _\<close> fst_conv)
qed

text \<open>
  C24. Crash recovery of a log. Payloads are appended one after the other by a fresh writer,
  with any answers of the kernel, and the file is then cut at any length. Reading it back
  (with a kernel that only interrupts or shortens reads) ends with an ok status, returns the
  acknowledged payloads that are complete in what is left, in order, and nothing else, and
  the valid bytes are the size of exactly these records; without a cut these are all
  acknowledged payloads.
\<close>

theorem wal_crash_recovery:
  assumes "wal_session answers payloads \<lparr>ww_path = path, ww_error = success\<rparr> [] = (acked, w, log)"
    and "benign reads"
  shows "\<exists>r. WalReader_readAll reads \<lparr>wr_path = path, wr_rest = take n log, wr_valid_bytes = 0\<rparr>
        = (complete (\<lambda>p. length (wal_record p)) n acked, success, r) \<and>
      wr_valid_bytes r =
        length (concat (map wal_record (complete (\<lambda>p. length (wal_record p)) n acked))) \<and>
      (length log \<le> n \<longrightarrow> complete (\<lambda>p. length (wal_record p)) n acked = acked)"
proof -
  have "length log \<le> n \<longrightarrow> complete (\<lambda>p. length (wal_record p)) n acked = acked"
    using wal_session_log [OF assms(1)] by (auto intro!: complete_all simp: length_concat comp_def)
  moreover note readAll_replays [OF replays_session [OF assms(1)] assms(2),
      of "\<lparr>wr_path = path, wr_rest = take n log, wr_valid_bytes = 0\<rparr>" n]
  ultimately show ?thesis by simp
qed

theorem wal_crash_recovery_witness:
  "\<exists>r. WalReader_readAll [Fail EINTR, Count 1]
      \<lparr>wr_path = ''000001.log'', wr_rest = take 12 (wal_record [7] @ wal_record [8, 9]),
       wr_valid_bytes = 0\<rparr> = ([[7]], success, r) \<and> wr_valid_bytes r = 9"
proof -
  have "wal_session [] [[7], [8, 9]] \<lparr>ww_path = ''000001.log'', ww_error = success\<rparr> [] =
      ([[7], [8, 9]], \<lparr>ww_path = ''000001.log'', ww_error = success\<rparr>,
       wal_record [7] @ wal_record [8, 9])"
    by (simp add: wal_payload_ok_def kMaxWalRecordPayloadSize_def)
  from wal_crash_recovery [OF this, of "[Fail EINTR, Count 1]" 12] show ?thesis by simp
qed

text \<open>
  C28. A complete record whose payload was changed within a window of up to four bytes is
  reported as corruption at its offset; it is neither returned nor taken for the end of the
  log.
\<close>

theorem wal_detects_corruption:
  assumes "wr_rest r = take 8 (wal_record (a @ xs @ b)) @ (a @ ys @ b) @ rest"
    and "wal_payload_ok (a @ xs @ b)" and "benign reads"
    and "length ys = length xs" and "length xs \<le> 4" and "xs \<noteq> ys"
  shows "fst (WalReader_readNext reads r) =
    Inl (corruption (''WAL record checksum mismatch at offset '' @ to_string (wr_valid_bytes r)))"
proof -
  let ?p = "a @ xs @ b"
  have "crc32c (a @ ys @ b) \<noteq> crc32c ?p" using crc32c_inj_window assms(4-6) by metis
  moreover have "take 8 (wal_record ?p) = encodeFixed32 (of_nat (length ?p)) @ encodeFixed32 (crc32c ?p)"
    by (simp add: wal_record_def)
  moreover have "length (a @ ys @ b) = length ?p" using assms(4) by simp
  ultimately have "wal_frame (wr_rest r) = FrameBad ''WAL record checksum mismatch''"
    using wal_len [OF assms(2)] assms(1,2)
    by (simp only: append_assoc wal_frame_fields) (simp add: wal_payload_ok_def)
  moreover obtain res r' as' where n: "WalReader_readNext reads r = (res, r', as')"
    by (metis prod_cases3)
  ultimately show ?thesis
    using readNext_benign [OF assms(3) n]
    by (auto simp: frame_outcome_def WalReader_corruptionAt_def)
qed

theorem wal_detects_corruption_witness:
  "fst (WalReader_readNext [Count 5]
      \<lparr>wr_path = ''000001.log'', wr_rest = take 8 (wal_record [7, 8]) @ [7, 9],
       wr_valid_bytes = 17\<rparr>) =
   Inl (corruption (''WAL record checksum mismatch at offset '' @ to_string 17))"
  using wal_detects_corruption [of "\<lparr>wr_path = ''000001.log'',
      wr_rest = take 8 (wal_record [7, 8]) @ [7, 9], wr_valid_bytes = 17\<rparr>"
      "[7]" "[8]" "[]" "[9]" "[]" "[Count 5]"]
  by (simp add: wal_payload_ok_def kMaxWalRecordPayloadSize_def)

end
