(* ===== verification/Snapshot.thy ===== *)
theory Snapshot
  imports InternalKey "HOL-Library.Mapping" "HOL-Library.Multiset"
begin

text \<open>
  \<^verbatim>\<open>src/db/snapshot.h\<close> and \<^verbatim>\<open>snapshot.cc\<close>: the sequence numbers of the live snapshots with their
  reference counts.  \<^verbatim>\<open>std::map\<close> is an ordered mapping; every operation holds the tracker's mutex
  from its first to its last step, so that it is one step of the model.  \<open>tracked\<close> is the
  multiset of live snapshots that the tracker stands for.
\<close>

record SnapshotTracker =
  tr_counts :: "(SequenceNumber, nat) mapping"

definition SnapshotTracker_new :: SnapshotTracker where
  "SnapshotTracker_new = \<lparr>tr_counts = Mapping.empty\<rparr>"

definition SnapshotTracker_add :: "SequenceNumber \<Rightarrow> SnapshotTracker \<Rightarrow> SnapshotTracker" where
  "SnapshotTracker_add sequence t =
     (let n = (case Mapping.lookup (tr_counts t) sequence of None \<Rightarrow> 0 | Some m \<Rightarrow> m)
      in t\<lparr>tr_counts := Mapping.update sequence (n + 1) (tr_counts t)\<rparr>)"

text \<open>The assertions of \<^verbatim>\<open>remove\<close> are the condition under which it is called.\<close>

definition SnapshotTracker_remove :: "SequenceNumber \<Rightarrow> SnapshotTracker \<Rightarrow> SnapshotTracker" where
  "SnapshotTracker_remove sequence t =
     (case Mapping.lookup (tr_counts t) sequence of
        None \<Rightarrow> t
      | Some n \<Rightarrow>
          if n - 1 = 0 then t\<lparr>tr_counts := Mapping.delete sequence (tr_counts t)\<rparr>
          else t\<lparr>tr_counts := Mapping.update sequence (n - 1) (tr_counts t)\<rparr>)"

definition SnapshotTracker_oldest :: "SequenceNumber \<Rightarrow> SnapshotTracker \<Rightarrow> SequenceNumber" where
  "SnapshotTracker_oldest fallback t =
     (case Mapping.ordered_keys (tr_counts t) of [] \<Rightarrow> fallback | sequence # _ \<Rightarrow> sequence)"

text \<open>The multiset a tracker stands for: no count is zero.\<close>

definition tracks :: "SnapshotTracker \<Rightarrow> SequenceNumber multiset \<Rightarrow> bool" where
  "tracks t live \<longleftrightarrow> (\<forall>s. Mapping.lookup (tr_counts t) s =
     (if count live s = 0 then None else Some (count live s)))"

lemma tracks_keys: "tracks t live \<Longrightarrow> Mapping.keys (tr_counts t) = set_mset live"
  by (auto simp: tracks_def keys_is_none_rep Option.is_none_def split: if_splits)

lemma lookup_delete_if:
  "Mapping.lookup (Mapping.delete k m) k' = (if k = k' then None else Mapping.lookup m k')"
  by (simp add: lookup_delete lookup_delete_neq)

lemma tracks_new: "tracks SnapshotTracker_new {#}"
  by (simp add: tracks_def SnapshotTracker_new_def)

lemma tracks_add: "tracks t live \<Longrightarrow> tracks (SnapshotTracker_add s t) (add_mset s live)"
  by (auto simp: tracks_def SnapshotTracker_add_def Let_def lookup_update' count_eq_zero_iff)

lemma tracks_remove:
  assumes "tracks t live" "s \<in># live"
  shows "tracks (SnapshotTracker_remove s t) (live - {#s#})"
proof -
  have l: "Mapping.lookup (tr_counts t) s = Some (count live s)" "0 < count live s"
    using assms by (auto simp: tracks_def)
  show ?thesis
    using assms(1) l
    by (auto simp: tracks_def SnapshotTracker_remove_def lookup_update' lookup_delete_if count_eq_zero_iff split: if_splits)
qed

lemma tracks_oldest:
  assumes "tracks t live"
  shows "SnapshotTracker_oldest fallback t = (if live = {#} then fallback else Min_mset live)"
proof -
  have keys: "Mapping.ordered_keys (tr_counts t) = sorted_list_of_set (set_mset live)"
    using tracks_keys [OF assms] by (simp add: ordered_keys_def)
  show ?thesis
  proof (cases "live = {#}")
    case False
    then have "sorted_list_of_set (set_mset live) =
        Min (set_mset live) # sorted_list_of_set (set_mset live - {Min (set_mset live)})"
      by (intro sorted_list_of_set_nonempty) auto
    then show ?thesis using False by (simp add: SnapshotTracker_oldest_def keys)
  qed (simp add: SnapshotTracker_oldest_def keys)
qed

text \<open>Sequences of registrations and releases in which only live snapshots are released.\<close>

datatype tracker_op = Acquire SequenceNumber | Release SequenceNumber

fun tracker_run :: "tracker_op list \<Rightarrow> SnapshotTracker \<Rightarrow> SnapshotTracker" where
  "tracker_run [] t = t"
| "tracker_run (Acquire s # ops) t = tracker_run ops (SnapshotTracker_add s t)"
| "tracker_run (Release s # ops) t = tracker_run ops (SnapshotTracker_remove s t)"

fun live_after :: "tracker_op list \<Rightarrow> SequenceNumber multiset \<Rightarrow> SequenceNumber multiset option" where
  "live_after [] live = Some live"
| "live_after (Acquire s # ops) live = live_after ops (add_mset s live)"
| "live_after (Release s # ops) live = (if s \<in># live then live_after ops (live - {#s#}) else None)"

lemma tracker_run_tracks:
  "tracks t live \<Longrightarrow> live_after ops live = Some live' \<Longrightarrow> tracks (tracker_run ops t) live'"
  by (induction ops t arbitrary: live rule: tracker_run.induct)
    (auto split: if_splits dest: tracks_add tracks_remove)

text \<open>
  C17. The tracker refines a multiset of sequence numbers: after any sequence of registrations
  and releases of live snapshots, \<open>oldest\<close> is the least sequence number of a snapshot that is
  still live, and the fallback exactly when there is none.
\<close>

theorem snapshot_tracker_oldest:
  assumes "live_after ops {#} = Some live"
  shows "SnapshotTracker_oldest fallback (tracker_run ops SnapshotTracker_new) =
    (if live = {#} then fallback else Min_mset live)"
  using tracker_run_tracks [OF tracks_new assms] by (rule tracks_oldest)

theorem snapshot_tracker_oldest_witness:
  "SnapshotTracker_oldest 9
     (tracker_run [Acquire 4, Acquire 2, Acquire 4, Release 2, Release 4] SnapshotTracker_new) = 4"
  using snapshot_tracker_oldest [of "[Acquire 4, Acquire 2, Acquire 4, Release 2, Release 4]" "{#4#}" 9]
  by simp

end
