(* ===== verification/Arena.thy ===== *)
theory Arena
  imports Main
begin

text \<open>
  \<^verbatim>\<open>src/util/arena.h\<close> and \<^verbatim>\<open>arena.cc\<close>: the bump allocator of a memtable.  Addresses and sizes
  are natural numbers, address 0 is the null pointer.  The allocation of a block
  (\<^verbatim>\<open>new char[n]\<close>) is a parameter: a function of the live blocks and the requested size.
  \<open>good_new\<close> states what C++ promises of it: a non-null address, aligned for every standard
  object, of memory that overlaps no live block.
\<close>

type_synonym region = "nat \<times> nat"
type_synonym block_allocator = "region list \<Rightarrow> nat \<Rightarrow> nat"

record Arena =
  ar_block_size :: nat
  ar_blocks :: "region list"
  ar_current :: nat
  ar_remaining :: nat
  ar_memory_usage :: nat

definition kDefaultBlockSize :: nat where
  "kDefaultBlockSize = 4096"

definition kObjectAlignment :: nat where
  "kObjectAlignment = 16"

definition alignmentSlop :: "nat \<Rightarrow> nat" where
  "alignmentSlop address =
     (let remainder = address mod kObjectAlignment
      in if remainder = 0 then 0 else kObjectAlignment - remainder)"

definition Arena_new :: "nat \<Rightarrow> Arena" where
  "Arena_new block_size =
     \<lparr>ar_block_size = block_size, ar_blocks = [], ar_current = 0, ar_remaining = 0,
      ar_memory_usage = 0\<rparr>"

definition Arena_allocateBlock :: "block_allocator \<Rightarrow> nat \<Rightarrow> Arena \<Rightarrow> Arena" where
  "Arena_allocateBlock new_block bytes a =
     (let block = new_block (ar_blocks a) bytes
      in a\<lparr>ar_current := block, ar_remaining := bytes,
           ar_blocks := ar_blocks a @ [(block, bytes)],
           ar_memory_usage := ar_memory_usage a + bytes\<rparr>)"

definition Arena_allocate :: "block_allocator \<Rightarrow> nat \<Rightarrow> Arena \<Rightarrow> nat \<times> Arena" where
  "Arena_allocate new_block bytes a =
     (if bytes = 0 then (0, a)
      else let a = (if bytes > ar_remaining a
                    then Arena_allocateBlock new_block
                           (if bytes > ar_block_size a then bytes else ar_block_size a) a
                    else a);
               result = ar_current a
        in (result, a\<lparr>ar_current := ar_current a + bytes,
                      ar_remaining := ar_remaining a - bytes\<rparr>))"

definition Arena_allocateAligned :: "block_allocator \<Rightarrow> nat \<Rightarrow> Arena \<Rightarrow> nat \<times> Arena" where
  "Arena_allocateAligned new_block bytes a =
     (if bytes = 0 then (0, a)
      else let slop = (if ar_current a = 0 then 0 else alignmentSlop (ar_current a));
               (slop, a) =
                 (if slop > ar_remaining a \<or> bytes > ar_remaining a - slop
                  then let a = Arena_allocateBlock new_block
                                 (if bytes > ar_block_size a then bytes else ar_block_size a) a
                       in (alignmentSlop (ar_current a), a)
                  else (slop, a));
               result = ar_current a + slop
        in (result, a\<lparr>ar_current := ar_current a + (slop + bytes),
                      ar_remaining := ar_remaining a - (slop + bytes)\<rparr>))"

definition Arena_memoryUsage :: "Arena \<Rightarrow> nat" where
  "Arena_memoryUsage a = ar_memory_usage a"

definition disj :: "region \<Rightarrow> region \<Rightarrow> bool" where
  "disj r s \<longleftrightarrow> fst r + snd r \<le> fst s \<or> fst s + snd s \<le> fst r"

definition within :: "region \<Rightarrow> region \<Rightarrow> bool" where
  "within r s \<longleftrightarrow> fst s \<le> fst r \<and> fst r + snd r \<le> fst s + snd s"

definition good_new :: "block_allocator \<Rightarrow> bool" where
  "good_new new_block \<longleftrightarrow> (\<forall>blocks bytes. 0 < bytes \<longrightarrow>
     0 < new_block blocks bytes \<and> new_block blocks bytes mod kObjectAlignment = 0 \<and>
     (\<forall>b \<in> set blocks. disj b (new_block blocks bytes, bytes)))"

text \<open>An allocator of this kind: the first aligned address after all live blocks.\<close>

definition next_block :: block_allocator where
  "next_block blocks bytes =
     (foldr (\<lambda>b top. max (fst b + snd b) top) blocks 0 div 16 + 1) * 16"

text \<open>A sequence of allocations with the regions it hands out, the latest first.\<close>

datatype arena_op = Allocate nat | AllocateAligned nat

fun arena_step :: "block_allocator \<Rightarrow> arena_op \<Rightarrow> region list \<times> Arena \<Rightarrow> region list \<times> Arena" where
  "arena_step nb (Allocate n) (rs, a) =
     (case Arena_allocate nb n a of (p, a') \<Rightarrow> ((p, n) # rs, a'))"
| "arena_step nb (AllocateAligned n) (rs, a) =
     (case Arena_allocateAligned nb n a of (p, a') \<Rightarrow> ((p, n) # rs, a'))"

definition arena_run :: "block_allocator \<Rightarrow> arena_op list \<Rightarrow> Arena \<Rightarrow> region list \<times> Arena" where
  "arena_run nb ops a = fold (arena_step nb) ops ([], a)"

definition pairwise_disj :: "region list \<Rightarrow> bool" where
  "pairwise_disj rs \<longleftrightarrow> sorted_wrt disj (filter (\<lambda>r. 0 < snd r) rs)"

text \<open>
  The invariant: the live blocks are disjoint and amount to the memory usage, the free rest
  of the current block lies within the last block, and every region handed out lies within a
  block and overlaps neither another one nor the free rest.
\<close>

definition arena_inv :: "region list \<Rightarrow> Arena \<Rightarrow> bool" where
  "arena_inv rs a \<longleftrightarrow>
     0 < ar_block_size a \<and> sorted_wrt disj (ar_blocks a) \<and>
     ar_memory_usage a = sum_list (map snd (ar_blocks a)) \<and>
     (if ar_blocks a = [] then ar_current a = 0 \<and> ar_remaining a = 0
      else 0 < ar_current a \<and> within (ar_current a, ar_remaining a) (last (ar_blocks a))) \<and>
     pairwise_disj rs \<and>
     (\<forall>r \<in> set rs. 0 < snd r \<longrightarrow> 0 < fst r \<and>
        (\<exists>b \<in> set (ar_blocks a). within r b) \<and> disj r (ar_current a, ar_remaining a))"

subsection \<open>Blocks\<close>

lemma next_block_above: "(b :: region) \<in> set blocks \<Longrightarrow>
    fst b + snd b \<le> foldr (\<lambda>b top. max (fst b + snd b) top) blocks 0"
  by (induction blocks) (auto simp: le_max_iff_disj)

lemma good_next_block: "good_new next_block"
proof -
  have "n < (n div 16 + 1) * 16" for n :: nat by presburger
  then have "disj b (next_block blocks bytes, bytes)" if "b \<in> set blocks" for b blocks bytes
    using next_block_above [OF that] unfolding disj_def next_block_def fst_conv snd_conv
    by (meson less_imp_le le_trans)
  then show ?thesis by (auto simp: good_new_def next_block_def kObjectAlignment_def)
qed

lemma within_disj: "within r b \<Longrightarrow> disj b s \<Longrightarrow> disj r s"
  by (auto simp: within_def disj_def)

lemma disj_sym: "disj r s \<longleftrightarrow> disj s r"
  by (auto simp: disj_def)

lemma alignmentSlop_aligned: "(p + alignmentSlop p) mod kObjectAlignment = 0"
  unfolding alignmentSlop_def Let_def kObjectAlignment_def
  by (cases "p mod 16 = 0") (simp_all, presburger)

lemma allocateBlock_inv:
  assumes "good_new nb" "arena_inv rs a" "0 < n"
  shows "arena_inv rs (Arena_allocateBlock nb n a)"
    and "ar_remaining (Arena_allocateBlock nb n a) = n"
    and "alignmentSlop (ar_current (Arena_allocateBlock nb n a)) = 0"
proof -
  let ?p = "nb (ar_blocks a) n"
  have p: "0 < ?p" "?p mod kObjectAlignment = 0" "\<forall>b \<in> set (ar_blocks a). disj b (?p, n)"
    using assms(1,3) unfolding good_new_def by blast+
  have "disj r (?p, n)" if "r \<in> set rs" "0 < snd r" for r
    using that assms(2) p(3) within_disj unfolding arena_inv_def by blast
  then show "arena_inv rs (Arena_allocateBlock nb n a)"
    using assms(2) p
    by (auto simp: arena_inv_def Arena_allocateBlock_def Let_def within_def sorted_wrt_append)
  show "ar_remaining (Arena_allocateBlock nb n a) = n"
    "alignmentSlop (ar_current (Arena_allocateBlock nb n a)) = 0"
    using p(2) by (simp_all add: Arena_allocateBlock_def Let_def alignmentSlop_def)
qed

text \<open>Cutting a region off the free rest, after \<open>slop\<close> bytes of padding.\<close>

lemma bump_inv:
  assumes "arena_inv rs a" "0 < n" "slop + n \<le> ar_remaining a"
  shows "arena_inv ((ar_current a + slop, n) # rs)
    (a\<lparr>ar_current := ar_current a + (slop + n), ar_remaining := ar_remaining a - (slop + n)\<rparr>)"
proof -
  have "ar_blocks a \<noteq> []" using assms by (auto simp: arena_inv_def)
  then show ?thesis
    using assms
    by (auto simp: arena_inv_def pairwise_disj_def disj_def within_def intro!: bexI [of _ "last (ar_blocks a)"])
qed

lemma arena_inv_zero: "arena_inv rs a \<Longrightarrow> arena_inv ((p, 0) # rs) a"
  by (simp add: arena_inv_def pairwise_disj_def)

lemma arena_inv_fresh:
  assumes "arena_inv ((p, n) # rs) a" "0 < n"
  shows "p \<noteq> 0" and "(q, m) \<in> set rs \<Longrightarrow> 0 < m \<Longrightarrow> q \<noteq> p"
proof -
  show "p \<noteq> 0" using assms by (simp add: arena_inv_def)
  assume "(q, m) \<in> set rs" "0 < m"
  then have "disj (p, n) (q, m)" using assms by (auto simp: arena_inv_def pairwise_disj_def)
  then show "q \<noteq> p" using assms(2) \<open>0 < m\<close> by (auto simp: disj_def)
qed

lemma allocate_inv:
  assumes "good_new nb" "arena_inv rs a" "Arena_allocate nb n a = (p, a')"
  shows "arena_inv ((p, n) # rs) a'"
proof (cases "n = 0")
  case True
  then show ?thesis using assms by (simp add: Arena_allocate_def arena_inv_zero)
next
  case False
  define m where "m = (if n > ar_block_size a then n else ar_block_size a)"
  define b where "b = (if n > ar_remaining a then Arena_allocateBlock nb m a else a)"
  have "0 < m" "n \<le> m" using False by (auto simp: m_def)
  then have "arena_inv rs b" "n \<le> ar_remaining b"
    using allocateBlock_inv(1,2) [OF assms(1,2), of m] assms(2) by (auto simp: b_def)
  moreover have "p = ar_current b"
    "a' = b\<lparr>ar_current := ar_current b + n, ar_remaining := ar_remaining b - n\<rparr>"
    using assms(3) False by (auto simp: Arena_allocate_def Let_def b_def m_def)
  ultimately show ?thesis using bump_inv [of rs b n 0] False by simp
qed

lemma allocateAligned_inv:
  assumes "good_new nb" "arena_inv rs a" "Arena_allocateAligned nb n a = (p, a')"
  shows "arena_inv ((p, n) # rs) a' \<and> p mod kObjectAlignment = 0"
proof (cases "n = 0")
  case True
  then show ?thesis using assms by (simp add: Arena_allocateAligned_def arena_inv_zero)
next
  case False
  define m where "m = (if n > ar_block_size a then n else ar_block_size a)"
  define s where "s = (if ar_current a = 0 then 0 else alignmentSlop (ar_current a))"
  define full where "full = (s > ar_remaining a \<or> n > ar_remaining a - s)"
  define b where "b = (if full then Arena_allocateBlock nb m a else a)"
  define t where "t = (if full then alignmentSlop (ar_current b) else s)"
  have m: "0 < m" "n \<le> m" using False by (auto simp: m_def)
  note blk = allocateBlock_inv [OF assms(1,2) m(1)]
  have "arena_inv rs b" "t + n \<le> ar_remaining b"
    using blk m assms(2) by (auto simp: b_def t_def full_def)
  moreover have "p = ar_current b + t"
    "a' = b\<lparr>ar_current := ar_current b + (t + n), ar_remaining := ar_remaining b - (t + n)\<rparr>"
    using assms(3) False
    unfolding Arena_allocateAligned_def Let_def b_def t_def full_def s_def m_def
    by (auto split: if_splits)
  moreover have "t = alignmentSlop (ar_current b)"
    by (simp add: t_def b_def s_def alignmentSlop_def Let_def)
  ultimately show ?thesis
    using bump_inv [of rs b n t] False alignmentSlop_aligned [of "ar_current b"] by simp
qed

lemma arena_step_inv:
  assumes "good_new nb" "arena_inv rs a" "arena_step nb op (rs, a) = (rs', a')"
  shows "arena_inv rs' a'"
  using assms by (cases op) (auto split: prod.splits dest: allocate_inv allocateAligned_inv)

lemma arena_run_inv:
  assumes "good_new nb" "arena_inv rs a" "fold (arena_step nb) ops (rs, a) = (rs', a')"
  shows "arena_inv rs' a'"
  using assms(2,3)
proof (induction ops arbitrary: rs a)
  case (Cons op ops)
  obtain rs1 a1 where st: "arena_step nb op (rs, a) = (rs1, a1)" by fastforce
  then show ?case
    using Cons.IH [OF arena_step_inv [OF assms(1) Cons.prems(1) st]] Cons.prems(2) by simp
qed simp

lemma arena_inv_new: "0 < n \<Longrightarrow> arena_inv [] (Arena_new n)"
  by (simp add: arena_inv_def Arena_new_def pairwise_disj_def)

subsection \<open>Properties\<close>

text \<open>
  C30. Memory safety of the arena. Whatever allocations a fresh arena serves, the non-empty
  regions it returns are not null, lie within the blocks obtained from the system and are
  pairwise disjoint, and the reported memory usage is the total size of these blocks.
\<close>

theorem arena_regions_disjoint:
  assumes "good_new new_block" and "0 < block_size"
    and "arena_run new_block ops (Arena_new block_size) = (regions, a)"
  shows "pairwise_disj regions \<and>
    (\<forall>r \<in> set regions. 0 < snd r \<longrightarrow> 0 < fst r \<and> (\<exists>b \<in> set (ar_blocks a). within r b)) \<and>
    Arena_memoryUsage a = sum_list (map snd (ar_blocks a))"
  using arena_run_inv [OF assms(1) arena_inv_new [OF assms(2)]] assms(3)
  by (auto simp: arena_run_def arena_inv_def Arena_memoryUsage_def)

theorem arena_regions_disjoint_witness:
  "pairwise_disj (fst (arena_run next_block [Allocate 5, AllocateAligned 24, Allocate 5000]
     (Arena_new kDefaultBlockSize)))"
  using arena_regions_disjoint [OF good_next_block, of kDefaultBlockSize
      "[Allocate 5, AllocateAligned 24, Allocate 5000]"]
  by (metis kDefaultBlockSize_def prod.collapse zero_less_numeral)

text \<open>
  Aligned allocation: at any point of a run, \<open>allocateAligned\<close> returns an address that
  is a multiple of the alignment of every standard object.
\<close>

lemma arena_aligned:
  assumes "good_new new_block" and "0 < block_size"
    and "arena_run new_block ops (Arena_new block_size) = (regions, a)"
  shows "fst (Arena_allocateAligned new_block n a) mod kObjectAlignment = 0"
  using arena_run_inv [OF assms(1) arena_inv_new [OF assms(2)]] assms(1,3)
    allocateAligned_inv [of new_block regions a n]
  by (metis arena_run_def prod.collapse)


end
