(* ===== verification/SkipList.thy ===== *)
theory SkipList
  imports Prelude Arena "HOL-Library.Monad_Syntax"
begin

text \<open>
  \<^verbatim>\<open>src/db/skiplist.h\<close>: the insert-only skip list of a memtable.  Nodes live in a store
  indexed by their address in the arena, address 0 is the null pointer, and a node carries
  its key and its links, one per level.  Reading or writing a link that does not exist is
  undefined behaviour in the code and \<open>None\<close> in the model, and so is a search that never
  ends; the lemmas show that neither happens.  The list is generic in the comparator: the
  locale \<open>comparator\<close> is the contract the template relies on, and within it the invariant
  (each level is the chain of the nodes that reach it, in key order) is shown to be kept by
  \<open>insert\<close>, which refines the insertion into a sorted list.
\<close>

record 'k Node =
  nd_key :: 'k
  nd_next :: "nat list"

type_synonym 'k store = "nat \<rightharpoonup> 'k Node"

record 'k SkipList =
  sl_nodes :: "'k store"
  sl_head :: nat
  sl_max_height :: nat
  sl_random_state :: u32

definition kMaxHeight :: nat where
  "kMaxHeight = 12"

definition nextAt :: "'k store \<Rightarrow> nat \<Rightarrow> nat \<Rightarrow> nat option" where
  "nextAt nodes p level =
     (case nodes p of
        None \<Rightarrow> None
      | Some node \<Rightarrow> if level < length (nd_next node) then Some (nd_next node ! level) else None)"

definition setNext :: "nat \<Rightarrow> nat \<Rightarrow> nat \<Rightarrow> 'k store \<Rightarrow> 'k store option" where
  "setNext p level target nodes =
     (case nodes p of
        None \<Rightarrow> None
      | Some node \<Rightarrow>
          if level < length (nd_next node)
          then Some (nodes(p \<mapsto> node\<lparr>nd_next := (nd_next node)[level := target]\<rparr>))
          else None)"

definition links_offset :: nat where
  "links_offset = (16 + 8 - 1) div 8 * 8"

definition newNode ::
  "block_allocator \<Rightarrow> 'k \<Rightarrow> nat \<Rightarrow> 'k store \<Rightarrow> Arena \<Rightarrow> nat \<times> 'k store \<times> Arena" where
  "newNode new_block key height nodes arena =
     (let bytes = links_offset + 8 * height;
          (memory, arena) = Arena_allocateAligned new_block bytes arena
      in (memory, nodes(memory \<mapsto> \<lparr>nd_key = key, nd_next = replicate height 0\<rparr>), arena))"

definition SkipList_new :: "block_allocator \<Rightarrow> 'k \<Rightarrow> Arena \<Rightarrow> 'k SkipList \<times> Arena" where
  "SkipList_new new_block nil_key arena =
     (case newNode new_block nil_key kMaxHeight Map.empty arena of (head, nodes, arena) \<Rightarrow>
        (\<lparr>sl_nodes = nodes, sl_head = head, sl_max_height = 1, sl_random_state = 0x9e3779b9\<rparr>,
         arena))"

definition keyIsAfterNode :: "('k \<Rightarrow> 'k \<Rightarrow> int) \<Rightarrow> 'k store \<Rightarrow> 'k \<Rightarrow> nat \<Rightarrow> bool option" where
  "keyIsAfterNode cmp nodes key node =
     (if node = 0 then Some False
      else case nodes node of None \<Rightarrow> None | Some n \<Rightarrow> Some (cmp (nd_key n) key < 0))"

partial_function (option) find_loop ::
  "('k \<Rightarrow> 'k \<Rightarrow> int) \<Rightarrow> 'k store \<Rightarrow> 'k \<Rightarrow> nat \<Rightarrow> nat \<Rightarrow> nat list \<Rightarrow> (nat \<times> nat list) option"
where
  [code]: "find_loop cmp nodes target node level previous =
     do {
       next \<leftarrow> nextAt nodes node level;
       after \<leftarrow> keyIsAfterNode cmp nodes target next;
       if after then find_loop cmp nodes target next level previous
       else if level = 0 then Some (next, previous[level := node])
       else find_loop cmp nodes target node (level - 1) (previous[level := node])
     }"

definition findGreaterOrEqual ::
  "('k \<Rightarrow> 'k \<Rightarrow> int) \<Rightarrow> 'k SkipList \<Rightarrow> 'k \<Rightarrow> (nat \<times> nat list) option" where
  "findGreaterOrEqual cmp list target =
     find_loop cmp (sl_nodes list) target (sl_head list) (sl_max_height list - 1)
       (replicate kMaxHeight 0)"

definition nextRandom :: "u32 \<Rightarrow> u32" where
  "nextRandom random_state =
     (let random_state = random_state XOR push_bit 13 random_state;
          random_state = random_state XOR drop_bit 17 random_state
      in random_state XOR push_bit 5 random_state)"

function randomHeight :: "nat \<Rightarrow> u32 \<Rightarrow> nat \<times> u32" where
  "randomHeight height random_state =
     (if height < kMaxHeight
      then let random_state = nextRandom random_state
        in if random_state AND 3 = 0 then randomHeight (height + 1) random_state
           else (height, random_state)
      else (height, random_state))"
  by pat_completeness auto
termination by (relation "measure (\<lambda>(height, r). kMaxHeight - height)") auto

fun link_levels :: "nat \<Rightarrow> nat list \<Rightarrow> nat list \<Rightarrow> 'k store \<Rightarrow> 'k store option" where
  "link_levels node previous [] nodes = Some nodes"
| "link_levels node previous (level # levels) nodes =
     do {
       next \<leftarrow> nextAt nodes (previous ! level) level;
       nodes \<leftarrow> setNext node level next nodes;
       nodes \<leftarrow> setNext (previous ! level) level node nodes;
       link_levels node previous levels nodes
     }"

definition SkipList_insert ::
  "block_allocator \<Rightarrow> ('k \<Rightarrow> 'k \<Rightarrow> int) \<Rightarrow> 'k \<Rightarrow> 'k SkipList \<Rightarrow> Arena \<Rightarrow>
     ('k SkipList \<times> Arena) option" where
  "SkipList_insert new_block cmp key list arena =
     do {
       (_, previous) \<leftarrow> findGreaterOrEqual cmp list key;
       let (height, random_state) = randomHeight 1 (sl_random_state list);
       let current_max_height = sl_max_height list;
       let previous =
         (if height > current_max_height
          then fold (\<lambda>level previous. previous[level := sl_head list])
                 [current_max_height..<height] previous
          else previous);
       let (node, nodes, arena) = newNode new_block key height (sl_nodes list) arena;
       nodes \<leftarrow> link_levels node previous [0..<height] nodes;
       Some (list\<lparr>sl_nodes := nodes, sl_random_state := random_state,
                  sl_max_height := (if height > current_max_height then height
                                    else current_max_height)\<rparr>, arena)
     }"

definition SkipList_contains :: "('k \<Rightarrow> 'k \<Rightarrow> int) \<Rightarrow> 'k SkipList \<Rightarrow> 'k \<Rightarrow> bool option" where
  "SkipList_contains cmp list key =
     do {
       (node, _) \<leftarrow> findGreaterOrEqual cmp list key;
       if node = 0 then Some False
       else do {
         n \<leftarrow> sl_nodes list node;
         Some (cmp key (nd_key n) = 0)
       }
     }"

text \<open>The iterator is the address of its node; 0 when it is not valid.\<close>

definition SkipIter_valid :: "nat \<Rightarrow> bool" where
  "SkipIter_valid node = (node \<noteq> 0)"

definition SkipIter_key :: "'k SkipList \<Rightarrow> nat \<Rightarrow> 'k option" where
  "SkipIter_key list node = map_option nd_key (sl_nodes list node)"

definition SkipIter_next :: "'k SkipList \<Rightarrow> nat \<Rightarrow> nat option" where
  "SkipIter_next list node = nextAt (sl_nodes list) node 0"

definition SkipIter_seek :: "('k \<Rightarrow> 'k \<Rightarrow> int) \<Rightarrow> 'k SkipList \<Rightarrow> 'k \<Rightarrow> nat option" where
  "SkipIter_seek cmp list target = map_option fst (findGreaterOrEqual cmp list target)"

definition SkipIter_seekToFirst :: "'k SkipList \<Rightarrow> nat option" where
  "SkipIter_seekToFirst list = nextAt (sl_nodes list) (sl_head list) 0"

subsection \<open>The invariant\<close>

text \<open>\<open>chain nx p qs\<close>: following \<open>nx\<close> from \<open>p\<close> visits exactly \<open>qs\<close>.\<close>

fun chain :: "(nat \<Rightarrow> nat option) \<Rightarrow> nat \<Rightarrow> nat list \<Rightarrow> bool" where
  "chain nx p [] \<longleftrightarrow> nx p = Some 0"
| "chain nx p (q # qs) \<longleftrightarrow> nx p = Some q \<and> chain nx q qs"

definition height_of :: "'k store \<Rightarrow> nat \<Rightarrow> nat" where
  "height_of nodes p = (case nodes p of None \<Rightarrow> 0 | Some n \<Rightarrow> length (nd_next n))"

definition key_of :: "'k store \<Rightarrow> nat \<Rightarrow> 'k" where
  "key_of nodes p = nd_key (the (nodes p))"

definition at_level :: "'k store \<Rightarrow> nat \<Rightarrow> nat list \<Rightarrow> nat list" where
  "at_level nodes l ps = filter (\<lambda>p. l < height_of nodes p) ps"

definition skip_shape :: "'k SkipList \<Rightarrow> nat list \<Rightarrow> bool" where
  "skip_shape list ns \<longleftrightarrow>
     distinct (sl_head list # ns) \<and> 0 \<notin> set (sl_head list # ns) \<and>
     height_of (sl_nodes list) (sl_head list) = kMaxHeight \<and>
     1 \<le> sl_max_height list \<and> sl_max_height list \<le> kMaxHeight \<and>
     (\<forall>p \<in> set ns. 1 \<le> height_of (sl_nodes list) p \<and>
        height_of (sl_nodes list) p \<le> sl_max_height list) \<and>
     (\<forall>l < kMaxHeight. chain (\<lambda>p. nextAt (sl_nodes list) p l) (sl_head list)
        (at_level (sl_nodes list) l ns))"

definition skip_keys :: "'k SkipList \<Rightarrow> nat list \<Rightarrow> 'k list" where
  "skip_keys list ns = map (key_of (sl_nodes list)) ns"

lemma height_pos_Some: "0 < height_of nodes p \<Longrightarrow> \<exists>n. nodes p = Some n"
  by (auto simp: height_of_def split: option.splits)

lemma shape_pos: "skip_shape list ns \<Longrightarrow> p \<in> set ns \<Longrightarrow> 0 < height_of (sl_nodes list) p"
  by (auto simp: skip_shape_def Suc_le_eq)

lemma at_level_append [simp]: "at_level nodes l (xs @ ys) = at_level nodes l xs @ at_level nodes l ys"
  by (simp add: at_level_def)

lemma chain_append: "chain nx p (xs @ ys) \<Longrightarrow> chain nx (last (p # xs)) ys"
  by (induction xs arbitrary: p) auto

lemma chain_next: "chain nx p qs \<Longrightarrow> nx p = Some (case qs of [] \<Rightarrow> 0 | q # _ \<Rightarrow> q)"
  by (cases qs) auto

lemma chain_cong:
  "chain nx p qs \<Longrightarrow> (\<And>q. q \<in> set (p # qs) \<Longrightarrow> ny q = nx q) \<Longrightarrow> chain ny p qs"
  by (induction qs arbitrary: p) auto

text \<open>Linking a new node behind the last of \<open>xs\<close>.\<close>

lemma chain_insert:
  assumes "chain nx x (xs @ ys)" "distinct (x # xs @ ys)" "p \<notin> set (x # xs @ ys)"
    and "ny p = nx (last (x # xs))" "ny (last (x # xs)) = Some p"
    and "\<And>q. q \<noteq> p \<Longrightarrow> q \<noteq> last (x # xs) \<Longrightarrow> ny q = nx q"
  shows "chain ny x (xs @ p # ys)"
  using assms
proof (induction xs arbitrary: x)
  case Nil
  have "chain nx x ys" using Nil.prems(1) by simp
  moreover have "ny q = nx q" if "q \<in> set ys" for q
    using that Nil.prems(2,3) by (intro Nil.prems(6)) auto
  ultimately have "chain ny p ys"
    using Nil.prems(4) by (cases ys) (auto elim!: chain_cong)
  then show ?case using Nil.prems by simp
next
  case (Cons z xs)
  then have "chain ny z (xs @ p # ys)" by (intro Cons.IH) auto
  moreover have "ny x = nx x"
    using Cons.prems by (intro Cons.prems(6)) auto
  ultimately show ?case using Cons.prems(1) by simp
qed

text \<open>The address of the node at a position; 0 past the end.\<close>

definition node_at :: "nat list \<Rightarrow> nat \<Rightarrow> nat" where
  "node_at ns i = (if i < length ns then ns ! i else 0)"

lemma chain_nth: "chain nx p qs \<Longrightarrow> i < length qs \<Longrightarrow> nx (qs ! i) = Some (node_at qs (Suc i))"
proof (induction qs arbitrary: p i)
  case (Cons q qs)
  show ?case
  proof (cases i)
    case 0
    then show ?thesis using Cons.prems chain_next [of nx q qs] by (auto simp: node_at_def split: list.splits)
  next
    case (Suc j)
    then show ?thesis using Cons.prems Cons.IH [of q j] by (simp add: node_at_def)
  qed
qed simp

lemma bottom_chain:
  assumes "skip_shape list ns"
  shows "chain (\<lambda>p. nextAt (sl_nodes list) p 0) (sl_head list) ns"
proof -
  have "at_level (sl_nodes list) 0 ns = ns" using shape_pos [OF assms] by (simp add: at_level_def)
  then show ?thesis using assms by (auto simp: skip_shape_def kMaxHeight_def dest: spec [of _ 0])
qed

lemma SkipIter_seekToFirst_correct:
  "skip_shape list ns \<Longrightarrow> SkipIter_seekToFirst list = Some (node_at ns 0)"
  using chain_next [OF bottom_chain, of list ns]
  by (auto simp: SkipIter_seekToFirst_def node_at_def split: list.splits)

lemma SkipIter_next_correct:
  "skip_shape list ns \<Longrightarrow> i < length ns \<Longrightarrow> SkipIter_next list (ns ! i) = Some (node_at ns (Suc i))"
  unfolding SkipIter_next_def by (rule chain_nth [OF bottom_chain])

lemma SkipIter_key_correct:
  assumes "skip_shape list ns" "i < length ns"
  shows "SkipIter_key list (ns ! i) = Some (skip_keys list ns ! i)"
  using height_pos_Some [OF shape_pos [OF assms(1)], of "ns ! i"] assms(2)
  by (auto simp: SkipIter_key_def skip_keys_def key_of_def)

lemma SkipIter_valid_correct:
  assumes "skip_shape list ns"
  shows "SkipIter_valid (node_at ns i) \<longleftrightarrow> i < length ns"
proof -
  have "0 \<notin> set ns" using assms by (simp add: skip_shape_def)
  then have "i < length ns \<Longrightarrow> ns ! i \<noteq> 0" by (metis nth_mem)
  then show ?thesis by (simp add: SkipIter_valid_def node_at_def)
qed

text \<open>What a node keeps when links are written: its height and its key.\<close>

definition same_nodes :: "'k store \<Rightarrow> 'k store \<Rightarrow> bool" where
  "same_nodes nodes nodes' \<longleftrightarrow> (\<forall>p. height_of nodes' p = height_of nodes p \<and>
     map_option nd_key (nodes' p) = map_option nd_key (nodes p))"

lemma same_nodes_trans: "same_nodes a b \<Longrightarrow> same_nodes b c \<Longrightarrow> same_nodes a c"
  by (simp add: same_nodes_def)

lemma same_nodesD:
  assumes "same_nodes nodes nodes'"
  shows "height_of nodes' p = height_of nodes p" "dom nodes' = dom nodes"
    "p \<in> dom nodes \<Longrightarrow> key_of nodes' p = key_of nodes p"
proof -
  have k: "map_option nd_key (nodes' p) = map_option nd_key (nodes p)" for p
    using assms by (simp add: same_nodes_def)
  show "height_of nodes' p = height_of nodes p" using assms by (simp add: same_nodes_def)
  have "nodes' p = None \<longleftrightarrow> nodes p = None" for p
    using k [of p] by (cases "nodes p"; cases "nodes' p") auto
  then show "dom nodes' = dom nodes" by (simp add: dom_def)
  show "key_of nodes' p = key_of nodes p" if "p \<in> dom nodes"
    using that k [of p] by (cases "nodes p"; cases "nodes' p") (auto simp: key_of_def)
qed

lemma setNext_effect:
  assumes "l < height_of nodes p"
  shows "\<exists>nodes'. setNext p l t nodes = Some nodes' \<and> same_nodes nodes nodes' \<and>
    (\<forall>q m. nextAt nodes' q m = (if q = p \<and> m = l then Some t else nextAt nodes q m))"
  using assms
  by (auto simp: setNext_def height_of_def same_nodes_def nextAt_def split: option.splits)

lemma link_levels_effect:
  assumes "distinct levels"
    and "\<forall>l \<in> set levels. l < height_of nodes node"
    and "\<forall>l \<in> set levels. prev ! l \<noteq> node \<and> l < height_of nodes (prev ! l)"
  shows "\<exists>nodes'. link_levels node prev levels nodes = Some nodes' \<and> same_nodes nodes nodes' \<and>
    (\<forall>q l. nextAt nodes' q l =
       (if l \<in> set levels then if q = node then nextAt nodes (prev ! l) l
          else if q = prev ! l then Some node else nextAt nodes q l
        else nextAt nodes q l))"
  using assms
proof (induction levels arbitrary: nodes)
  case Nil
  then show ?case by (auto simp: same_nodes_def)
next
  case (Cons l levels)
  obtain t where t: "nextAt nodes (prev ! l) l = Some t"
    using Cons.prems(3) by (auto simp: nextAt_def height_of_def split: option.splits)
  obtain n1 where n1: "setNext node l t nodes = Some n1" "same_nodes nodes n1"
    "\<And>q m. nextAt n1 q m = (if q = node \<and> m = l then Some t else nextAt nodes q m)"
    using setNext_effect [of l nodes node t] Cons.prems(2) by auto
  obtain n2 where n2: "setNext (prev ! l) l node n1 = Some n2" "same_nodes n1 n2"
    "\<And>q m. nextAt n2 q m = (if q = prev ! l \<and> m = l then Some node else nextAt n1 q m)"
    using setNext_effect [of l n1 "prev ! l" node] Cons.prems(3) same_nodesD(1) [OF n1(2)] by auto
  have s: "same_nodes nodes n2" using n1(2) n2(2) by (rule same_nodes_trans)
  obtain n3 where n3: "link_levels node prev levels n2 = Some n3" "same_nodes n2 n3"
    "\<And>q m. nextAt n3 q m = (if m \<in> set levels then if q = node then nextAt n2 (prev ! m) m
          else if q = prev ! m then Some node else nextAt n2 q m
        else nextAt n2 q m)"
    using Cons.IH [of n2] Cons.prems same_nodesD(1) [OF s] by auto
  have "link_levels node prev (l # levels) nodes = Some n3" using t n1(1) n2(1) n3(1) by simp
  moreover have "same_nodes nodes n3" using s n3(2) by (rule same_nodes_trans)
  moreover have "nextAt n3 q m = (if m \<in> set (l # levels) then
        if q = node then nextAt nodes (prev ! m) m
        else if q = prev ! m then Some node else nextAt nodes q m
      else nextAt nodes q m)" for q m
    using Cons.prems(1,3) t unfolding n3(3) n2(3) n1(3) by auto
  ultimately show ?case by blast
qed

lemma randomHeight_bounds:
  "h \<le> kMaxHeight \<Longrightarrow> randomHeight h r = (h', r') \<Longrightarrow> h \<le> h' \<and> h' \<le> kMaxHeight"
proof (induction h r rule: randomHeight.induct)
  case (1 h r)
  show ?case
    using 1 by (subst (asm) randomHeight.simps [of h r]) (fastforce simp: Let_def split: if_splits)
qed

declare randomHeight.simps [simp del]

lemma fold_set_levels:
  "b \<le> length prev \<Longrightarrow> fold (\<lambda>l prev. prev[l := h]) [a..<b] prev ! i =
     (if a \<le> i \<and> i < b then h else prev ! i)"
  "length (fold (\<lambda>l prev. prev[l := h]) [a..<b] prev) = length prev"
proof -
  show len: "length (fold (\<lambda>l prev. prev[l := h]) [a..<b] prev) = length prev" for b
    by (induction b) auto
  show "b \<le> length prev \<Longrightarrow> fold (\<lambda>l prev. prev[l := h]) [a..<b] prev ! i =
     (if a \<le> i \<and> i < b then h else prev ! i)"
    using len by (induction b) (auto simp: nth_list_update less_Suc_eq)
qed

text \<open>The nodes are at addresses the arena handed out.\<close>

definition skip_owned :: "region list \<Rightarrow> 'k SkipList \<Rightarrow> bool" where
  "skip_owned rs list \<longleftrightarrow> (\<forall>p \<in> dom (sl_nodes list). \<exists>n > 0. (p, n) \<in> set rs)"

lemma skip_owned_mono: "skip_owned rs list \<Longrightarrow> set rs \<subseteq> set rs' \<Longrightarrow> skip_owned rs' list"
  unfolding skip_owned_def by blast

lemma newNode_fresh:
  assumes "good_new nb" "arena_inv rs a" "newNode nb key h nodes a = (p, nodes', a')"
  shows "\<exists>n > 0. arena_inv ((p, n) # rs) a' \<and> nodes' = nodes(p \<mapsto> \<lparr>nd_key = key, nd_next = replicate h 0\<rparr>) \<and>
    p \<noteq> 0 \<and> (\<forall>q m. 0 < m \<longrightarrow> (q, m) \<in> set rs \<longrightarrow> q \<noteq> p)"
proof -
  let ?n = "links_offset + 8 * h"
  have n: "0 < ?n" by (simp add: links_offset_def)
  have al: "Arena_allocateAligned nb ?n a = (p, a')"
    and st: "nodes' = nodes(p \<mapsto> \<lparr>nd_key = key, nd_next = replicate h 0\<rparr>)"
    using assms(3) by (auto simp: newNode_def Let_def split: prod.splits)
  have inv: "arena_inv ((p, ?n) # rs) a'" using allocateAligned_inv [OF assms(1,2) al] by simp
  moreover note arena_inv_fresh [OF inv n]
  ultimately show ?thesis using n st by blast
qed

subsection \<open>Searching\<close>

locale comparator =
  fixes cmp :: "'k \<Rightarrow> 'k \<Rightarrow> int"
    and ok :: "'k \<Rightarrow> bool"
  assumes cmp_flip: "ok a \<Longrightarrow> ok b \<Longrightarrow> cmp a b < 0 \<longleftrightarrow> 0 < cmp b a"
    and cmp_trans: "ok a \<Longrightarrow> ok b \<Longrightarrow> ok c \<Longrightarrow> cmp a b < 0 \<Longrightarrow> cmp b c < 0 \<Longrightarrow> cmp a c < 0"
    and cmp_equiv: "ok a \<Longrightarrow> ok b \<Longrightarrow> ok c \<Longrightarrow> cmp a b < 0 \<Longrightarrow> cmp b c = 0 \<Longrightarrow> cmp a c < 0"
begin

definition before :: "'k \<Rightarrow> 'k store \<Rightarrow> nat \<Rightarrow> bool" where
  "before target nodes p \<longleftrightarrow> cmp (key_of nodes p) target < 0"

definition sorted_keys :: "'k list \<Rightarrow> bool" where
  "sorted_keys ks \<longleftrightarrow> sorted_wrt (\<lambda>a b. cmp a b < 0) ks \<and> (\<forall>k \<in> set ks. ok k)"

lemma before_prefix:
  assumes "sorted_keys (map (key_of nodes) (xs @ q # ys))" "ok target" "before target nodes q"
  shows "\<forall>p \<in> set xs. before target nodes p"
proof
  fix p assume "p \<in> set xs"
  then have "cmp (key_of nodes p) (key_of nodes q) < 0" "ok (key_of nodes p)" "ok (key_of nodes q)"
    using assms(1) by (auto simp: sorted_keys_def sorted_wrt_append)
  then show "before target nodes p"
    using cmp_trans [of "key_of nodes p" "key_of nodes q" target] assms(2,3)
    by (simp add: before_def)
qed

lemma takeWhile_before_level:
  assumes "sorted_keys (map (key_of nodes) bs)" "ok target"
    and "case at_level nodes l bs of [] \<Rightarrow> True | q # _ \<Rightarrow> \<not> before target nodes q"
  shows "at_level nodes l (takeWhile (before target nodes) bs) = []"
  using assms
proof (induction bs)
  case (Cons b bs)
  show ?case
  proof (cases "l < height_of nodes b")
    case True
    then show ?thesis using Cons.prems(3) by (simp add: at_level_def)
  next
    case False
    then show ?thesis using Cons by (simp add: at_level_def sorted_keys_def)
  qed
qed (simp add: at_level_def)

definition pred_at :: "'k SkipList \<Rightarrow> nat list \<Rightarrow> 'k \<Rightarrow> nat \<Rightarrow> nat" where
  "pred_at list ns target l = last (sl_head list #
     at_level (sl_nodes list) l (takeWhile (before target (sl_nodes list)) ns))"

definition first_from :: "'k SkipList \<Rightarrow> nat list \<Rightarrow> 'k \<Rightarrow> nat" where
  "first_from list ns target =
     (case dropWhile (before target (sl_nodes list)) ns of [] \<Rightarrow> 0 | q # _ \<Rightarrow> q)"

lemma find_loop_correct:
  assumes shape: "skip_shape list ns" and sorted: "sorted_keys (skip_keys list ns)"
    and ok: "ok target"
  shows "ns = as @ bs \<Longrightarrow> \<forall>p \<in> set as. before target (sl_nodes list) p \<Longrightarrow>
    l < height_of (sl_nodes list) (last (sl_head list # as)) \<Longrightarrow> l < kMaxHeight \<Longrightarrow>
    length prev = kMaxHeight \<Longrightarrow>
    \<exists>prev'. find_loop cmp (sl_nodes list) target (last (sl_head list # as)) l prev =
        Some (first_from list ns target, prev') \<and> length prev' = kMaxHeight \<and>
      (\<forall>i. prev' ! i = (if i \<le> l then pred_at list ns target i else prev ! i))"
proof (induction "(l, length bs)" arbitrary: l as bs prev rule: wf_induct_rule [OF wf_lex_prod [OF wf_less wf_less]])
  case 1
  let ?N = "sl_nodes list" and ?h = "sl_head list"
  let ?b = "before target ?N" and ?node = "last (?h # as)"
  note IH = "1.hyps" [simplified, rule_format] and pr = "1.prems"
  have ch: "chain (\<lambda>p. nextAt ?N p l) ?h (at_level ?N l ns)"
    using shape pr(4) by (auto simp: skip_shape_def)
  have last: "last (?h # at_level ?N l as) = ?node"
    using pr(3) by (cases as rule: rev_cases) (auto simp: at_level_def)
  have nx: "nextAt ?N ?node l = Some (case at_level ?N l bs of [] \<Rightarrow> 0 | q # _ \<Rightarrow> q)"
    using chain_next [OF chain_append, of _ ?h "at_level ?N l as" "at_level ?N l bs"] ch last pr(1)
    by simp
  have srt: "sorted_keys (map (key_of ?N) bs)"
    using sorted pr(1) by (auto simp: sorted_keys_def skip_keys_def sorted_wrt_append)
  show ?case
  proof (cases "\<exists>q qs. at_level ?N l bs = q # qs \<and> ?b q")
    case True
    then obtain q qs where q: "at_level ?N l bs = q # qs" "?b q" by blast
    then obtain b1 b2 where bs: "bs = b1 @ q # b2" "l < height_of ?N q"
      unfolding at_level_def filter_eq_Cons_iff by blast
    have pre: "\<forall>p \<in> set (as @ b1 @ [q]). ?b p"
      using before_prefix [of ?N b1 q b2] srt ok q(2) pr(2) bs(1) by auto
    have "q \<noteq> 0" "?N q \<noteq> None"
      using shape pr(1) bs height_pos_Some [of ?N q] by (auto simp: skip_shape_def)
    then have step: "find_loop cmp ?N target ?node l prev = find_loop cmp ?N target q l prev"
      using nx q by (subst find_loop.simps)
        (auto simp: keyIsAfterNode_def before_def key_of_def)
    show ?thesis
      using IH [of l b2 "as @ b1 @ [q]" prev] pre pr bs step by auto
  next
    case False
    let ?q = "case at_level ?N l bs of [] \<Rightarrow> 0 | q # _ \<Rightarrow> q"
    have "keyIsAfterNode cmp ?N target ?q = Some False"
    proof (cases "at_level ?N l bs")
      case (Cons q qs)
      then have "q \<in> set bs" "0 < height_of ?N q"
        unfolding at_level_def by (metis filter_eq_Cons_iff in_set_conv_decomp gr_zeroI not_less0)+
      then show ?thesis
        using False Cons height_pos_Some [of ?N q]
        by (auto simp: keyIsAfterNode_def before_def key_of_def)
    qed (simp add: keyIsAfterNode_def)
    then have step: "find_loop cmp ?N target ?node l prev =
        (if l = 0 then Some (?q, prev[l := ?node])
         else find_loop cmp ?N target ?node (l - 1) (prev[l := ?node]))"
      using nx by (subst find_loop.simps) simp
    have "at_level ?N l (takeWhile ?b bs) = []"
      using takeWhile_before_level [OF srt ok, of l] False by (cases "at_level ?N l bs") auto
    then have pl: "pred_at list ns target l = ?node"
      using last pr(1,2) by (simp add: pred_at_def)
    show ?thesis
    proof (cases "l = 0")
      case True
      have "at_level ?N 0 bs = bs"
        using shape_pos [OF shape] pr(1) by (simp add: at_level_def)
      then have "?q = first_from list ns target"
        using True False pr(1,2) by (auto simp: first_from_def split: list.splits)
      then show ?thesis using step True pl pr(4,5) by (auto simp: nth_list_update)
    next
      case False
      then have "\<exists>prev'. find_loop cmp ?N target ?node (l - 1) (prev[l := ?node]) =
          Some (first_from list ns target, prev') \<and> length prev' = kMaxHeight \<and>
        (\<forall>i. prev' ! i = (if i \<le> l - 1 then pred_at list ns target i else prev[l := ?node] ! i))"
        using IH [of "l - 1" bs as "prev[l := ?node]"] pr by auto
      then obtain prev' where p: "find_loop cmp ?N target ?node (l - 1) (prev[l := ?node]) =
          Some (first_from list ns target, prev')" "length prev' = kMaxHeight"
        "\<forall>i. prev' ! i = (if i \<le> l - 1 then pred_at list ns target i else prev[l := ?node] ! i)"
        by blast
      have "prev' ! i = (if i \<le> l then pred_at list ns target i else prev ! i)" for i
        using p(3) pl pr(4,5) by (cases "i = l") auto
      then show ?thesis using step False p(1,2) by auto
    qed
  qed
qed

lemma findGreaterOrEqual_correct:
  assumes "skip_shape list ns" "sorted_keys (skip_keys list ns)" "ok target"
  shows "\<exists>prev. findGreaterOrEqual cmp list target = Some (first_from list ns target, prev) \<and>
    length prev = kMaxHeight \<and> (\<forall>i < sl_max_height list. prev ! i = pred_at list ns target i)"
proof -
  have "sl_max_height list - 1 < kMaxHeight" "1 \<le> sl_max_height list"
    "height_of (sl_nodes list) (sl_head list) = kMaxHeight"
    using assms(1) by (auto simp: skip_shape_def kMaxHeight_def)
  then show ?thesis
    using find_loop_correct [OF assms, of "[]" ns "sl_max_height list - 1" "replicate kMaxHeight 0"]
    by (auto simp: findGreaterOrEqual_def)
qed

subsection \<open>Inserting\<close>

definition insert_key :: "'k \<Rightarrow> 'k list \<Rightarrow> 'k list" where
  "insert_key x ks = takeWhile (\<lambda>k. cmp k x < 0) ks @ x # dropWhile (\<lambda>k. cmp k x < 0) ks"

lemma set_insert_key [simp]: "set (insert_key x ks) = insert x (set ks)"
  unfolding insert_key_def by (metis (no_types) Un_insert_right list.simps(15) set_append takeWhile_dropWhile_id)

lemma sorted_insert_key:
  assumes "sorted_keys ks" "ok x" "\<forall>k \<in> set ks. cmp x k \<noteq> 0"
  shows "sorted_keys (insert_key x ks)"
  using assms
proof (induction ks)
  case (Cons k ks)
  have s: "sorted_keys ks" "ok k" "\<forall>j \<in> set ks. cmp k j < 0 \<and> ok j"
    using Cons.prems(1) by (auto simp: sorted_keys_def)
  show ?case
  proof (cases "cmp k x < 0")
    case True
    then have "insert_key x (k # ks) = k # insert_key x ks" by (simp add: insert_key_def)
    then show ?thesis using Cons s True by (auto simp: sorted_keys_def)
  next
    case False
    then have "cmp x k < 0" using Cons.prems cmp_flip [of k x] cmp_flip [of x k] s(2) by force
    then have "\<forall>j \<in> set ks. cmp x j < 0" using s(2,3) Cons.prems(2) cmp_trans by blast
    then show ?thesis
      using False \<open>cmp x k < 0\<close> Cons.prems by (auto simp: insert_key_def sorted_keys_def)
  qed
qed (simp add: insert_key_def sorted_keys_def)

lemma pred_at_member: "pred_at list ns x l \<in> set (sl_head list # ns)"
proof -
  let ?A = "at_level (sl_nodes list) l (takeWhile (before x (sl_nodes list)) ns)"
  have "set ?A \<subseteq> set ns" by (auto simp: at_level_def dest: set_takeWhileD)
  then show ?thesis using last_in_set [of "sl_head list # ?A"] by (auto simp: pred_at_def)
qed

lemma pred_at_height:
  assumes "skip_shape list ns" "l < kMaxHeight"
  shows "l < height_of (sl_nodes list) (pred_at list ns x l)"
proof -
  let ?A = "at_level (sl_nodes list) l (takeWhile (before x (sl_nodes list)) ns)"
  have "last (sl_head list # ?A) \<in> insert (sl_head list) (set ?A)"
    using last_in_set [of "sl_head list # ?A"] by simp
  then show ?thesis using assms by (auto simp: pred_at_def at_level_def skip_shape_def)
qed

lemma insert_shape:
  assumes shape: "skip_shape list ns" and p: "p \<notin> dom (sl_nodes list)" "p \<noteq> 0"
    and h: "1 \<le> h" "h \<le> kMaxHeight" "mh = max h (sl_max_height list)"
    and prev: "\<forall>i < h. prev ! i = pred_at list ns x i"
  defines "N0 \<equiv> (sl_nodes list)(p \<mapsto> \<lparr>nd_key = x, nd_next = replicate h 0\<rparr>)"
    and "A \<equiv> takeWhile (before x (sl_nodes list)) ns" and "B \<equiv> dropWhile (before x (sl_nodes list)) ns"
  shows "\<exists>N1. link_levels p prev [0..<h] N0 = Some N1 \<and> same_nodes N0 N1 \<and>
    skip_shape (list\<lparr>sl_nodes := N1, sl_random_state := r, sl_max_height := mh\<rparr>) (A @ p # B)"
proof -
  let ?N = "sl_nodes list" and ?h = "sl_head list"
  have ns: "ns = A @ B" by (simp add: A_def B_def)
  have pos: "0 < height_of ?N q" if "q \<in> set (?h # ns)" for q
    using shape shape_pos [OF shape] that by (auto simp: skip_shape_def kMaxHeight_def)
  have pn: "p \<notin> set (?h # ns)"
    using pos p(1) height_pos_Some by (metis domIff option.distinct(1))
  have h0: "height_of N0 q = (if q = p then h else height_of ?N q)" for q
    by (simp add: N0_def height_of_def)
  have x0: "nextAt N0 q l = (if q = p then if l < h then Some 0 else None else nextAt ?N q l)" for q l
    by (simp add: N0_def nextAt_def)
  have pr: "prev ! l \<noteq> p \<and> l < height_of ?N (prev ! l)" if "l < h" for l
    using that prev pn pred_at_member [of list ns x l] pred_at_height [OF shape, of l x] h(2) by auto
  obtain N1 where n1: "link_levels p prev [0..<h] N0 = Some N1" "same_nodes N0 N1"
    "\<And>q l. nextAt N1 q l = (if l < h then if q = p then nextAt ?N (prev ! l) l
          else if q = prev ! l then Some p else nextAt ?N q l
        else if q = p then None else nextAt ?N q l)"
    using link_levels_effect [of "[0..<h]" N0 p prev] pr by (auto simp: h0 x0)
  have h1: "height_of N1 q = (if q = p then h else height_of ?N q)" for q
    using same_nodesD(1) [OF n1(2)] h0 by simp
  have old: "at_level N1 l C = at_level ?N l C" if "p \<notin> set C" for l C
    unfolding at_level_def using that by (intro filter_cong) (auto simp: h1)
  have lev: "at_level N1 l (A @ p # B) =
      at_level ?N l A @ (if l < h then [p] else []) @ at_level ?N l B" for l
  proof -
    have "at_level N1 l [p] = (if l < h then [p] else [])" by (simp add: at_level_def h1)
    then show ?thesis
      using pn old [of A l] old [of B l] at_level_append [of N1 l A "[p] @ B"]
      unfolding ns by (simp del: at_level_append add: at_level_append [of N1 l "[p]" B, simplified])
  qed
  have "chain (\<lambda>q. nextAt N1 q l) ?h (at_level N1 l (A @ p # B))" if l: "l < kMaxHeight" for l
  proof -
    have ch: "chain (\<lambda>q. nextAt ?N q l) ?h (at_level ?N l A @ at_level ?N l B)"
      using shape l ns by (auto simp: skip_shape_def)
    have d: "distinct (?h # at_level ?N l A @ at_level ?N l B)"
      "p \<notin> set (?h # at_level ?N l A @ at_level ?N l B)"
      using shape pn unfolding ns by (auto simp: skip_shape_def at_level_def)
    show ?thesis
    proof (cases "l < h")
      case True
      then have "last (?h # at_level ?N l A) = prev ! l" using prev by (simp add: pred_at_def A_def)
      then have "chain (\<lambda>q. nextAt N1 q l) ?h (at_level ?N l A @ p # at_level ?N l B)"
        using True pr [OF True] by (intro chain_insert [OF ch d]) (simp_all only: n1(3) if_True if_False refl)
      then show ?thesis using True unfolding lev by simp
    next
      case False
      have "chain (\<lambda>q. nextAt N1 q l) ?h (at_level ?N l A @ at_level ?N l B)"
        using False d(2) by (intro chain_cong [OF ch]) (auto simp: n1(3))
      then show ?thesis using False unfolding lev by simp
    qed
  qed
  moreover have "distinct (?h # A @ p # B)" "0 \<notin> set (?h # A @ p # B)"
    using shape pn p(2) unfolding ns by (auto simp: skip_shape_def)
  moreover have "\<forall>q \<in> set (A @ p # B). 1 \<le> height_of N1 q \<and> height_of N1 q \<le> mh"
    using shape h pn unfolding ns by (auto simp: skip_shape_def h1 le_max_iff_disj)
  moreover have "height_of N1 ?h = kMaxHeight" "1 \<le> mh" "mh \<le> kMaxHeight"
    using shape pn h by (auto simp: skip_shape_def h1)
  ultimately show ?thesis using n1(1,2) by (auto simp: skip_shape_def)
qed

lemma keys_split:
  "map (key_of N) (takeWhile (before x N) ns) = takeWhile (\<lambda>k. cmp k x < 0) (map (key_of N) ns)"
  "map (key_of N) (dropWhile (before x N) ns) = dropWhile (\<lambda>k. cmp k x < 0) (map (key_of N) ns)"
  by (simp_all add: before_def [abs_def] takeWhile_map dropWhile_map comp_def)

text \<open>The representation: shape, order, and ownership of the nodes.\<close>

definition skip_rep :: "region list \<Rightarrow> 'k SkipList \<Rightarrow> nat list \<Rightarrow> bool" where
  "skip_rep rs list ns \<longleftrightarrow>
     skip_shape list ns \<and> sorted_keys (skip_keys list ns) \<and> skip_owned rs list"

lemma insert_keys:
  assumes "same_nodes ((sl_nodes list)(p \<mapsto> \<lparr>nd_key = x, nd_next = links\<rparr>)) N1"
    "p \<notin> set ns" "\<forall>q \<in> set ns. q \<in> dom (sl_nodes list)"
  shows "map (key_of N1) (takeWhile (before x (sl_nodes list)) ns @ p #
      dropWhile (before x (sl_nodes list)) ns) = insert_key x (skip_keys list ns)"
proof -
  have k: "key_of N1 q = (if q = p then x else key_of (sl_nodes list) q)" if "q \<in> set (p # ns)" for q
    using same_nodesD(3) [OF assms(1), of q] that assms(3) by (auto simp: key_of_def)
  have old: "map (key_of N1) qs = map (key_of (sl_nodes list)) qs" if "set qs \<subseteq> set ns" for qs
    using that assms(2) k by auto
  have "map (key_of N1) (takeWhile (before x (sl_nodes list)) ns) =
      map (key_of (sl_nodes list)) (takeWhile (before x (sl_nodes list)) ns)"
    "map (key_of N1) (dropWhile (before x (sl_nodes list)) ns) =
      map (key_of (sl_nodes list)) (dropWhile (before x (sl_nodes list)) ns)"
    by (rule old, fastforce dest: set_takeWhileD set_dropWhileD)+
  then show ?thesis using k [of p] by (simp add: insert_key_def skip_keys_def keys_split)
qed

lemma insert_correct:
  assumes good: "good_new nb" and arena: "arena_inv rs a" and rep: "skip_rep rs list ns"
    and x: "ok x" "\<forall>k \<in> set (skip_keys list ns). cmp x k \<noteq> 0"
  shows "\<exists>list' a' p n ms. SkipList_insert nb cmp x list a = Some (list', a') \<and>
    arena_inv ((p, n) # rs) a' \<and> skip_rep ((p, n) # rs) list' ms \<and>
    skip_keys list' ms = insert_key x (skip_keys list ns)"
proof -
  let ?N = "sl_nodes list"
  have shape: "skip_shape list ns" and sorted: "sorted_keys (skip_keys list ns)"
    and owned: "skip_owned rs list" using rep by (auto simp: skip_rep_def)
  obtain prev where find: "findGreaterOrEqual cmp list x = Some (first_from list ns x, prev)"
    "length prev = kMaxHeight" "\<forall>i < sl_max_height list. prev ! i = pred_at list ns x i"
    using findGreaterOrEqual_correct [OF shape sorted x(1)] by blast
  obtain h r where hr: "randomHeight 1 (sl_random_state list) = (h, r)" by fastforce
  then have h: "1 \<le> h" "h \<le> kMaxHeight" using randomHeight_bounds [OF _ hr] by (auto simp: kMaxHeight_def)
  obtain p N0 a' where nn: "newNode nb x h ?N a = (p, N0, a')" by (metis prod_cases3)
  obtain n where n: "0 < n" "arena_inv ((p, n) # rs) a'" "p \<noteq> 0"
    "N0 = ?N(p \<mapsto> \<lparr>nd_key = x, nd_next = replicate h 0\<rparr>)"
    "\<forall>q m. 0 < m \<longrightarrow> (q, m) \<in> set rs \<longrightarrow> q \<noteq> p"
    using newNode_fresh [OF good arena nn] by blast
  have fresh: "p \<notin> dom ?N" using n(5) owned unfolding skip_owned_def by blast
  define prev' where "prev' = (if h > sl_max_height list
      then fold (\<lambda>l prev. prev[l := sl_head list]) [sl_max_height list..<h] prev else prev)"
  have high: "pred_at list ns x i = sl_head list" if "sl_max_height list \<le> i" for i
  proof -
    have "at_level ?N i (takeWhile (before x ?N) ns) = []"
      using shape that by (fastforce simp: at_level_def skip_shape_def filter_empty_conv dest: set_takeWhileD)
    then show ?thesis by (simp add: pred_at_def)
  qed
  have prev: "\<forall>i < h. prev' ! i = pred_at list ns x i"
    using find(2,3) h high by (auto simp: prev'_def fold_set_levels not_less)
  define mh where "mh = (if h > sl_max_height list then h else sl_max_height list)"
  have mh: "mh = max h (sl_max_height list)" by (simp add: mh_def)
  define ms where "ms = takeWhile (before x ?N) ns @ p # dropWhile (before x ?N) ns"
  obtain N1 where l: "link_levels p prev' [0..<h] N0 = Some N1" "same_nodes N0 N1"
    "skip_shape (list\<lparr>sl_nodes := N1, sl_random_state := r, sl_max_height := mh\<rparr>) ms"
    using insert_shape [OF shape fresh n(3) h mh prev, of r] unfolding n(4) ms_def by blast
  define list' where "list' = list\<lparr>sl_nodes := N1, sl_random_state := r, sl_max_height := mh\<rparr>"
  have "SkipList_insert nb cmp x list a = Some (list', a')"
    using find(1) hr nn l(1)
    by (simp add: SkipList_insert_def prev'_def [symmetric] mh_def [symmetric] list'_def)
  moreover have keys: "skip_keys list' ms = insert_key x (skip_keys list ns)"
  proof -
    have "\<forall>q \<in> set ns. q \<in> dom ?N" using height_pos_Some [OF shape_pos [OF shape]] by blast
    moreover have "p \<notin> set ns" using calculation fresh by blast
    moreover have "skip_keys list' ms = map (key_of N1) ms" by (simp add: skip_keys_def list'_def)
    ultimately show ?thesis using insert_keys [OF l(2) [unfolded n(4)], of ns] by (simp add: ms_def)
  qed
  moreover have "skip_rep ((p, n) # rs) list' ms"
  proof -
    have "skip_owned ((p, n) # rs) list'"
      using owned n(1) same_nodesD(2) [OF l(2)] unfolding n(4)
      by (auto simp: skip_owned_def list'_def)
    then show ?thesis
      using l(3) sorted_insert_key [OF sorted x] by (simp add: skip_rep_def list'_def [symmetric] keys)
  qed
  ultimately show ?thesis using n(2) by blast
qed

lemma new_correct:
  assumes "good_new nb" "arena_inv rs a" "SkipList_new nb k a = (list, a')"
  shows "\<exists>p n. arena_inv ((p, n) # rs) a' \<and> skip_rep ((p, n) # rs) list []"
proof -
  obtain p N b where nn: "newNode nb k kMaxHeight Map.empty a = (p, N, b)" by (metis prod_cases3)
  have l: "list = \<lparr>sl_nodes = N, sl_head = p, sl_max_height = 1, sl_random_state = 0x9e3779b9\<rparr>"
    and "b = a'" using assms(3) nn by (auto simp: SkipList_new_def)
  obtain n where n: "0 < n" "arena_inv ((p, n) # rs) a'" "p \<noteq> 0"
      "N = [p \<mapsto> \<lparr>nd_key = k, nd_next = replicate kMaxHeight 0\<rparr>]"
    using newNode_fresh [OF assms(1,2) nn] \<open>b = a'\<close> by blast
  then have "skip_rep ((p, n) # rs) list []"
    by (auto simp: l skip_rep_def skip_shape_def skip_owned_def skip_keys_def sorted_keys_def
        height_of_def at_level_def nextAt_def kMaxHeight_def)
  then show ?thesis using n(2) by blast
qed

lemma first_from_node_at:
  "first_from list ns x =
     node_at ns (length (takeWhile (\<lambda>k. cmp k x < 0) (skip_keys list ns)))"
proof -
  let ?b = "before x (sl_nodes list)"
  have "length (takeWhile (\<lambda>k. cmp k x < 0) (skip_keys list ns)) = length (takeWhile ?b ns)"
    using keys_split(1) [of "sl_nodes list" x ns] by (metis length_map skip_keys_def)
  moreover have "(case dropWhile ?b ns of [] \<Rightarrow> 0 | q # _ \<Rightarrow> q) = node_at ns (length (takeWhile ?b ns))"
    by (induction ns) (auto simp: node_at_def)
  ultimately show ?thesis by (simp add: first_from_def)
qed

lemma seek_correct:
  assumes "skip_rep rs list ns" "ok x"
  shows "SkipIter_seek cmp list x =
    Some (node_at ns (length (takeWhile (\<lambda>k. cmp k x < 0) (skip_keys list ns))))"
  using findGreaterOrEqual_correct [of list ns x] assms
  by (auto simp: SkipIter_seek_def skip_rep_def first_from_node_at)

lemma first_not_before_equal:
  assumes "sorted_keys ks" "ok x"
  shows "(\<exists>k \<in> set ks. cmp x k = 0) \<longleftrightarrow>
    (case dropWhile (\<lambda>k. cmp k x < 0) ks of [] \<Rightarrow> False | k # _ \<Rightarrow> cmp x k = 0)"
  using assms(1)
proof (induction ks)
  case (Cons k ks)
  have k: "ok k" "sorted_keys ks" "\<forall>j \<in> set ks. cmp k j < 0 \<and> ok j"
    using Cons.prems by (auto simp: sorted_keys_def)
  note fl = cmp_flip [OF k(1) assms(2)] cmp_flip [OF assms(2) k(1)]
  have "cmp k x < 0" if "j \<in> set ks" "cmp x j = 0" for j
  proof -
    have "ok j" "cmp k j < 0" using k(3) that(1) by auto
    moreover have "cmp j x = 0"
      using cmp_flip [OF \<open>ok j\<close> assms(2)] cmp_flip [OF assms(2) \<open>ok j\<close>] that(2) by linarith
    ultimately show ?thesis using cmp_equiv k(1) assms(2) by blast
  qed
  then show ?case using Cons.IH [OF k(2)] fl by auto
qed simp

lemma contains_correct:
  assumes "skip_rep rs list ns" "ok x"
  shows "SkipList_contains cmp list x = Some (\<exists>k \<in> set (skip_keys list ns). cmp x k = 0)"
proof -
  let ?ks = "skip_keys list ns" and ?i = "length (takeWhile (\<lambda>k. cmp k x < 0) (skip_keys list ns))"
  have shape: "skip_shape list ns" and sorted: "sorted_keys ?ks"
    using assms(1) by (auto simp: skip_rep_def)
  obtain prev where f: "findGreaterOrEqual cmp list x = Some (node_at ns ?i, prev)"
    using findGreaterOrEqual_correct [OF shape sorted assms(2)] by (auto simp: first_from_node_at)
  have len: "length ?ks = length ns" by (simp add: skip_keys_def)
  show ?thesis
  proof (cases "?i < length ns")
    case True
    then have "dropWhile (\<lambda>k. cmp k x < 0) ?ks = ?ks ! ?i # drop (Suc ?i) ?ks"
      using len by (metis Cons_nth_drop_Suc drop_length_takeWhile)
    moreover have "SkipIter_key list (ns ! ?i) = Some (?ks ! ?i)"
      by (rule SkipIter_key_correct [OF shape True])
    moreover have "node_at ns ?i \<noteq> 0"
      using SkipIter_valid_correct [OF shape, of ?i] True by (simp add: SkipIter_valid_def)
    ultimately show ?thesis
      using f True first_not_before_equal [OF sorted assms(2)]
      by (auto simp: SkipList_contains_def SkipIter_key_def node_at_def)
  next
    case False
    then have "dropWhile (\<lambda>k. cmp k x < 0) ?ks = []"
      using len by (metis drop_length_takeWhile drop_all not_less)
    then have "\<not> (\<exists>k \<in> set ?ks. cmp x k = 0)"
      by (simp only: first_not_before_equal [OF sorted assms(2)] list.case not_False_eq_True)
    then show ?thesis using f False by (simp add: SkipList_contains_def node_at_def)
  qed
qed

end

end
