(* ===== verification/InternalIterator.thy ===== *)
theory InternalIterator
  imports InternalKey Status
begin

text \<open>
  \<^verbatim>\<open>src/db/internal_iterator.h\<close>: the interface of the ordered inputs (memtables, tables and
  their merge).  The virtual functions are a record of operations on an iterator state; the
  locale \<open>internal_iterator\<close> is their contract: an iterator stands at a position of a list
  of entries (an internal key and a value) in comparator order, the length of the list being
  the position past the end.  The theory also says what a lookup in such a list means: the
  first entry of the user key that is visible at a sequence number, which is its newest one.
\<close>

type_synonym entry = "bytes \<times> bytes"

record 's InternalIterator =
  it_valid :: "'s \<Rightarrow> bool"
  it_seekToFirst :: "'s \<Rightarrow> 's"
  it_seek :: "bytes \<Rightarrow> 's \<Rightarrow> 's"
  it_next :: "'s \<Rightarrow> 's"
  it_internalKey :: "'s \<Rightarrow> bytes"
  it_value :: "'s \<Rightarrow> bytes"
  it_status :: "'s \<Rightarrow> Status"

definition entry_less :: "entry \<Rightarrow> entry \<Rightarrow> bool" where
  "entry_less a b = InternalKeyLess (fst a) (fst b)"

definition sorted_entries :: "entry list \<Rightarrow> bool" where
  "sorted_entries es \<longleftrightarrow> sorted_wrt entry_less es \<and> (\<forall>e \<in> set es. wf_ikey (fst e))"

text \<open>The entries whose parts have a 32-bit length.\<close>

definition fits :: "entry \<Rightarrow> bool" where
  "fits e \<longleftrightarrow> length (fst e) < 2 ^ 32 \<and> length (snd e) < 2 ^ 32"

text \<open>The list with an entry put at its place.\<close>

definition insert_entry :: "entry \<Rightarrow> entry list \<Rightarrow> entry list" where
  "insert_entry e es = takeWhile (\<lambda>x. entry_less x e) es @ e # dropWhile (\<lambda>x. entry_less x e) es"

definition lower_bound :: "entry list \<Rightarrow> bytes \<Rightarrow> nat" where
  "lower_bound es target = length (takeWhile (\<lambda>e. InternalKeyLess (fst e) target) es)"

definition entry_user :: "entry \<Rightarrow> bytes" where
  "entry_user e = userKey (fst e)"

definition entry_seq :: "entry \<Rightarrow> SequenceNumber" where
  "entry_seq e = drop_bit 8 (decodeTag (fst e))"

definition entry_type :: "entry \<Rightarrow> ValueType" where
  "entry_type e = (if decodeTag (fst e) AND 0xff = 0 then kDeletion else kValue)"

definition visible :: "bytes \<Rightarrow> SequenceNumber \<Rightarrow> entry \<Rightarrow> bool" where
  "visible key sequence e \<longleftrightarrow> entry_user e = key \<and> entry_seq e \<le> sequence"

definition entry_result :: "entry \<Rightarrow> LookupResult" where
  "entry_result e = (if entry_type e = kDeletion then Deleted else Found (snd e))"

definition lookup_in :: "entry list \<Rightarrow> bytes \<Rightarrow> SequenceNumber \<Rightarrow> LookupResult" where
  "lookup_in es key sequence =
     (case filter (visible key sequence) es of [] \<Rightarrow> Absent | e # _ \<Rightarrow> entry_result e)"

text \<open>What a client reads that steps at most \<open>n\<close> times.\<close>

fun iter_scan :: "'s InternalIterator \<Rightarrow> nat \<Rightarrow> 's \<Rightarrow> entry list" where
  "iter_scan ops 0 s = []"
| "iter_scan ops (Suc n) s =
     (if it_valid ops s then (it_internalKey ops s, it_value ops s) # iter_scan ops n (it_next ops s)
      else [])"

locale internal_iterator =
  fixes ops :: "'s InternalIterator"
    and at :: "'s \<Rightarrow> entry list \<Rightarrow> nat \<Rightarrow> bool"
  assumes at_sorted: "at s es i \<Longrightarrow> sorted_entries es \<and> i \<le> length es"
    and valid_at: "at s es i \<Longrightarrow> it_valid ops s \<longleftrightarrow> i < length es"
    and first_at: "at s es i \<Longrightarrow> at (it_seekToFirst ops s) es 0"
    and seek_at: "at s es i \<Longrightarrow> wf_ikey target \<Longrightarrow> length target < 2 ^ 32 \<Longrightarrow>
      at (it_seek ops target s) es (lower_bound es target)"
    and next_at: "at s es i \<Longrightarrow> i < length es \<Longrightarrow> at (it_next ops s) es (Suc i)"
    and key_at: "at s es i \<Longrightarrow> i < length es \<Longrightarrow> it_internalKey ops s = fst (es ! i)"
    and value_at: "at s es i \<Longrightarrow> i < length es \<Longrightarrow> it_value ops s = snd (es ! i)"
    and status_at: "at s es i \<Longrightarrow> status_ok (it_status ops s)"
begin

lemma scan_at: "at s es i \<Longrightarrow> length es - i \<le> n \<Longrightarrow> iter_scan ops n s = drop i es"
proof (induction n arbitrary: s i)
  case 0
  then show ?case using at_sorted by simp
next
  case (Suc n)
  show ?case
  proof (cases "i < length es")
    case True
    then have "iter_scan ops n (it_next ops s) = drop (Suc i) es"
      using Suc next_at by simp
    then show ?thesis
      using True Suc.prems(1) valid_at key_at value_at by (simp add: Cons_nth_drop_Suc)
  next
    case False
    then show ?thesis using Suc.prems(1) valid_at by simp
  qed
qed

lemma scan_first:
  assumes "at s es i" "length es \<le> n"
  shows "iter_scan ops n (it_seekToFirst ops s) = es"
  using scan_at [OF first_at [OF assms(1)], of n] assms(2) by simp

lemma scan_seek:
  assumes "at s es i" "length es \<le> n" "wf_ikey target" "length target < 2 ^ 32"
  shows "iter_scan ops n (it_seek ops target s) = dropWhile (\<lambda>e. InternalKeyLess (fst e) target) es"
  using scan_at [OF seek_at [OF assms(1,3,4)], of n] assms(2)
  by (simp add: lower_bound_def drop_length_takeWhile)

end

subsection \<open>Entries\<close>

lemma unat_length: "n < 2 ^ 32 \<Longrightarrow> unat (of_nat n :: u32) = n"
  by (simp add: unat_of_nat)

lemma entry_encode:
  assumes "wf_ikey (fst e)"
  shows "fst e = encodeInternalKey (entry_user e) (entry_seq e) (entry_type e)"
    and "entry_seq e \<le> kMaxSequenceNumber"
    and "parseInternalKey (fst e) =
      Some \<lparr>pk_user_key = entry_user e, pk_sequence = entry_seq e, pk_type = entry_type e\<rparr>"
proof -
  obtain k s t where e: "fst e = encodeInternalKey k s t" "s \<le> kMaxSequenceNumber"
    using wf_ikeyE [OF assms] by blast
  have "entry_user e = k" "entry_seq e = s" by (simp_all add: entry_user_def entry_seq_def e tag_sequence del: drop_bit_or)
  moreover have "entry_type e = t"
    by (cases t) (simp_all add: entry_type_def e tag_type typeCode_def [symmetric] del: word_ao_dist,
        simp_all add: typeCode_def tag_type [OF e(2), of kDeletion, unfolded typeCode_def, simplified]
          tag_type [OF e(2), of kValue, unfolded typeCode_def, simplified])
  ultimately show "fst e = encodeInternalKey (entry_user e) (entry_seq e) (entry_type e)"
    "entry_seq e \<le> kMaxSequenceNumber"
    "parseInternalKey (fst e) =
      Some \<lparr>pk_user_key = entry_user e, pk_sequence = entry_seq e, pk_type = entry_type e\<rparr>"
    using e by (simp_all add: parse_encode)
qed

lemma entry_parts [simp]:
  assumes "s \<le> kMaxSequenceNumber"
  shows "entry_user (encodeInternalKey k s t, v) = k" "entry_seq (encodeInternalKey k s t, v) = s"
    "entry_type (encodeInternalKey k s t, v) = t"
  using entry_encode(3) [of "(encodeInternalKey k s t, v)"] assms by (simp_all add: parse_encode)

text \<open>The seek key of a lookup precedes exactly the visible versions and the larger user keys.\<close>

lemma before_seek_key:
  assumes "wf_ikey (fst e)" "sequence \<le> kMaxSequenceNumber"
  shows "InternalKeyLess (fst e) (encodeInternalKey key sequence kValue) \<longleftrightarrow>
    entry_user e < key \<or> entry_user e = key \<and> sequence < entry_seq e"
  using InternalKeyLess_encode [OF entry_encode(2) [OF assms(1)] assms(2),
      of "entry_user e" "entry_type e" key kValue] entry_encode(1) [OF assms(1)]
  by (cases "entry_type e") (auto simp: typeCode_def)

lemma entry_less_iff:
  assumes "wf_ikey (fst a)" "wf_ikey (fst b)"
  shows "entry_less a b \<longleftrightarrow> entry_user a < entry_user b \<or> entry_user a = entry_user b \<and>
     (entry_seq b < entry_seq a \<or> entry_seq b = entry_seq a \<and> entry_type a = kValue \<and> entry_type b = kDeletion)"
  using InternalKeyLess_encode [OF entry_encode(2) [OF assms(1)] entry_encode(2) [OF assms(2)],
      of "entry_user a" "entry_type a" "entry_user b" "entry_type b"]
    entry_encode(1) [OF assms(1)] entry_encode(1) [OF assms(2)]
  by (cases "entry_type a"; cases "entry_type b") (auto simp: entry_less_def typeCode_def)

lemma sorted_entries_Cons:
  "sorted_entries (e # es) \<longleftrightarrow> wf_ikey (fst e) \<and> (\<forall>x \<in> set es. entry_less e x) \<and> sorted_entries es"
  by (auto simp: sorted_entries_def)

lemma sorted_entries_append:
  "sorted_entries (xs @ ys) \<longleftrightarrow> sorted_entries xs \<and> sorted_entries ys \<and>
     (\<forall>x \<in> set xs. \<forall>y \<in> set ys. entry_less x y)"
  by (auto simp: sorted_entries_def sorted_wrt_append)

lemma sorted_entries_filter: "sorted_entries es \<Longrightarrow> sorted_entries (filter P es)"
  by (auto simp: sorted_entries_def sorted_wrt_filter)

lemma set_insert_entry [simp]: "set (insert_entry e es) = insert e (set es)"
proof -
  let ?P = "\<lambda>x. entry_less x e"
  have "set es = set (takeWhile ?P es) \<union> set (dropWhile ?P es)"
    by (metis set_append takeWhile_dropWhile_id)
  then show ?thesis by (auto simp: insert_entry_def)
qed

lemma length_insert_entry [simp]: "length (insert_entry e es) = Suc (length es)"
proof -
  let ?P = "\<lambda>x. entry_less x e"
  have "length es = length (takeWhile ?P es) + length (dropWhile ?P es)"
    by (metis length_append takeWhile_dropWhile_id)
  then show ?thesis by (simp add: insert_entry_def)
qed

lemma sorted_insert_entry:
  assumes "sorted_entries es" "wf_ikey (fst e)" "\<forall>x \<in> set es. fst x \<noteq> fst e"
  shows "sorted_entries (insert_entry e es)"
  using assms(1,3)
proof (induction es)
  case (Cons x es)
  have x: "wf_ikey (fst x)" "\<forall>y \<in> set es. entry_less x y \<and> wf_ikey (fst y)" "sorted_entries es"
    using Cons.prems by (auto simp: sorted_entries_def)
  show ?case
  proof (cases "entry_less x e")
    case True
    then have "insert_entry e (x # es) = x # insert_entry e es" by (simp add: insert_entry_def)
    then show ?thesis using Cons x True by (auto simp: sorted_entries_Cons)
  next
    case False
    then have "entry_less e x"
      using wfkey.less_total [OF x(1) assms(2)] Cons.prems(2) by (auto simp: entry_less_def)
    moreover from this have "\<forall>y \<in> set es. entry_less e y"
      using x wfkey.less_trans assms(2) unfolding entry_less_def by blast
    ultimately show ?thesis
      using False Cons.prems(1) assms(2) by (simp add: insert_entry_def sorted_entries_Cons)
  qed
qed (simp add: insert_entry_def sorted_entries_def assms(2))

lemma sorted_user_mono:
  assumes "sorted_entries es" "i \<le> j" "j < length es"
  shows "entry_user (es ! i) \<le> entry_user (es ! j)"
proof (cases "i = j")
  case False
  then have "entry_less (es ! i) (es ! j)"
    using assms by (auto simp: sorted_entries_def sorted_wrt_iff_nth_less)
  moreover have "wf_ikey (fst (es ! i))" "wf_ikey (fst (es ! j))"
    using assms by (auto simp: sorted_entries_def)
  ultimately show ?thesis using entry_less_iff by fastforce
qed simp

subsection \<open>Lookups\<close>

text \<open>The first entry at or after the seek key decides the lookup.\<close>

lemma lookup_in_dropWhile:
  assumes "sorted_entries es" "sequence \<le> kMaxSequenceNumber"
  shows "lookup_in es key sequence =
    (case dropWhile (\<lambda>e. InternalKeyLess (fst e) (encodeInternalKey key sequence kValue)) es of
       [] \<Rightarrow> Absent
     | e # _ \<Rightarrow> if entry_user e = key then entry_result e else Absent)"
  using assms(1)
proof (induction es)
  case Nil
  then show ?case by (simp add: lookup_in_def)
next
  case (Cons e es)
  have e: "wf_ikey (fst e)" "\<forall>x \<in> set es. entry_less e x \<and> wf_ikey (fst x)" "sorted_entries es"
    using Cons.prems by (auto simp: sorted_entries_def)
  note bk = before_seek_key [OF e(1) assms(2), of key]
  show ?case
  proof (cases "InternalKeyLess (fst e) (encodeInternalKey key sequence kValue)")
    case True
    then have "\<not> visible key sequence e" by (auto simp: bk visible_def)
    then show ?thesis using True Cons.IH [OF e(3)] by (simp add: lookup_in_def)
  next
    case False
    have "filter (visible key sequence) es = []" if "entry_user e \<noteq> key"
    proof -
      have "key < entry_user e" using False that by (auto simp: bk)
      then have "\<forall>x \<in> set es. key < entry_user x" using e(1,2) by (metis entry_less_iff order_less_trans)
      then show ?thesis by (auto simp: visible_def filter_empty_conv)
    qed
    then show ?thesis using False by (auto simp: lookup_in_def visible_def bk)
  qed
qed

lemma lookup_in_newest:
  assumes "sorted_entries es" "filter (visible key sequence) es = e # rest" "x \<in> set rest"
  shows "entry_seq x \<le> entry_seq e"
proof -
  have s: "sorted_entries (e # rest)" using sorted_entries_filter [OF assms(1)] assms(2) by metis
  have "\<forall>y \<in> set (e # rest). visible key sequence y"
    unfolding assms(2) [symmetric] by simp
  then have "entry_user x = entry_user e" using assms(3) by (simp add: visible_def)
  moreover have "entry_less e x" "wf_ikey (fst e)" "wf_ikey (fst x)"
    using s assms(3) by (auto simp: sorted_entries_def)
  ultimately show ?thesis using entry_less_iff [of e x] by auto
qed

lemma lookup_in_Absent:
  "lookup_in es key sequence = Absent \<longleftrightarrow> (\<forall>e \<in> set es. \<not> visible key sequence e)"
proof (cases "filter (visible key sequence) es")
  case (Cons e rest)
  have "e \<in> set (filter (visible key sequence) es)" unfolding Cons by simp
  then have "e \<in> set es" "visible key sequence e" by simp_all
  then show ?thesis using Cons by (auto simp: lookup_in_def entry_result_def)
qed (simp add: lookup_in_def filter_empty_conv)

text \<open>The visible entry with the largest sequence number decides a lookup.\<close>

lemma lookup_in_max:
  assumes "sorted_entries es" "e \<in> set es" "visible key sequence e"
    and "\<And>x. x \<in> set es \<Longrightarrow> visible key sequence x \<Longrightarrow> x = e \<or> entry_seq x < entry_seq e"
  shows "lookup_in es key sequence = entry_result e"
proof -
  have "e \<in> set (filter (visible key sequence) es)" using assms(2,3) by simp
  then obtain y ys where f: "filter (visible key sequence) es = y # ys"
    by (cases "filter (visible key sequence) es") auto
  have "y \<in> set (filter (visible key sequence) es)" unfolding f by simp
  then have "y = e \<or> entry_seq y < entry_seq e" using assms(4) by simp
  moreover have "e = y \<or> e \<in> set ys" using \<open>e \<in> set (filter _ _)\<close> f by simp
  ultimately have "y = e" using lookup_in_newest [OF assms(1) f, of e] by auto
  then show ?thesis by (simp add: lookup_in_def f)
qed

lemma lookup_at_lower_bound:
  assumes "sorted_entries es" "sequence \<le> kMaxSequenceNumber"
  shows "lookup_in es key sequence =
    (let i = lower_bound es (encodeInternalKey key sequence kValue)
     in if i < length es \<and> entry_user (es ! i) = key then entry_result (es ! i) else Absent)"
proof -
  let ?P = "\<lambda>e. InternalKeyLess (fst e) (encodeInternalKey key sequence kValue)"
  let ?i = "lower_bound es (encodeInternalKey key sequence kValue)"
  have "dropWhile ?P es = drop ?i es" by (simp add: lower_bound_def drop_length_takeWhile)
  also have "\<dots> = (if ?i < length es then es ! ?i # drop (Suc ?i) es else [])"
    by (simp add: Cons_nth_drop_Suc)
  finally show ?thesis by (simp add: lookup_in_dropWhile [OF assms] Let_def)
qed

lemma lower_bound_le: "lower_bound es target \<le> length es"
  by (simp add: lower_bound_def takeWhile_length_le)

end
