(* ===== verification/MemTable.thy ===== *)
theory MemTable
  imports SkipList InternalIterator
begin

text \<open>
  \<^verbatim>\<open>src/db/memtable.h\<close> and \<^verbatim>\<open>memtable.cc\<close>: the in-memory table.  A record is allocated in the
  arena and its address inserted into the skip list; since a record is never changed
  afterwards, the model identifies the address with the bytes at it.  The comparator of the
  table is an instance of the contract of the skip list, and the iterator an instance of the
  contract of the ordered inputs.  \<open>memtable_rep\<close> relates a memtable to the sorted list of its
  entries.
\<close>

record MemTable =
  mt_arena :: Arena
  mt_table :: "bytes SkipList"
  mt_entry_count :: nat

definition kLengthSize :: nat where
  "kLengthSize = 4"

definition entryInternalKey :: "bytes \<Rightarrow> bytes" where
  "entryInternalKey entry =
     (let size1 = decodeFixed32 entry in take (unat size1) (drop kLengthSize entry))"

definition entryValue :: "bytes \<Rightarrow> bytes" where
  "entryValue entry =
     (let length_ptr = drop (kLengthSize + length (entryInternalKey entry)) entry;
          size1 = decodeFixed32 length_ptr
      in take (unat size1) (drop kLengthSize length_ptr))"

definition EntryComparator :: "bytes \<Rightarrow> bytes \<Rightarrow> int" where
  "EntryComparator lhs rhs =
     (let lhs_key = entryInternalKey lhs; rhs_key = entryInternalKey rhs
      in if InternalKeyLess lhs_key rhs_key then -1
         else if InternalKeyLess rhs_key lhs_key then 1 else 0)"

definition MemTable_new :: "block_allocator \<Rightarrow> MemTable" where
  "MemTable_new new_block =
     (case SkipList_new new_block [] (Arena_new kDefaultBlockSize) of (table, arena) \<Rightarrow>
        \<lparr>mt_arena = arena, mt_table = table, mt_entry_count = 0\<rparr>)"

definition MemTable_add ::
  "block_allocator \<Rightarrow> SequenceNumber \<Rightarrow> ValueType \<Rightarrow> bytes \<Rightarrow> bytes \<Rightarrow> MemTable \<Rightarrow> MemTable option"
where
  "MemTable_add new_block sequence type key value mt =
     (let internal_key = encodeInternalKey key sequence type;
          entry_size = kLengthSize + length internal_key + kLengthSize + length value;
          (_, arena) = Arena_allocate new_block entry_size (mt_arena mt);
          entry = encodeFixed32 (of_nat (length internal_key)) @ internal_key @
                  encodeFixed32 (of_nat (length value)) @ value
      in do {
        (table, arena) \<leftarrow> SkipList_insert new_block EntryComparator entry (mt_table mt) arena;
        Some \<lparr>mt_arena = arena, mt_table = table, mt_entry_count = mt_entry_count mt + 1\<rparr>
      })"

definition MemTable_empty :: "MemTable \<Rightarrow> bool" where
  "MemTable_empty mt = (mt_entry_count mt = 0)"

definition MemTable_memoryUsage :: "MemTable \<Rightarrow> nat" where
  "MemTable_memoryUsage mt = Arena_memoryUsage (mt_arena mt)"

definition seek_entry :: "bytes \<Rightarrow> bytes" where
  "seek_entry target = encodeFixed32 (of_nat (length target)) @ target"

definition MemTable_get :: "bytes \<Rightarrow> SequenceNumber \<Rightarrow> MemTable \<Rightarrow> LookupResult option" where
  "MemTable_get key sequence mt =
     do {
       let internal_key = encodeInternalKey key sequence kValue;
       iterator \<leftarrow> SkipIter_seek EntryComparator (mt_table mt) (seek_entry internal_key);
       if \<not> SkipIter_valid iterator then Some Absent
       else do {
         entry \<leftarrow> SkipIter_key (mt_table mt) iterator;
         case parseInternalKey (entryInternalKey entry) of
           None \<Rightarrow> Some Absent
         | Some parsed \<Rightarrow>
             if pk_user_key parsed \<noteq> key then Some Absent
             else if pk_type parsed = kDeletion then Some Deleted
             else Some (Found (entryValue entry))
       }
     }"

text \<open>The iterator; \<open>None\<close> instead of a node stands for undefined behaviour.\<close>

record MemIter =
  mi_list :: "bytes SkipList"
  mi_node :: "nat option"

definition MemTable_newIterator :: "MemTable \<Rightarrow> MemIter" where
  "MemTable_newIterator mt = \<lparr>mi_list = mt_table mt, mi_node = Some 0\<rparr>"

definition MemIter_valid :: "MemIter \<Rightarrow> bool" where
  "MemIter_valid it = (case mi_node it of None \<Rightarrow> False | Some node \<Rightarrow> SkipIter_valid node)"

definition MemIter_seekToFirst :: "MemIter \<Rightarrow> MemIter" where
  "MemIter_seekToFirst it = it\<lparr>mi_node := SkipIter_seekToFirst (mi_list it)\<rparr>"

definition MemIter_seek :: "bytes \<Rightarrow> MemIter \<Rightarrow> MemIter" where
  "MemIter_seek target it =
     it\<lparr>mi_node := SkipIter_seek EntryComparator (mi_list it) (seek_entry target)\<rparr>"

definition MemIter_next :: "MemIter \<Rightarrow> MemIter" where
  "MemIter_next it = it\<lparr>mi_node := do { node \<leftarrow> mi_node it; SkipIter_next (mi_list it) node }\<rparr>"

definition MemIter_key :: "MemIter \<Rightarrow> bytes" where
  "MemIter_key it =
     (case do { node \<leftarrow> mi_node it; SkipIter_key (mi_list it) node } of
        None \<Rightarrow> [] | Some entry \<Rightarrow> entry)"

definition MemIter_internalKey :: "MemIter \<Rightarrow> bytes" where
  "MemIter_internalKey it = entryInternalKey (MemIter_key it)"

definition MemIter_value :: "MemIter \<Rightarrow> bytes" where
  "MemIter_value it = entryValue (MemIter_key it)"

definition MemIter_ops :: "MemIter InternalIterator" where
  "MemIter_ops =
     \<lparr>it_valid = MemIter_valid, it_seekToFirst = MemIter_seekToFirst, it_seek = MemIter_seek,
      it_next = MemIter_next, it_internalKey = MemIter_internalKey, it_value = MemIter_value,
      it_status = (\<lambda>it. success)\<rparr>"

text \<open>A record, the records the table can hold, and the entries of a table.\<close>

definition mem_entry :: "entry \<Rightarrow> bytes" where
  "mem_entry e = encodeFixed32 (of_nat (length (fst e))) @ fst e @
     encodeFixed32 (of_nat (length (snd e))) @ snd e"

definition wf_record :: "bytes \<Rightarrow> bool" where
  "wf_record r \<longleftrightarrow> wf_ikey (entryInternalKey r)"

subsection \<open>Records\<close>

lemma entryInternalKey_record [simp]:
  assumes "length k < 2 ^ 32"
  shows "entryInternalKey (encodeFixed32 (of_nat (length k)) @ k @ rest) = k"
  using assms by (simp add: entryInternalKey_def kLengthSize_def unat_length)

lemma entryInternalKey_mem [simp]: "fits e \<Longrightarrow> entryInternalKey (mem_entry e) = fst e"
  by (simp add: mem_entry_def fits_def)

lemma entryValue_mem [simp]: "fits e \<Longrightarrow> entryValue (mem_entry e) = snd e"
  by (simp add: entryValue_def, simp add: mem_entry_def fits_def kLengthSize_def unat_length)

lemma entryInternalKey_seek [simp]: "length k < 2 ^ 32 \<Longrightarrow> entryInternalKey (seek_entry k) = k"
  using entryInternalKey_record [of k "[]"] by (simp add: seek_entry_def)

lemma EntryComparator_less:
  "EntryComparator a b < 0 \<longleftrightarrow> InternalKeyLess (entryInternalKey a) (entryInternalKey b)"
  by (simp add: EntryComparator_def Let_def)

interpretation mem: comparator EntryComparator wf_record
proof
  fix a b c assume ok: "wf_record a" "wf_record b"
  show "EntryComparator a b < 0 \<longleftrightarrow> 0 < EntryComparator b a"
    using wfkey.less_asym ok by (auto simp: EntryComparator_def Let_def wf_record_def)
  assume c: "wf_record c"
  show "EntryComparator a b < 0 \<Longrightarrow> EntryComparator b c < 0 \<Longrightarrow> EntryComparator a c < 0"
    using wfkey.less_trans ok c unfolding EntryComparator_less wf_record_def by blast
  show "EntryComparator a b < 0 \<Longrightarrow> EntryComparator b c = 0 \<Longrightarrow> EntryComparator a c < 0"
    using wfkey.less_total [of "entryInternalKey b" "entryInternalKey c"] ok c
    unfolding EntryComparator_less wf_record_def
    by (auto simp: EntryComparator_def Let_def split: if_splits)
qed

subsection \<open>Representation\<close>

definition list_rep :: "region list \<Rightarrow> bytes SkipList \<Rightarrow> nat list \<Rightarrow> entry list \<Rightarrow> bool" where
  "list_rep rs table ns es \<longleftrightarrow> mem.skip_rep rs table ns \<and> skip_keys table ns = map mem_entry es \<and>
     sorted_entries es \<and> (\<forall>e \<in> set es. fits e)"

definition memtable_rep :: "MemTable \<Rightarrow> entry list \<Rightarrow> bool" where
  "memtable_rep mt es \<longleftrightarrow> mt_entry_count mt = length es \<and>
     (\<exists>rs ns. arena_inv rs (mt_arena mt) \<and> list_rep rs (mt_table mt) ns es)"

lemma cmp_mem_entry:
  "fits a \<Longrightarrow> fits b \<Longrightarrow> EntryComparator (mem_entry a) (mem_entry b) < 0 \<longleftrightarrow> entry_less a b"
  by (simp add: EntryComparator_less entry_less_def)

lemma cmp_mem_entry_0:
  assumes "fits a" "fits b" "wf_ikey (fst a)" "wf_ikey (fst b)"
  shows "EntryComparator (mem_entry a) (mem_entry b) = 0 \<longleftrightarrow> fst a = fst b"
  using assms wfkey.less_total [of "fst a" "fst b"] wfkey.less_irrefl [of "fst a"]
  by (auto simp: EntryComparator_def Let_def split: if_splits)

lemma takeWhile_cong_map:
  "(\<And>x. x \<in> set xs \<Longrightarrow> P (f x) = Q x) \<Longrightarrow> takeWhile P (map f xs) = map f (takeWhile Q xs)"
  "(\<And>x. x \<in> set xs \<Longrightarrow> P (f x) = Q x) \<Longrightarrow> dropWhile P (map f xs) = map f (dropWhile Q xs)"
  by (induction xs) auto

lemma insert_key_mem:
  assumes "\<forall>x \<in> set es. fits x" "fits e"
  shows "mem.insert_key (mem_entry e) (map mem_entry es) = map mem_entry (insert_entry e es)"
proof -
  have c: "\<And>x. x \<in> set es \<Longrightarrow>
      (EntryComparator (mem_entry x) (mem_entry e) < 0) = entry_less x e"
    using assms cmp_mem_entry by blast
  have "takeWhile (\<lambda>k. EntryComparator k (mem_entry e) < 0) (map mem_entry es) =
      map mem_entry (takeWhile (\<lambda>x. entry_less x e) es)"
    by (rule takeWhile_cong_map(1)) (rule c)
  moreover have "dropWhile (\<lambda>k. EntryComparator k (mem_entry e) < 0) (map mem_entry es) =
      map mem_entry (dropWhile (\<lambda>x. entry_less x e) es)"
    by (rule takeWhile_cong_map(2)) (rule c)
  ultimately show ?thesis by (simp add: mem.insert_key_def insert_entry_def)
qed

lemma memtable_new_rep:
  assumes "good_new nb"
  shows "memtable_rep (MemTable_new nb) []"
proof -
  obtain table a where n: "SkipList_new nb ([] :: bytes) (Arena_new kDefaultBlockSize) = (table, a)" by fastforce
  have "arena_inv [] (Arena_new kDefaultBlockSize)"
    by (rule arena_inv_new) (simp add: kDefaultBlockSize_def)
  from mem.new_correct [OF assms this n] show ?thesis
    using n by (auto simp: MemTable_new_def memtable_rep_def list_rep_def skip_keys_def
        sorted_entries_def)
qed

lemma memtable_add_rep:
  assumes good: "good_new nb" and rep: "memtable_rep mt es"
    and e: "e = (encodeInternalKey key sequence type, value)" "sequence \<le> kMaxSequenceNumber"
      "fits e" "\<forall>x \<in> set es. fst x \<noteq> fst e"
  shows "\<exists>mt'. MemTable_add nb sequence type key value mt = Some mt' \<and>
    memtable_rep mt' (insert_entry e es)"
proof -
  let ?n = "kLengthSize + length (fst e) + kLengthSize + length value"
  obtain rs ns where r: "arena_inv rs (mt_arena mt)" "list_rep rs (mt_table mt) ns es"
    "mt_entry_count mt = length es" using rep by (auto simp: memtable_rep_def)
  obtain p a where al: "Arena_allocate nb ?n (mt_arena mt) = (p, a)" by fastforce
  have a: "arena_inv ((p, ?n) # rs) a" by (rule allocate_inv [OF good r(1) al])
  have wf: "wf_ikey (fst e)" using e(1,2) by simp
  have fit: "\<forall>x \<in> set es. fits x \<and> wf_ikey (fst x)" and srt: "sorted_entries es"
    and keys: "skip_keys (mt_table mt) ns = map mem_entry es"
    using r(2) by (auto simp: list_rep_def sorted_entries_def)
  have rep1: "mem.skip_rep ((p, ?n) # rs) (mt_table mt) ns"
    using r(2) skip_owned_mono [of rs "mt_table mt" "(p, ?n) # rs"]
    by (auto simp: list_rep_def mem.skip_rep_def)
  have ok: "wf_record (mem_entry e)" using wf e(3) by (simp add: wf_record_def)
  have ne: "\<forall>k \<in> set (skip_keys (mt_table mt) ns). EntryComparator (mem_entry e) k \<noteq> 0"
    using fit e(3,4) wf by (force simp: keys cmp_mem_entry_0)
  obtain table a' q m ms where ins:
    "SkipList_insert nb EntryComparator (mem_entry e) (mt_table mt) a = Some (table, a')"
    "arena_inv ((q, m) # (p, ?n) # rs) a'" "mem.skip_rep ((q, m) # (p, ?n) # rs) table ms"
    "skip_keys table ms = map mem_entry (insert_entry e es)"
    using mem.insert_correct [OF good a rep1 ok ne] insert_key_mem [of es e] fit e(3)
    by (auto simp: keys)
  have "MemTable_add nb sequence type key value mt =
      Some \<lparr>mt_arena = a', mt_table = table, mt_entry_count = mt_entry_count mt + 1\<rparr>"
    using al ins(1) by (simp add: MemTable_add_def e(1) mem_entry_def)
  moreover have "list_rep ((q, m) # (p, ?n) # rs) table ms (insert_entry e es)"
    using ins(3,4) sorted_insert_entry [OF srt wf e(4)] fit e(3) by (auto simp: list_rep_def)
  ultimately show ?thesis using ins(2) r(3) by (auto simp: memtable_rep_def)
qed

lemma seek_position:
  assumes "list_rep rs table ns es" "wf_ikey target" "length target < 2 ^ 32"
  shows "SkipIter_seek EntryComparator table (seek_entry target) =
    Some (node_at ns (lower_bound es target))"
proof -
  have "takeWhile (\<lambda>k. EntryComparator k (seek_entry target) < 0) (map mem_entry es) =
      map mem_entry (takeWhile (\<lambda>e. InternalKeyLess (fst e) target) es)"
    using assms(1,3) by (intro takeWhile_cong_map) (simp add: list_rep_def EntryComparator_less)
  moreover have "wf_record (seek_entry target)" using assms(2,3) by (simp add: wf_record_def)
  ultimately show ?thesis
    using mem.seek_correct [of rs table ns "seek_entry target"] assms(1)
    by (simp add: list_rep_def lower_bound_def)
qed

subsection \<open>Lookups and iteration\<close>

lemma memtable_get_rep:
  assumes "memtable_rep mt es" "sequence \<le> kMaxSequenceNumber" "length key + 8 < 2 ^ 32"
  shows "MemTable_get key sequence mt = Some (lookup_in es key sequence)"
proof -
  let ?target = "encodeInternalKey key sequence kValue"
  let ?i = "lower_bound es ?target"
  obtain rs ns where r: "list_rep rs (mt_table mt) ns es"
    using assms(1) by (auto simp: memtable_rep_def)
  have shape: "skip_shape (mt_table mt) ns" and keys: "skip_keys (mt_table mt) ns = map mem_entry es"
    and srt: "sorted_entries es" and fit: "\<forall>e \<in> set es. fits e"
    using r by (auto simp: list_rep_def mem.skip_rep_def)
  have len: "length ns = length es" using keys by (metis length_map skip_keys_def)
  have seek: "SkipIter_seek EntryComparator (mt_table mt) (seek_entry ?target) =
      Some (node_at ns ?i)"
    using assms(2,3) by (intro seek_position [OF r]) auto
  show ?thesis
  proof (cases "?i < length es")
    case True
    then have "es ! ?i \<in> set es" by simp
    then have e: "fits (es ! ?i)" "wf_ikey (fst (es ! ?i))"
      using fit srt by (auto simp: sorted_entries_def)
    have "SkipIter_key (mt_table mt) (node_at ns ?i) = Some (mem_entry (es ! ?i))"
      using SkipIter_key_correct [OF shape, of ?i] True len by (simp add: keys node_at_def)
    then show ?thesis
      using seek SkipIter_valid_correct [OF shape, of ?i] True e len
      by (simp add: MemTable_get_def lookup_at_lower_bound [OF srt assms(2)] entry_encode(3)
          entry_result_def)
  next
    case False
    then show ?thesis
      using seek SkipIter_valid_correct [OF shape, of ?i] len
      by (simp add: MemTable_get_def lookup_at_lower_bound [OF srt assms(2)])
  qed
qed

definition mem_at :: "MemIter \<Rightarrow> entry list \<Rightarrow> nat \<Rightarrow> bool" where
  "mem_at it es i \<longleftrightarrow> i \<le> length es \<and>
     (\<exists>rs ns. list_rep rs (mi_list it) ns es \<and> mi_node it = Some (node_at ns i))"

lemma list_rep_props:
  assumes "list_rep rs table ns es"
  shows "skip_shape table ns" "length ns = length es"
    and "i < length es \<Longrightarrow> SkipIter_key table (ns ! i) = Some (mem_entry (es ! i))"
    and "i < length es \<Longrightarrow> fits (es ! i)" and "sorted_entries es"
proof -
  show shape: "skip_shape table ns" and "sorted_entries es"
    using assms by (auto simp: list_rep_def mem.skip_rep_def)
  have keys: "skip_keys table ns = map mem_entry es" using assms by (simp add: list_rep_def)
  then show len: "length ns = length es" by (metis length_map skip_keys_def)
  show "SkipIter_key table (ns ! i) = Some (mem_entry (es ! i))" if "i < length es"
    using SkipIter_key_correct [OF shape, of i] that len by (simp add: keys)
  show "fits (es ! i)" if "i < length es"
    using assms that by (auto simp: list_rep_def)
qed

interpretation mem_iter: internal_iterator MemIter_ops mem_at
proof
  fix it es i assume at: "mem_at it es i"
  then obtain rs ns where r: "list_rep rs (mi_list it) ns es" "mi_node it = Some (node_at ns i)"
    and i: "i \<le> length es" by (auto simp: mem_at_def)
  note p = list_rep_props [OF r(1)]
  show "sorted_entries es \<and> i \<le> length es" using p(5) i by simp
  show "it_valid MemIter_ops it \<longleftrightarrow> i < length es"
    using SkipIter_valid_correct [OF p(1), of i] r(2) p(2)
    by (simp add: MemIter_ops_def MemIter_valid_def)
  show "mem_at (it_seekToFirst MemIter_ops it) es 0"
    using r(1) SkipIter_seekToFirst_correct [OF p(1)]
    by (auto simp: mem_at_def MemIter_ops_def MemIter_seekToFirst_def)
  show "mem_at (it_seek MemIter_ops target it) es (lower_bound es target)"
    if "wf_ikey target" "length target < 2 ^ 32" for target
    using r(1) seek_position [OF r(1) that] lower_bound_le
    by (auto simp: mem_at_def MemIter_ops_def MemIter_seek_def)
  show "status_ok (it_status MemIter_ops it)" by (simp add: MemIter_ops_def)
  assume lt: "i < length es"
  then have n: "mi_node it = Some (ns ! i)" using r(2) p(2) by (simp add: node_at_def)
  show "mem_at (it_next MemIter_ops it) es (Suc i)"
    using r(1) SkipIter_next_correct [OF p(1), of i] lt n p(2)
    by (auto simp: mem_at_def MemIter_ops_def MemIter_next_def)
  show "it_internalKey MemIter_ops it = fst (es ! i)" "it_value MemIter_ops it = snd (es ! i)"
    using p(3,4) [OF lt] n
    by (simp_all add: MemIter_ops_def MemIter_internalKey_def MemIter_value_def MemIter_key_def)
qed

lemma mem_at_new:
  "memtable_rep mt es \<Longrightarrow> mem_at (MemTable_newIterator mt) es (length es)"
  by (auto simp: memtable_rep_def mem_at_def MemTable_newIterator_def node_at_def
      dest: list_rep_props(2)) (metis list_rep_props(2) node_at_def less_irrefl)

subsection \<open>Histories\<close>

text \<open>A sequence of insertions, and the value a reader at a sequence number expects from it.\<close>

type_synonym mem_op = "SequenceNumber \<times> ValueType \<times> bytes \<times> bytes"

definition op_entry :: "mem_op \<Rightarrow> entry" where
  "op_entry = (\<lambda>(sequence, type, key, value). (encodeInternalKey key sequence type, value))"

fun memtable_adds :: "block_allocator \<Rightarrow> mem_op list \<Rightarrow> MemTable \<Rightarrow> MemTable option" where
  "memtable_adds nb [] mt = Some mt"
| "memtable_adds nb ((sequence, type, key, value) # ops) mt =
     do { mt \<leftarrow> MemTable_add nb sequence type key value mt; memtable_adds nb ops mt }"

fun history_get :: "mem_op list \<Rightarrow> bytes \<Rightarrow> SequenceNumber \<Rightarrow> LookupResult" where
  "history_get [] k s = Absent"
| "history_get ((sequence, type, key, value) # older) k s =
     (if key = k \<and> sequence \<le> s
      then case type of kDeletion \<Rightarrow> Deleted | kValue \<Rightarrow> Found value
      else history_get older k s)"

definition ok_op :: "mem_op \<Rightarrow> bool" where
  "ok_op = (\<lambda>(sequence, type, key, value). sequence \<le> kMaxSequenceNumber \<and>
     length key + 8 < 2 ^ 32 \<and> length value < 2 ^ 32)"

lemma ok_op_entry:
  assumes "ok_op op"
  shows "wf_ikey (fst (op_entry op))" "fits (op_entry op)" "entry_seq (op_entry op) = fst op"
  using assms by (cases op; simp add: ok_op_def op_entry_def fits_def)+

lemma memtable_adds_rep:
  assumes "good_new nb"
  shows "memtable_rep mt es \<Longrightarrow> \<forall>op \<in> set ops. ok_op op \<Longrightarrow> sorted_wrt (<) (map fst ops) \<Longrightarrow>
    \<forall>op \<in> set ops. \<forall>e \<in> set es. entry_seq e < fst op \<Longrightarrow>
    \<exists>mt' es'. memtable_adds nb ops mt = Some mt' \<and> memtable_rep mt' es' \<and>
      set es' = set es \<union> op_entry ` set ops"
proof (induction ops arbitrary: mt es)
  case Nil
  then show ?case by auto
next
  case (Cons op ops)
  obtain s t k v where op: "op = (s, t, k, v)" by (metis prod_cases4)
  let ?e = "op_entry op"
  have e: "?e = (encodeInternalKey k s t, v)" "s \<le> kMaxSequenceNumber" "fits ?e"
    using Cons.prems(2) ok_op_entry [of op] by (auto simp: op op_entry_def ok_op_def)
  have "\<forall>x \<in> set es. fst x \<noteq> fst ?e"
  proof
    fix x assume "x \<in> set es"
    then have "entry_seq x < s" using Cons.prems(4) op by auto
    moreover have "entry_seq ?e = s" using ok_op_entry(3) [of op] Cons.prems(2) op by simp
    ultimately show "fst x \<noteq> fst ?e" by (auto simp: entry_seq_def)
  qed
  from memtable_add_rep [OF assms Cons.prems(1) e this] obtain mt1 where
    m: "MemTable_add nb s t k v mt = Some mt1" "memtable_rep mt1 (insert_entry ?e es)" by blast
  have "\<forall>o1 \<in> set ops. \<forall>x \<in> set (insert_entry ?e es). entry_seq x < fst o1"
    using Cons.prems(2-4) ok_op_entry(3) [of op] by auto
  then show ?case
    using Cons.IH [OF m(2)] Cons.prems(2,3) m(1) by (auto simp: op)
qed

lemma history_get_cases:
  assumes "\<forall>op \<in> set ops. ok_op op" "sorted_wrt (>) (map fst ops)"
  shows "history_get ops k s = Absent \<and> (\<forall>op \<in> set ops. \<not> visible k s (op_entry op)) \<or>
    (\<exists>op \<in> set ops. visible k s (op_entry op) \<and> history_get ops k s = entry_result (op_entry op) \<and>
      (\<forall>o1 \<in> set ops. visible k s (op_entry o1) \<longrightarrow> o1 = op \<or> fst o1 < fst op))"
  using assms
proof (induction ops)
  case (Cons op ops)
  obtain sq t k' v where op: "op = (sq, t, k', v)" by (metis prod_cases4)
  have v: "visible k s (op_entry op) \<longleftrightarrow> k' = k \<and> sq \<le> s"
    "entry_result (op_entry op) = (case t of kDeletion \<Rightarrow> Deleted | kValue \<Rightarrow> Found v)"
    using Cons.prems(1)
    by (auto simp: op op_entry_def visible_def entry_result_def ok_op_def split: ValueType.splits)
  show ?case
  proof (cases "k' = k \<and> sq \<le> s")
    case True
    then show ?thesis using v Cons.prems(2) by (auto simp: op)
  next
    case False
    then show ?thesis using v Cons by (auto simp: op)
  qed
qed simp

lemma history_rep:
  assumes "good_new nb" "\<forall>op \<in> set ops. ok_op op" "sorted_wrt (<) (map fst ops)"
  shows "\<exists>mt es. memtable_adds nb ops (MemTable_new nb) = Some mt \<and> memtable_rep mt es \<and>
    set es = op_entry ` set ops"
  using memtable_adds_rep [OF assms(1) memtable_new_rep [OF assms(1)] assms(2,3)] by auto

lemma lookup_history:
  assumes "sorted_entries es" "set es = op_entry ` set ops"
    and "\<forall>op \<in> set ops. ok_op op" "sorted_wrt (<) (map fst ops)"
  shows "lookup_in es k s = history_get (rev ops) k s"
proof -
  have r: "\<forall>op \<in> set (rev ops). ok_op op" "sorted_wrt (>) (map fst (rev ops))"
    using assms(3,4) by (simp_all add: rev_map [symmetric] sorted_wrt_rev)
  from history_get_cases [OF r, of k s] show ?thesis
  proof (elim disjE conjE bexE)
    assume "history_get (rev ops) k s = Absent" "\<forall>op \<in> set (rev ops). \<not> visible k s (op_entry op)"
    then show ?thesis using assms(2) lookup_in_Absent [of es k s] by auto
  next
    fix op assume op: "op \<in> set (rev ops)" "visible k s (op_entry op)"
      "history_get (rev ops) k s = entry_result (op_entry op)"
      "\<forall>o1 \<in> set (rev ops). visible k s (op_entry o1) \<longrightarrow> o1 = op \<or> fst o1 < fst op"
    have "x = op_entry op \<or> entry_seq x < entry_seq (op_entry op)"
      if x: "x \<in> set es" "visible k s x" for x
    proof -
      obtain o1 where "o1 \<in> set ops" "x = op_entry o1" using x(1) assms(2) by auto
      then show ?thesis using op(1,4) x(2) ok_op_entry(3) assms(3) by auto
    qed
    then show ?thesis
      using lookup_in_max [OF assms(1), of "op_entry op" k s] op(1-3) assms(2) by auto
  qed
qed

subsection \<open>Properties\<close>

text \<open>
  C23. A memtable is a multi-version map. After inserting any operations with increasing
  sequence numbers, which never runs into undefined behaviour, a lookup of a key at a
  sequence number finds the latest operation on this key that is not newer: its value, a
  deletion, or nothing.
\<close>

theorem memtable_get_history:
  assumes "good_new new_block"
    and "\<forall>op \<in> set ops. ok_op op" and "sorted_wrt (<) (map fst ops)"
    and "s \<le> kMaxSequenceNumber" and "length k + 8 < 2 ^ 32"
  shows "\<exists>mt. memtable_adds new_block ops (MemTable_new new_block) = Some mt \<and>
    MemTable_get k s mt = Some (history_get (rev ops) k s)"
proof -
  obtain mt es where m: "memtable_adds new_block ops (MemTable_new new_block) = Some mt"
    "memtable_rep mt es" "set es = op_entry ` set ops"
    using history_rep [OF assms(1-3)] by blast
  have "sorted_entries es" using m(2) list_rep_props(5) by (auto simp: memtable_rep_def)
  from lookup_history [OF this m(3) assms(2,3)] show ?thesis
    using m memtable_get_rep [OF m(2) assms(4,5)] by auto
qed

theorem memtable_get_history_witness:
  "\<exists>mt. memtable_adds next_block
      [(1, kValue, [0x61], [1]), (2, kValue, [0x62], [2]), (3, kDeletion, [0x61], [])]
      (MemTable_new next_block) = Some mt \<and> MemTable_get [0x61] 2 mt = Some (Found [1])"
  using memtable_get_history [OF good_next_block,
      of "[(1, kValue, [0x61], [1]), (2, kValue, [0x62], [2]), (3, kDeletion, [0x61], [])]" 2 "[0x61]"]
  by (simp add: ok_op_def kMaxSequenceNumber_def)

text \<open>
  C26. Iteration over a memtable: from the first position it yields every inserted version
  exactly once in the order of internal keys, and from a seek all versions at or after the
  target; the skip list is never left on a broken link.
\<close>

theorem memtable_iterates_sorted:
  assumes "good_new new_block"
    and "\<forall>op \<in> set ops. ok_op op" and "sorted_wrt (<) (map fst ops)"
    and "wf_ikey target" and "length target < 2 ^ 32"
  shows "\<exists>mt es. memtable_adds new_block ops (MemTable_new new_block) = Some mt \<and>
    sorted_entries es \<and> set es = op_entry ` set ops \<and> length es = mt_entry_count mt \<and>
    iter_scan MemIter_ops (length es) (MemIter_seekToFirst (MemTable_newIterator mt)) = es \<and>
    iter_scan MemIter_ops (length es) (MemIter_seek target (MemTable_newIterator mt)) =
      dropWhile (\<lambda>e. InternalKeyLess (fst e) target) es"
proof -
  obtain mt es where m: "memtable_adds new_block ops (MemTable_new new_block) = Some mt"
    "memtable_rep mt es" "set es = op_entry ` set ops"
    using history_rep [OF assms(1-3)] by blast
  note at = mem_at_new [OF m(2)]
  show ?thesis
    using m mem_iter.at_sorted [OF at] mem_iter.scan_first [OF at order_refl]
      mem_iter.scan_seek [OF at order_refl assms(4,5)]
    by (auto simp: memtable_rep_def MemIter_ops_def)
qed

theorem memtable_iterates_sorted_witness:
  "\<exists>mt es. memtable_adds next_block [(4, kValue, [0x62], [1]), (7, kValue, [0x61], [2])]
      (MemTable_new next_block) = Some mt \<and>
    set es = {(encodeInternalKey [0x62] 4 kValue, [1]), (encodeInternalKey [0x61] 7 kValue, [2])} \<and>
    iter_scan MemIter_ops (length es) (MemIter_seekToFirst (MemTable_newIterator mt)) = es"
proof -
  have "wf_ikey (encodeInternalKey [0x61] 9 kValue)"
    by (rule wf_ikey_encode) (simp add: kMaxSequenceNumber_def)
  from memtable_iterates_sorted [OF good_next_block _ _ this,
      of "[(4, kValue, [0x62], [1]), (7, kValue, [0x61], [2])]"]
  show ?thesis by (auto simp: ok_op_def kMaxSequenceNumber_def op_entry_def)
qed

text \<open>
  C25. The skip list refines a sorted list. Inserting a record whose key is not present never
  runs into undefined behaviour or an endless search, keeps the shape (each of the twelve
  levels is the chain of the nodes that reach it, in order), puts the record at its place in
  the order, and \<open>contains\<close> then answers membership.
\<close>

theorem skiplist_insert_refines:
  assumes "good_new new_block" and "arena_inv regions arena" and "mem.skip_rep regions list ns"
    and "wf_record x" and "\<forall>k \<in> set (skip_keys list ns). EntryComparator x k \<noteq> 0"
  shows "\<exists>list' arena' r ms. SkipList_insert new_block EntryComparator x list arena = Some (list', arena') \<and>
    arena_inv (r # regions) arena' \<and> mem.skip_rep (r # regions) list' ms \<and>
    skip_keys list' ms = takeWhile (\<lambda>k. EntryComparator k x < 0) (skip_keys list ns) @ x #
      dropWhile (\<lambda>k. EntryComparator k x < 0) (skip_keys list ns) \<and>
    (\<forall>y. wf_record y \<longrightarrow> SkipList_contains EntryComparator list' y =
       Some (\<exists>k \<in> insert x (set (skip_keys list ns)). EntryComparator y k = 0))"
proof -
  obtain list' arena' p n ms where i:
    "SkipList_insert new_block EntryComparator x list arena = Some (list', arena')"
    "arena_inv ((p, n) # regions) arena'" "mem.skip_rep ((p, n) # regions) list' ms"
    "skip_keys list' ms = mem.insert_key x (skip_keys list ns)"
    using mem.insert_correct [OF assms] by blast
  have "set (skip_keys list' ms) = insert x (set (skip_keys list ns))" unfolding i(4) by simp
  with mem.contains_correct [OF i(3)]
  have "\<forall>y. wf_record y \<longrightarrow> SkipList_contains EntryComparator list' y =
      Some (\<exists>k \<in> insert x (set (skip_keys list ns)). EntryComparator y k = 0)" by simp
  with i show ?thesis
    unfolding mem.insert_key_def
    by (intro exI [of _ list'] exI [of _ arena'] exI [of _ "(p, n)"] exI [of _ ms] conjI)
qed

theorem skiplist_insert_refines_witness:
  "\<exists>list' arena' ms. SkipList_insert next_block EntryComparator
      (mem_entry (encodeInternalKey [0x61] 1 kValue, []))
      (fst (SkipList_new next_block [] (Arena_new 64))) (snd (SkipList_new next_block ([] :: bytes) (Arena_new 64))) =
      Some (list', arena') \<and>
    skip_keys list' ms = [mem_entry (encodeInternalKey [0x61] 1 kValue, [])]"
proof -
  obtain l a where n: "SkipList_new next_block ([] :: bytes) (Arena_new 64) = (l, a)" by fastforce
  obtain p m where r: "arena_inv [(p, m)] a" "mem.skip_rep [(p, m)] l []"
    using mem.new_correct [OF good_next_block arena_inv_new n] by auto
  have wf: "wf_record (mem_entry (encodeInternalKey [0x61] 1 kValue, []))"
    by (simp add: wf_record_def fits_def kMaxSequenceNumber_def)
  have nil: "skip_keys l [] = []" by (simp add: skip_keys_def)
  have "\<forall>k \<in> set (skip_keys l []). EntryComparator (mem_entry (encodeInternalKey [0x61] 1 kValue, [])) k \<noteq> 0"
    by (simp add: nil)
  from skiplist_insert_refines [OF good_next_block r wf this] obtain list' arena' ms where
    "SkipList_insert next_block EntryComparator (mem_entry (encodeInternalKey [0x61] 1 kValue, [])) l a =
      Some (list', arena')"
    "skip_keys list' ms = [mem_entry (encodeInternalKey [0x61] 1 kValue, [])]"
    unfolding nil by auto
  then show ?thesis unfolding n fst_conv snd_conv by blast
qed

end
