(* ===== verification/Block.thy ===== *)
theory Block
  imports InternalIterator
begin

text \<open>
  \<^verbatim>\<open>src/table/block_builder.cc\<close> and \<^verbatim>\<open>block_iterator.cc\<close>: the prefix-compressed blocks of a
  table.  An entry stores the length of the prefix it shares with the previous key, except at
  a restart point, where keys are complete; the offsets of the restart points and their
  number end the block.  \<open>block_bytes\<close> is the layout of a list of entries; the builder
  produces it, and the iterator, an instance of the contract of the ordered inputs, reads it
  back, with a binary search over the restart points.
\<close>

record BlockBuilder =
  bb_restart_interval :: nat
  bb_buffer :: bytes
  bb_restarts :: "u32 list"
  bb_last_key :: bytes
  bb_entries_since_restart :: nat
  bb_entry_count :: nat
  bb_finished :: bool

fun commonPrefix :: "bytes \<Rightarrow> bytes \<Rightarrow> nat" where
  "commonPrefix (l # lhs) (r # rhs) = (if l = r then Suc (commonPrefix lhs rhs) else 0)"
| "commonPrefix lhs rhs = 0"

definition BlockBuilder_new :: "nat \<Rightarrow> BlockBuilder" where
  "BlockBuilder_new restart_interval =
     \<lparr>bb_restart_interval = restart_interval, bb_buffer = [], bb_restarts = [0],
      bb_last_key = [], bb_entries_since_restart = 0, bb_entry_count = 0, bb_finished = False\<rparr>"

definition BlockBuilder_reset :: "BlockBuilder \<Rightarrow> BlockBuilder" where
  "BlockBuilder_reset b =
     b\<lparr>bb_buffer := [], bb_restarts := [0], bb_last_key := [], bb_entries_since_restart := 0,
       bb_entry_count := 0, bb_finished := False\<rparr>"

definition BlockBuilder_add :: "bytes \<Rightarrow> bytes \<Rightarrow> BlockBuilder \<Rightarrow> BlockBuilder" where
  "BlockBuilder_add key value b =
     (let (shared, b) =
            (if bb_entries_since_restart b = bb_restart_interval b
             then (0, b\<lparr>bb_restarts := bb_restarts b @ [of_nat (length (bb_buffer b))],
                        bb_entries_since_restart := 0\<rparr>)
             else (commonPrefix (bb_last_key b) key, b));
          unshared = length key - shared;
          buffer = putFixed32 (bb_buffer b) (of_nat shared);
          buffer = putFixed32 buffer (of_nat unshared);
          buffer = putFixed32 buffer (of_nat (length value));
          buffer = buffer @ drop shared key;
          buffer = buffer @ value
      in b\<lparr>bb_buffer := buffer, bb_last_key := key,
           bb_entries_since_restart := bb_entries_since_restart b + 1,
           bb_entry_count := bb_entry_count b + 1\<rparr>)"

definition BlockBuilder_finish :: "BlockBuilder \<Rightarrow> bytes \<times> BlockBuilder" where
  "BlockBuilder_finish b =
     (let buffer = fold (\<lambda>restart buffer. putFixed32 buffer restart) (bb_restarts b) (bb_buffer b);
          buffer = putFixed32 buffer (of_nat (length (bb_restarts b)))
      in (buffer, b\<lparr>bb_buffer := buffer, bb_finished := True\<rparr>))"

definition BlockBuilder_empty :: "BlockBuilder \<Rightarrow> bool" where
  "BlockBuilder_empty b = (bb_entry_count b = 0)"

definition BlockBuilder_currentSizeEstimate :: "BlockBuilder \<Rightarrow> nat" where
  "BlockBuilder_currentSizeEstimate b =
     (if bb_finished b then length (bb_buffer b)
      else length (bb_buffer b) + length (bb_restarts b) * 4 + 4)"

record BlockIterator =
  bi_block :: bytes
  bi_restart_offset :: nat
  bi_restart_count :: nat
  bi_next_offset :: nat
  bi_key :: bytes
  bi_value :: bytes
  bi_valid :: bool
  bi_status :: Status

definition kEntryHeaderSize :: nat where
  "kEntryHeaderSize = 12"

definition BlockIterator_invalidate :: "BlockIterator \<Rightarrow> BlockIterator" where
  "BlockIterator_invalidate it = it\<lparr>bi_valid := False, bi_key := [], bi_value := []\<rparr>"

definition BlockIterator_fail :: "string \<Rightarrow> BlockIterator \<Rightarrow> BlockIterator" where
  "BlockIterator_fail message it =
     BlockIterator_invalidate (it\<lparr>bi_status := corruption message\<rparr>)"

definition BlockIterator_restartOffset :: "nat \<Rightarrow> BlockIterator \<Rightarrow> nat" where
  "BlockIterator_restartOffset index it =
     unat (decodeFixed32 (drop (bi_restart_offset it + index * 4) (bi_block it)))"

definition BlockIterator_new :: "bytes \<Rightarrow> BlockIterator" where
  "BlockIterator_new block =
     (let it = \<lparr>bi_block = block, bi_restart_offset = 0, bi_restart_count = 0,
                bi_next_offset = 0, bi_key = [], bi_value = [], bi_valid = False,
                bi_status = success\<rparr>
      in if length block < 4 then BlockIterator_fail ''block is shorter than restart count'' it
         else let count = unat (decodeFixed32 (drop (length block - 4) block));
                  it = it\<lparr>bi_restart_count := count\<rparr>
           in if count = 0 then BlockIterator_fail ''block has no restart points'' it
              else if count > (length block - 4) div 4
              then BlockIterator_fail ''restart array extends outside block'' it
              else let it = it\<lparr>bi_restart_offset := length block - 4 - count * 4\<rparr>
                in if BlockIterator_restartOffset 0 it \<noteq> 0
                   then BlockIterator_fail ''first restart point is not zero'' it
                   else it)"

definition BlockIterator_decodeEntry :: "nat \<Rightarrow> BlockIterator \<Rightarrow> bool \<times> BlockIterator" where
  "BlockIterator_decodeEntry offset it =
     (if offset \<ge> bi_restart_offset it
      then (False, BlockIterator_fail ''entry offset is outside block'' it)
      else let input = take (bi_restart_offset it - offset) (drop offset (bi_block it)) in
        if length input < kEntryHeaderSize
        then (False, BlockIterator_fail ''truncated block entry'' it)
        else let shared = unat (decodeFixed32 input);
                 unshared = unat (decodeFixed32 (drop 4 input));
                 value_size = unat (decodeFixed32 (drop 8 input));
                 input = drop kEntryHeaderSize input in
          if shared > length (bi_key it) \<or> unshared > length input
          then (False, BlockIterator_fail ''invalid key lengths in block entry'' it)
          else let decoded_key = take shared (bi_key it) @ take unshared input;
                   input = drop unshared input in
            if value_size > length input
            then (False, BlockIterator_fail ''truncated block value'' it)
            else if parseInternalKey decoded_key = None
            then (False, BlockIterator_fail ''invalid internal key in block'' it)
            else (True, it\<lparr>bi_value := take value_size input,
                           bi_next_offset := offset + kEntryHeaderSize + unshared + value_size,
                           bi_key := decoded_key, bi_valid := True\<rparr>))"

definition BlockIterator_seekToFirst :: "BlockIterator \<Rightarrow> BlockIterator" where
  "BlockIterator_seekToFirst it =
     (if \<not> status_ok (bi_status it) then it
      else let it = BlockIterator_invalidate it in
        if bi_restart_offset it = 0 then it
        else snd (BlockIterator_decodeEntry 0 it))"

definition BlockIterator_next :: "BlockIterator \<Rightarrow> BlockIterator" where
  "BlockIterator_next it =
     (if bi_next_offset it = bi_restart_offset it then BlockIterator_invalidate it
      else snd (BlockIterator_decodeEntry (bi_next_offset it) it))"

definition BlockIterator_readRestartKey ::
  "nat \<Rightarrow> BlockIterator \<Rightarrow> bytes option \<times> BlockIterator" where
  "BlockIterator_readRestartKey index it =
     (let offset = BlockIterator_restartOffset index it in
      if offset \<ge> bi_restart_offset it
      then (None, BlockIterator_fail ''restart point is outside entry data'' it)
      else let input = take (bi_restart_offset it - offset) (drop offset (bi_block it)) in
        if length input < kEntryHeaderSize
        then (None, BlockIterator_fail ''invalid restart entry'' it)
        else let shared = unat (decodeFixed32 input);
                 unshared = unat (decodeFixed32 (drop 4 input));
                 value_size = unat (decodeFixed32 (drop 8 input));
                 input = drop kEntryHeaderSize input in
          if shared \<noteq> 0 \<or> unshared > length input
          then (None, BlockIterator_fail ''invalid restart entry'' it)
          else let key = take unshared input; input = drop unshared input in
            if value_size > length input
            then (None, BlockIterator_fail ''truncated restart entry'' it)
            else if parseInternalKey key = None
            then (None, BlockIterator_fail ''invalid internal key in block'' it)
            else (Some key, it))"

definition BlockIterator_seekToRestartPoint :: "nat \<Rightarrow> BlockIterator \<Rightarrow> bool \<times> BlockIterator" where
  "BlockIterator_seekToRestartPoint index it =
     BlockIterator_decodeEntry (BlockIterator_restartOffset index it) (it\<lparr>bi_key := []\<rparr>)"

function search_restarts ::
  "bytes \<Rightarrow> nat \<Rightarrow> nat \<Rightarrow> BlockIterator \<Rightarrow> nat option \<times> BlockIterator" where
  "search_restarts target left right it =
     (if left < right
      then let middle = left + (right - left) div 2 in
        case BlockIterator_readRestartKey middle it of
          (None, it) \<Rightarrow> (None, it)
        | (Some restart_key, it) \<Rightarrow>
            if \<not> InternalKeyLess target restart_key
            then search_restarts target (middle + 1) right it
            else search_restarts target left middle it
      else (Some left, it))"
  by pat_completeness auto
termination by (relation "measure (\<lambda>(target, left, right, it). right - left)") auto

lemma checks_cases:
  assumes "r = (if c1 then (x, f m1) else if c2 then (x, f m2)
     else if c3 then (x, f m3) else if c4 then (x, f m4)
     else if c5 then (x, f m5) else (y, g))"
  shows "(\<exists>m. r = (x, f m)) \<or> \<not> c1 \<and> r = (y, g)"
  using assms by (auto split: if_splits)

lemma decodeEntry_cases:
  obtains (bad) m where "BlockIterator_decodeEntry offset it = (False, BlockIterator_fail m it)"
  | (good) v u s k where "offset < bi_restart_offset it" "BlockIterator_decodeEntry offset it =
      (True, it\<lparr>bi_value := v, bi_next_offset := offset + 12 + u + s, bi_key := k, bi_valid := True\<rparr>)"
  using checks_cases [where f = "\<lambda>m. BlockIterator_fail m it",
      OF BlockIterator_decodeEntry_def [of offset it, unfolded Let_def kEntryHeaderSize_def]]
  by (metis not_le)

lemma decodeEntry_progress:
  "bi_restart_offset (snd (BlockIterator_decodeEntry offset it)) = bi_restart_offset it"
  "bi_valid (snd (BlockIterator_decodeEntry offset it)) \<Longrightarrow>
     offset < bi_next_offset (snd (BlockIterator_decodeEntry offset it)) \<and> offset < bi_restart_offset it"
  by (cases rule: decodeEntry_cases [of offset it];
      simp add: BlockIterator_fail_def BlockIterator_invalidate_def)+

function seek_forward :: "bytes \<Rightarrow> BlockIterator \<Rightarrow> BlockIterator" where
  "seek_forward target it =
     (if bi_valid it \<and> InternalKeyLess (bi_key it) target
      then seek_forward target (BlockIterator_next it) else it)"
  by pat_completeness auto
termination
proof (relation "measure (\<lambda>(target, it).
    if bi_valid it then Suc (bi_restart_offset it - bi_next_offset it) else 0)", goal_cases)
  case (2 target it)
  then show ?case
    using decodeEntry_progress [of "bi_next_offset it" it]
    by (auto simp: BlockIterator_next_def BlockIterator_invalidate_def)
qed simp

definition BlockIterator_seek :: "bytes \<Rightarrow> BlockIterator \<Rightarrow> BlockIterator" where
  "BlockIterator_seek target it =
     (if \<not> status_ok (bi_status it) then it
      else let it = BlockIterator_invalidate it in
        if bi_restart_offset it = 0 then it
        else case search_restarts target 0 (bi_restart_count it) it of
          (None, it) \<Rightarrow> it
        | (Some left, it) \<Rightarrow>
            let restart_index = (if left = 0 then 0 else left - 1) in
            case BlockIterator_seekToRestartPoint restart_index it of
              (False, it) \<Rightarrow> it
            | (True, it) \<Rightarrow> seek_forward target it)"

declare search_restarts.simps [simp del] seek_forward.simps [simp del]

definition BlockIterator_ops :: "BlockIterator InternalIterator" where
  "BlockIterator_ops =
     \<lparr>it_valid = bi_valid, it_seekToFirst = BlockIterator_seekToFirst,
      it_seek = BlockIterator_seek, it_next = BlockIterator_next, it_internalKey = bi_key,
      it_value = bi_value, it_status = bi_status\<rparr>"

subsection \<open>The layout of a block\<close>

definition entry_shared :: "nat \<Rightarrow> entry list \<Rightarrow> nat \<Rightarrow> nat" where
  "entry_shared r es i =
     (if i mod r = 0 then 0 else commonPrefix (fst (es ! (i - 1))) (fst (es ! i)))"

definition entry_bytes :: "nat \<Rightarrow> entry list \<Rightarrow> nat \<Rightarrow> bytes" where
  "entry_bytes r es i =
     encodeFixed32 (of_nat (entry_shared r es i)) @
     encodeFixed32 (of_nat (length (fst (es ! i)) - entry_shared r es i)) @
     encodeFixed32 (of_nat (length (snd (es ! i)))) @
     drop (entry_shared r es i) (fst (es ! i)) @ snd (es ! i)"

definition entries_bytes :: "nat \<Rightarrow> entry list \<Rightarrow> nat \<Rightarrow> bytes" where
  "entries_bytes r es n = concat (map (entry_bytes r es) [0..<n])"

definition entry_offset :: "nat \<Rightarrow> entry list \<Rightarrow> nat \<Rightarrow> nat" where
  "entry_offset r es i = length (entries_bytes r es i)"

definition restart_number :: "nat \<Rightarrow> nat \<Rightarrow> nat" where
  "restart_number r n = (if n = 0 then 1 else (n - 1) div r + 1)"

definition restart_list :: "nat \<Rightarrow> entry list \<Rightarrow> u32 list" where
  "restart_list r es =
     map (\<lambda>j. of_nat (entry_offset r es (j * r))) [0..<restart_number r (length es)]"

definition block_bytes :: "nat \<Rightarrow> entry list \<Rightarrow> bytes" where
  "block_bytes r es =
     entries_bytes r es (length es) @ concat (map encodeFixed32 (restart_list r es)) @
     encodeFixed32 (of_nat (restart_number r (length es)))"

lemma commonPrefix_le: "commonPrefix a b \<le> length a" "commonPrefix a b \<le> length b"
  by (induction a b rule: commonPrefix.induct) auto

lemma commonPrefix_take: "take (commonPrefix a b) a = take (commonPrefix a b) b"
  by (induction a b rule: commonPrefix.induct) auto

lemma commonPrefix_Nil [simp]: "commonPrefix [] b = 0"
  by (cases b) simp_all

lemma entries_bytes_Suc [simp]:
  "entries_bytes r es (Suc n) = entries_bytes r es n @ entry_bytes r es n"
  by (simp add: entries_bytes_def)

lemma entries_bytes_0 [simp]: "entries_bytes r es 0 = []"
  by (simp add: entries_bytes_def)

lemma entry_offset_0 [simp]: "entry_offset r es 0 = 0"
  by (simp add: entry_offset_def)

lemma entry_bytes_append: "i < length es \<Longrightarrow> entry_bytes r (es @ xs) i = entry_bytes r es i"
  by (simp add: entry_bytes_def entry_shared_def nth_append)

lemma entries_bytes_append: "i \<le> length es \<Longrightarrow> entries_bytes r (es @ xs) i = entries_bytes r es i"
  by (induction i) (simp_all add: entry_bytes_append)

lemma entry_shared_le: "entry_shared r es i \<le> length (fst (es ! i))"
  by (simp add: entry_shared_def commonPrefix_le)

lemma length_entry_bytes: "length (entry_bytes r es i) =
    12 + (length (fst (es ! i)) - entry_shared r es i) + length (snd (es ! i))"
  by (simp add: entry_bytes_def)

lemma entry_offset_Suc: "entry_offset r es (Suc i) = entry_offset r es i +
    12 + (length (fst (es ! i)) - entry_shared r es i) + length (snd (es ! i))"
  by (simp add: entry_offset_def length_entry_bytes)

lemma entry_offset_mono: "i \<le> j \<Longrightarrow> entry_offset r es i + 12 * (j - i) \<le> entry_offset r es j"
  by (induction j) (auto simp: entry_offset_Suc le_Suc_eq)

lemma entries_bytes_split:
  "i \<le> n \<Longrightarrow> entries_bytes r es n = entries_bytes r es i @ concat (map (entry_bytes r es) [i..<n])"
  unfolding entries_bytes_def by (metis concat_append map_append upt_add_eq_append le0 le_Suc_ex)

lemma drop_entries_bytes:
  assumes "i < n"
  shows "drop (entry_offset r es i) (entries_bytes r es n) =
    entry_bytes r es i @ concat (map (entry_bytes r es) [Suc i..<n])"
  using assms entries_bytes_split [of i n r es] by (simp add: entry_offset_def upt_conv_Cons)

lemma restart_number_Suc: "restart_number r (Suc n) = n div r + 1"
  by (simp add: restart_number_def)

lemma restart_index: "0 < r \<Longrightarrow> j < restart_number r n \<Longrightarrow> j * r \<le> n - 1"
  by (cases n) (auto simp: restart_number_def less_Suc_eq_le less_eq_div_iff_mult_less_eq)

subsection \<open>The builder\<close>

definition builder_rep :: "nat \<Rightarrow> entry list \<Rightarrow> BlockBuilder \<Rightarrow> bool" where
  "builder_rep r es b \<longleftrightarrow> 0 < r \<and>
     b = \<lparr>bb_restart_interval = r, bb_buffer = entries_bytes r es (length es),
          bb_restarts = restart_list r es,
          bb_last_key = (if es = [] then [] else fst (last es)),
          bb_entries_since_restart = (if es = [] then 0 else (length es - 1) mod r + 1),
          bb_entry_count = length es, bb_finished = False\<rparr>"

lemma builder_rep_new: "0 < r \<Longrightarrow> builder_rep r [] (BlockBuilder_new r)"
  by (simp add: builder_rep_def BlockBuilder_new_def restart_list_def restart_number_def)

lemma builder_rep_reset: "0 < r \<Longrightarrow> bb_restart_interval b = r \<Longrightarrow> builder_rep r [] (BlockBuilder_reset b)"
  by (simp add: builder_rep_def BlockBuilder_reset_def restart_list_def restart_number_def)

lemma restart_due: "0 < (r :: nat) \<Longrightarrow> (n - 1) mod r + 1 = r \<longleftrightarrow> n mod r = 0" if "0 < n" for n r
  using that by (cases n) (auto simp: mod_Suc)

lemma restart_step:
  assumes "0 < (r :: nat)" "0 < n"
  shows "n div r = (if n mod r = 0 then (n - 1) div r + 1 else (n - 1) div r)"
    and "n mod r = (if n mod r = 0 then 0 else (n - 1) mod r + 1)"
  using assms by (cases n; auto simp: div_Suc mod_Suc)+

lemma restart_list_append:
  assumes "0 < r"
  shows "restart_list r (es @ [e]) = restart_list r es @
    (if es \<noteq> [] \<and> length es mod r = 0 then [of_nat (entry_offset r es (length es))] else [])"
proof -
  have old: "entry_offset r (es @ [e]) (j * r) = entry_offset r es (j * r)"
    if "j * r \<le> length es" for j
    using that by (simp add: entry_offset_def entries_bytes_append)
  show ?thesis
  proof (cases "es = []")
    case True
    then show ?thesis by (simp add: restart_list_def restart_number_def)
  next
    case False
    let ?n = "length es"
    have n: "0 < ?n" using False by simp
    have "entry_offset r (es @ [e]) (j * r) = entry_offset r es (j * r)"
      if "j < restart_number r ?n" for j
      using restart_index [OF assms that] by (intro old) simp
    then have m: "map (\<lambda>j. of_nat (entry_offset r (es @ [e]) (j * r)) :: u32) [0..<restart_number r ?n] =
        restart_list r es"
      by (simp add: restart_list_def)
    have "?n div r * r = ?n" if "?n mod r = 0" using that by auto
    then show ?thesis
      using False m restart_step [OF assms n] old [of "?n div r"]
      by (auto simp: restart_list_def restart_number_def)
  qed
qed

lemma builder_rep_add:
  assumes "builder_rep r es b"
  shows "builder_rep r (es @ [(k, v)]) (BlockBuilder_add k v b)"
proof -
  have r: "0 < r" using assms by (simp add: builder_rep_def)
  let ?n = "length es"
  have eb: "entries_bytes r (es @ [(k, v)]) ?n = entries_bytes r es ?n"
    by (simp add: entries_bytes_append)
  show ?thesis
  proof (cases "es \<noteq> [] \<and> ?n mod r = 0")
    case True
    then have n: "0 < ?n" by simp
    have "bb_entries_since_restart b = bb_restart_interval b"
      using assms True restart_due [OF n r] by (simp add: builder_rep_def)
    then show ?thesis
      using assms True eb restart_list_append [OF r, of es "(k, v)"]
      by (simp add: builder_rep_def BlockBuilder_add_def Let_def entry_bytes_def entry_shared_def
          putFixed32_def entry_offset_def)
  next
    case False
    have since: "bb_entries_since_restart b \<noteq> bb_restart_interval b"
      using assms False r restart_due [of ?n r] by (auto simp: builder_rep_def)
    have sh: "commonPrefix (bb_last_key b) k = entry_shared r (es @ [(k, v)]) ?n"
      using assms False
      by (cases "es = []") (auto simp: builder_rep_def entry_shared_def nth_append last_conv_nth)
    have "(if es = [] then 0 else (?n - 1) mod r + 1) + 1 = ?n mod r + 1"
      using False restart_step(2) [OF r, of ?n] by auto
    then show ?thesis
      using assms False since sh eb restart_list_append [OF r, of es "(k, v)"]
      by (auto simp: builder_rep_def BlockBuilder_add_def Let_def entry_bytes_def putFixed32_def)
  qed
qed

lemma builder_finish:
  assumes "builder_rep r es b"
  shows "fst (BlockBuilder_finish b) = block_bytes r es"
proof -
  have "fold (\<lambda>x acc. putFixed32 acc x) xs acc = acc @ concat (map encodeFixed32 xs)" for xs acc
    by (induction xs arbitrary: acc) (simp_all add: putFixed32_def)
  then show ?thesis
    using assms
    by (simp add: BlockBuilder_finish_def builder_rep_def Let_def block_bytes_def putFixed32_def
        restart_list_def)
qed

subsection \<open>The iterator\<close>

definition blk_ok :: "nat \<Rightarrow> entry list \<Rightarrow> bool" where
  "blk_ok r es \<longleftrightarrow> 0 < r \<and> sorted_entries es \<and> (\<forall>e \<in> set es. fits e) \<and>
     length (block_bytes r es) < 2 ^ 32"

definition blk_frame :: "nat \<Rightarrow> entry list \<Rightarrow> BlockIterator \<Rightarrow> bool" where
  "blk_frame r es it \<longleftrightarrow> blk_ok r es \<and> bi_block it = block_bytes r es \<and>
     bi_restart_offset it = entry_offset r es (length es) \<and>
     bi_restart_count it = restart_number r (length es) \<and> status_ok (bi_status it)"

definition blk_at :: "BlockIterator \<Rightarrow> entry list \<Rightarrow> nat \<Rightarrow> bool" where
  "blk_at it es i \<longleftrightarrow> i \<le> length es \<and> (\<exists>r. blk_frame r es it \<and>
     (if i < length es
      then bi_valid it \<and> bi_key it = fst (es ! i) \<and> bi_value it = snd (es ! i) \<and>
           bi_next_offset it = entry_offset r es (Suc i)
      else \<not> bi_valid it))"

lemma length_restarts [simp]: "length (concat (map encodeFixed32 xs)) = 4 * length xs"
  by (induction xs) simp_all

lemma length_restart_list [simp]: "length (restart_list r es) = restart_number r (length es)"
  by (simp add: restart_list_def)

lemma length_block_bytes:
  "length (block_bytes r es) = entry_offset r es (length es) + 4 * restart_number r (length es) + 4"
  by (simp add: block_bytes_def entry_offset_def)

lemma blk_okD:
  assumes "blk_ok r es" "i < length es"
  shows "entry_offset r es i < entry_offset r es (length es)"
    and "wf_ikey (fst (es ! i))" "fits (es ! i)" "entry_offset r es (Suc i) \<le> entry_offset r es (length es)"
  using assms entry_offset_mono [of i "length es" r es] entry_offset_mono [of "Suc i" "length es" r es]
  by (auto simp: blk_ok_def sorted_entries_def)

lemma entry_offset_inject:
  assumes "i \<le> length es" "j \<le> length es"
  shows "entry_offset r es i = entry_offset r es j \<longleftrightarrow> i = j"
  using entry_offset_mono [of i j r es] entry_offset_mono [of j i r es] assms
  by (cases i j rule: linorder_cases) auto

text \<open>The header of an entry and what follows it.\<close>

lemma header_parts:
  assumes "input = encodeFixed32 a @ encodeFixed32 b @ encodeFixed32 c @ body"
  shows "decodeFixed32 input = a" "decodeFixed32 (drop 4 input) = b"
    "decodeFixed32 (drop 8 input) = c" "drop 12 input = body" "12 \<le> length input"
proof -
  have "drop 4 input = encodeFixed32 b @ encodeFixed32 c @ body"
    "drop 8 input = encodeFixed32 c @ body" unfolding assms by simp_all
  then show "decodeFixed32 (drop 4 input) = b" "decodeFixed32 (drop 8 input) = c"
    by (simp_all only: decodeFixed32_encode)
qed (simp_all add: assms)

lemma blk_input:
  assumes "blk_frame r es it" "i < length es"
  defines "input \<equiv> take (bi_restart_offset it - entry_offset r es i)
     (drop (entry_offset r es i) (bi_block it))"
    and "sh \<equiv> entry_shared r es i"
  shows "\<exists>rest. drop 12 input = drop sh (fst (es ! i)) @ snd (es ! i) @ rest"
    and "unat (decodeFixed32 input) = sh"
    and "unat (decodeFixed32 (drop 4 input)) = length (fst (es ! i)) - sh"
    and "unat (decodeFixed32 (drop 8 input)) = length (snd (es ! i))" and "12 \<le> length input"
proof -
  let ?n = "length es"
  have ok: "blk_ok r es" using assms(1) by (simp add: blk_frame_def)
  have "input = drop (entry_offset r es i) (entries_bytes r es ?n)"
    using assms(1) blk_okD(1) [OF ok assms(2)]
    unfolding input_def blk_frame_def block_bytes_def by (simp add: entry_offset_def)
  also have "\<dots> = entry_bytes r es i @ concat (map (entry_bytes r es) [Suc i..<?n])"
    by (rule drop_entries_bytes [OF assms(2)])
  finally have inp: "input = encodeFixed32 (of_nat sh) @ encodeFixed32 (of_nat (length (fst (es ! i)) - sh)) @
      encodeFixed32 (of_nat (length (snd (es ! i)))) @
      (drop sh (fst (es ! i)) @ snd (es ! i) @ concat (map (entry_bytes r es) [Suc i..<?n]))"
    by (simp add: entry_bytes_def sh_def)
  note h = header_parts [OF inp]
  have "fits (es ! i)" by (rule blk_okD(3) [OF ok assms(2)])
  then have "sh < 2 ^ 32" "length (fst (es ! i)) - sh < 2 ^ 32" "length (snd (es ! i)) < 2 ^ 32"
    using entry_shared_le [of r es i] by (auto simp: fits_def sh_def)
  then show "\<exists>rest. drop 12 input = drop sh (fst (es ! i)) @ snd (es ! i) @ rest"
    "unat (decodeFixed32 input) = sh"
    "unat (decodeFixed32 (drop 4 input)) = length (fst (es ! i)) - sh"
    "unat (decodeFixed32 (drop 8 input)) = length (snd (es ! i))" "12 \<le> length input"
    using h by (auto simp: unat_length)
qed

lemma decode_at:
  assumes fr: "blk_frame r es it" and i: "i < length es"
    and key: "i mod r \<noteq> 0 \<Longrightarrow> bi_key it = fst (es ! (i - 1))"
  shows "BlockIterator_decodeEntry (entry_offset r es i) it =
    (True, it\<lparr>bi_value := snd (es ! i), bi_next_offset := entry_offset r es (Suc i),
              bi_key := fst (es ! i), bi_valid := True\<rparr>)"
proof -
  let ?off = "entry_offset r es i" and ?sh = "entry_shared r es i" and ?k = "fst (es ! i)"
  have ok: "blk_ok r es" using fr by (simp add: blk_frame_def)
  define input where "input = take (bi_restart_offset it - ?off) (drop ?off (bi_block it))"
  note p = blk_input [OF fr i, folded input_def]
  obtain rest where d: "drop 12 input = drop ?sh ?k @ snd (es ! i) @ rest" using p(1) by blast
  have pre: "take ?sh (bi_key it) = take ?sh ?k" "?sh \<le> length (bi_key it)"
    using key commonPrefix_take [of "fst (es ! (i - 1))" ?k] commonPrefix_le [of "fst (es ! (i - 1))" ?k]
    by (auto simp: entry_shared_def)
  have lt: "\<not> bi_restart_offset it \<le> ?off"
    using blk_okD(1) [OF ok i] fr by (simp add: blk_frame_def)
  have "parseInternalKey ?k \<noteq> None" using blk_okD(2) [OF ok i] by (simp add: wf_ikey_def)
  moreover have "take ?sh ?k @ drop ?sh ?k = ?k" by simp
  ultimately show ?thesis
    using lt p(2-5) pre d
    by (auto simp: BlockIterator_decodeEntry_def kEntryHeaderSize_def entry_offset_Suc Let_def
        input_def [symmetric])
qed

lemma blk_at_decode:
  assumes "blk_frame r es it" "i < length es" "i mod r \<noteq> 0 \<Longrightarrow> bi_key it = fst (es ! (i - 1))"
  shows "fst (BlockIterator_decodeEntry (entry_offset r es i) it)"
    and "blk_at (snd (BlockIterator_decodeEntry (entry_offset r es i) it)) es i"
    and "blk_frame r es (snd (BlockIterator_decodeEntry (entry_offset r es i) it))"
  using assms decode_at [OF assms] by (auto simp: blk_at_def blk_frame_def)

lemma blk_frame_invalidate [simp]: "blk_frame r es it \<Longrightarrow> blk_frame r es (BlockIterator_invalidate it)"
  by (simp add: blk_frame_def BlockIterator_invalidate_def)

lemma blk_at_invalidate: "blk_frame r es it \<Longrightarrow> blk_at (BlockIterator_invalidate it) es (length es)"
  by (auto simp: blk_at_def BlockIterator_invalidate_def blk_frame_def)

lemma blk_at_first:
  assumes "blk_frame r es it"
  shows "blk_at (BlockIterator_seekToFirst it) es 0"
proof (cases "es = []")
  case True
  then show ?thesis
    using assms blk_at_invalidate [OF assms]
    by (auto simp: BlockIterator_seekToFirst_def BlockIterator_invalidate_def blk_frame_def)
next
  case False
  have ok: "blk_ok r es" using assms by (simp add: blk_frame_def)
  have "bi_restart_offset (BlockIterator_invalidate it) \<noteq> 0" "status_ok (bi_status it)"
    using False blk_okD(1) [OF ok, of 0] assms
    by (auto simp: blk_frame_def BlockIterator_invalidate_def)
  then show ?thesis
    using False blk_at_decode(2) [OF blk_frame_invalidate [OF assms], of 0]
    by (simp add: BlockIterator_seekToFirst_def Let_def)
qed

lemma blk_at_next:
  assumes "blk_at it es i" "i < length es"
  shows "blk_at (BlockIterator_next it) es (Suc i)"
proof -
  obtain r where r: "blk_frame r es it" "bi_key it = fst (es ! i)"
    "bi_next_offset it = entry_offset r es (Suc i)"
    using assms by (auto simp: blk_at_def)
  have "bi_restart_offset it = entry_offset r es (length es)" using r(1) by (simp add: blk_frame_def)
  then show ?thesis
    using r assms(2) blk_at_invalidate [OF r(1)] blk_at_decode(2) [OF r(1), of "Suc i"]
      entry_offset_inject [of "Suc i" es "length es" r]
    by (cases "Suc i = length es") (auto simp: BlockIterator_next_def)
qed

subsection \<open>Seeking\<close>

lemma decode_restart:
  "j < length xs \<Longrightarrow> decodeFixed32 (drop (4 * j) (concat (map encodeFixed32 xs) @ t)) = xs ! j"
proof (induction xs arbitrary: j)
  case (Cons x xs)
  then show ?case by (cases j) simp_all
qed simp

lemma restart_offset_le:
  assumes "blk_ok r es" "j < restart_number r (length es)" "es \<noteq> []"
  shows "j * r < length es"
  using restart_index [of r j "length es"] assms by (cases es) (auto simp: blk_ok_def)

lemma restartOffset_at:
  assumes "blk_frame r es it" "j < restart_number r (length es)"
  shows "BlockIterator_restartOffset j it = entry_offset r es (j * r)"
proof -
  have ok: "blk_ok r es" and r: "0 < r" using assms(1) by (auto simp: blk_frame_def blk_ok_def)
  have "j * r \<le> length es" using restart_index [OF r assms(2)] by simp
  then have "entry_offset r es (j * r) \<le> entry_offset r es (length es)"
    using entry_offset_mono [of "j * r" "length es" r es] by simp
  then have lt: "entry_offset r es (j * r) < 2 ^ 32"
    using ok unfolding blk_ok_def length_block_bytes by linarith
  have "drop (bi_restart_offset it + j * 4) (bi_block it) =
      drop (4 * j) (concat (map encodeFixed32 (restart_list r es)) @
        encodeFixed32 (of_nat (restart_number r (length es))))"
    using assms(1) unfolding blk_frame_def block_bytes_def
    by (simp add: entry_offset_def add.commute mult.commute)
  then show ?thesis
    using decode_restart [of j "restart_list r es"] assms(2) lt
    by (simp add: BlockIterator_restartOffset_def restart_list_def unat_length)
qed

lemma readRestartKey_at:
  assumes fr: "blk_frame r es it" and j: "j < restart_number r (length es)" and ne: "es \<noteq> []"
  shows "BlockIterator_readRestartKey j it = (Some (fst (es ! (j * r))), it)"
proof -
  have ok: "blk_ok r es" using fr by (simp add: blk_frame_def)
  have i: "j * r < length es" by (rule restart_offset_le [OF ok j ne])
  let ?off = "entry_offset r es (j * r)" and ?k = "fst (es ! (j * r))"
  define input where "input = take (bi_restart_offset it - ?off) (drop ?off (bi_block it))"
  note p = blk_input [OF fr i, folded input_def]
  have sh: "entry_shared r es (j * r) = 0" by (simp add: entry_shared_def)
  then obtain rest where d: "drop 12 input = ?k @ snd (es ! (j * r)) @ rest" using p(1) by auto
  have "\<not> bi_restart_offset it \<le> ?off"
    using blk_okD(1) [OF ok i] fr by (simp add: blk_frame_def)
  moreover have "parseInternalKey ?k \<noteq> None" using blk_okD(2) [OF ok i] by (simp add: wf_ikey_def)
  ultimately show ?thesis
    using p(2-5) d sh
    by (auto simp: BlockIterator_readRestartKey_def restartOffset_at [OF fr j] kEntryHeaderSize_def
        Let_def input_def [symmetric])
qed

lemma sorted_keys_mono:
  assumes "blk_ok r es" "i < j" "j < length es" "wf_ikey target"
    and "InternalKeyLess target (fst (es ! i))"
  shows "InternalKeyLess target (fst (es ! j))"
proof -
  have "InternalKeyLess (fst (es ! i)) (fst (es ! j))"
    using assms(1-3) by (auto simp: blk_ok_def sorted_entries_def entry_less_def sorted_wrt_iff_nth_less)
  moreover have "wf_ikey (fst (es ! i))" "wf_ikey (fst (es ! j))"
    using blk_okD(2) [OF assms(1)] assms(2,3) by auto
  ultimately show ?thesis using wfkey.less_trans assms(4,5) by blast
qed

lemma search_restarts_at:
  assumes fr: "blk_frame r es it" and ne: "es \<noteq> []" and wf: "wf_ikey target"
  defines "gt \<equiv> \<lambda>j. InternalKeyLess target (fst (es ! (j * r)))"
  shows "left \<le> right \<Longrightarrow> right \<le> restart_number r (length es) \<Longrightarrow>
    \<forall>j < left. \<not> gt j \<Longrightarrow> \<forall>j. right \<le> j \<and> j < restart_number r (length es) \<longrightarrow> gt j \<Longrightarrow>
    \<exists>k \<le> restart_number r (length es). search_restarts target left right it = (Some k, it) \<and>
      (\<forall>j < k. \<not> gt j) \<and> (\<forall>j. k \<le> j \<and> j < restart_number r (length es) \<longrightarrow> gt j)"
proof (induction "right - left" arbitrary: left right rule: less_induct)
  case less
  let ?m = "left + (right - left) div 2" and ?R = "restart_number r (length es)"
  have ok: "blk_ok r es" and r: "0 < r" using fr by (auto simp: blk_frame_def blk_ok_def)
  have mono: "gt j" if "gt i" "i \<le> j" "j < ?R" for i j
  proof (cases "i = j")
    case False
    then have "i * r < j * r" using that(2) r by simp
    then show ?thesis
      using sorted_keys_mono [OF ok _ restart_offset_le [OF ok that(3) ne] wf, of "i * r"] that(1)
      by (simp add: gt_def)
  qed (use that in simp)
  show ?case
  proof (cases "left < right")
    case False
    then show ?thesis
      using less.prems by (subst search_restarts.simps) (auto intro!: exI [of _ left])
  next
    case True
    then have m: "left \<le> ?m" "?m < right" "?m < ?R" using less.prems(2) by auto
    have step: "search_restarts target left right it =
        (if \<not> gt ?m then search_restarts target (?m + 1) right it
         else search_restarts target left ?m it)"
      using True readRestartKey_at [OF fr m(3) ne]
      by (subst search_restarts.simps) (simp add: Let_def gt_def)
    show ?thesis
    proof (cases "gt ?m")
      case True
      then have "\<forall>j. ?m \<le> j \<and> j < ?R \<longrightarrow> gt j" using mono by blast
      then show ?thesis
        using less.hyps [of ?m left] less.prems m True step by auto
    next
      case False
      have "\<forall>j < ?m + 1. \<not> gt j"
        using mono [of _ ?m] False m(3) by (metis Suc_eq_plus1 less_Suc_eq_le)
      then show ?thesis
        using less.hyps [of right "?m + 1"] less.prems m False step by auto
    qed
  qed
qed

lemma lower_bound_prefix: "\<forall>j < lower_bound es target. InternalKeyLess (fst (es ! j)) target"
  by (auto simp: lower_bound_def dest: nth_mem set_takeWhileD simp flip: takeWhile_nth)

lemma lower_bound_ge:
  assumes "\<forall>j < i. InternalKeyLess (fst (es ! j)) target" "i \<le> length es"
  shows "i \<le> lower_bound es target"
  using assms
proof (induction es arbitrary: i)
  case (Cons e es)
  show ?case
  proof (cases i)
    case (Suc k)
    then have "InternalKeyLess (fst e) target" "\<forall>j < k. InternalKeyLess (fst (es ! j)) target"
      using Cons.prems by (auto dest: spec [of _ 0] spec [of _ "Suc _"])
    then show ?thesis using Cons.IH [of k] Cons.prems Suc by (simp add: lower_bound_def)
  qed simp
qed simp

lemma lower_bound_stop:
  "i < length es \<Longrightarrow> \<not> InternalKeyLess (fst (es ! i)) target \<Longrightarrow> lower_bound es target \<le> i"
  using lower_bound_prefix [of es target] by (meson not_le)

lemma seek_forward_at:
  "blk_at it es i \<Longrightarrow> \<forall>j < i. InternalKeyLess (fst (es ! j)) target \<Longrightarrow>
     blk_at (seek_forward target it) es (lower_bound es target)"
proof (induction target it arbitrary: i rule: seek_forward.induct)
  case (1 target it)
  have i: "i \<le> length es" using "1.prems"(1) by (simp add: blk_at_def)
  have v: "bi_valid it \<longleftrightarrow> i < length es" "i < length es \<Longrightarrow> bi_key it = fst (es ! i)"
    using "1.prems"(1) by (auto simp: blk_at_def split: if_splits)
  show ?case
  proof (cases "i < length es \<and> InternalKeyLess (fst (es ! i)) target")
    case True
    then have "\<forall>j < Suc i. InternalKeyLess (fst (es ! j)) target"
      using "1.prems"(2) by (auto simp: less_Suc_eq)
    then show ?thesis
      using "1.IH" [OF _ blk_at_next [OF "1.prems"(1)]] True v
      by (subst seek_forward.simps) auto
  next
    case False
    then have "lower_bound es target = i"
      using lower_bound_ge [OF "1.prems"(2) i] lower_bound_stop [of i es target]
        lower_bound_le [of es target] i by (cases "i < length es") auto
    then show ?thesis
      using False v "1.prems"(1) by (subst seek_forward.simps) auto
  qed
qed

lemma blk_at_seek:
  assumes fr: "blk_frame r es it" and wf: "wf_ikey target"
  shows "blk_at (BlockIterator_seek target it) es (lower_bound es target)"
proof (cases "es = []")
  case True
  then show ?thesis
    using fr blk_at_invalidate [OF fr]
    by (auto simp: BlockIterator_seek_def BlockIterator_invalidate_def blk_frame_def lower_bound_def)
next
  case False
  let ?it = "BlockIterator_invalidate it" and ?R = "restart_number r (length es)"
  have fri: "blk_frame r es ?it" using fr by simp
  have ok: "blk_ok r es" using fr by (simp add: blk_frame_def)
  obtain k where k: "search_restarts target 0 ?R ?it = (Some k, ?it)" "k \<le> ?R"
    "\<forall>j < k. \<not> InternalKeyLess target (fst (es ! (j * r)))"
    using search_restarts_at [OF fri False wf le0 order_refl] by (metis not_le not_less0)
  define j where "j = (if k = 0 then 0 else k - 1)"
  have j: "j < ?R" using k(2) by (auto simp: j_def restart_number_def)
  note i = restart_offset_le [OF ok j False]
  have "InternalKeyLess (fst (es ! a)) target" if a: "a < j * r" for a
  proof -
    have "\<not> InternalKeyLess target (fst (es ! (j * r)))" using k(3) a by (auto simp: j_def split: if_splits)
    moreover have "InternalKeyLess (fst (es ! a)) (fst (es ! (j * r)))"
      using ok i a by (auto simp: blk_ok_def sorted_entries_def entry_less_def sorted_wrt_iff_nth_less)
    ultimately show ?thesis
      using wfkey.less_le_trans blk_okD(2) [OF ok] i a wf by (meson less_trans)
  qed
  then have pre: "\<forall>a < j * r. InternalKeyLess (fst (es ! a)) target" by blast
  have frk: "blk_frame r es (?it\<lparr>bi_key := []\<rparr>)" using fri by (simp add: blk_frame_def)
  obtain it2 where d: "BlockIterator_decodeEntry (entry_offset r es (j * r)) (?it\<lparr>bi_key := []\<rparr>) =
      (True, it2)" "blk_at it2 es (j * r)"
    using blk_at_decode(1,2) [OF frk i] by (metis mod_mult_self2_is_0 prod.collapse)
  have "bi_restart_offset ?it \<noteq> 0" "bi_restart_count ?it = ?R" "status_ok (bi_status it)"
    using False blk_okD(1) [OF ok, of 0] fr by (auto simp: blk_frame_def BlockIterator_invalidate_def)
  then have "BlockIterator_seek target it = seek_forward target it2"
    using k(1) d(1) restartOffset_at [OF fri j]
    by (simp add: BlockIterator_seek_def BlockIterator_seekToRestartPoint_def Let_def j_def [symmetric])
  then show ?thesis using seek_forward_at [OF d(2) pre] by simp
qed

lemma blk_at_frame: "blk_at it es i \<Longrightarrow> \<exists>r. blk_frame r es it"
  by (auto simp: blk_at_def)

interpretation blk_iter: internal_iterator BlockIterator_ops blk_at
proof
  fix it es i assume at: "blk_at it es i"
  then obtain r where r: "blk_frame r es it" by (blast dest: blk_at_frame)
  show "sorted_entries es \<and> i \<le> length es"
    using at r by (simp add: blk_at_def blk_frame_def blk_ok_def)
  show "it_valid BlockIterator_ops it \<longleftrightarrow> i < length es"
    using at by (auto simp: blk_at_def BlockIterator_ops_def split: if_splits)
  show "blk_at (it_seekToFirst BlockIterator_ops it) es 0"
    using blk_at_first [OF r] by (simp add: BlockIterator_ops_def)
  show "blk_at (it_seek BlockIterator_ops target it) es (lower_bound es target)"
    if "wf_ikey target" for target
    using blk_at_seek [OF r that] by (simp add: BlockIterator_ops_def)
  show "status_ok (it_status BlockIterator_ops it)"
    using r by (simp add: BlockIterator_ops_def blk_frame_def)
  assume "i < length es"
  then show "blk_at (it_next BlockIterator_ops it) es (Suc i)"
    "it_internalKey BlockIterator_ops it = fst (es ! i)" "it_value BlockIterator_ops it = snd (es ! i)"
    using at blk_at_next [OF at] by (auto simp: BlockIterator_ops_def blk_at_def)
qed

lemma blk_new:
  assumes "blk_ok r es"
  shows "blk_at (BlockIterator_new (block_bytes r es)) es (length es)"
proof -
  let ?R = "restart_number r (length es)" and ?ro = "entry_offset r es (length es)"
  let ?b = "block_bytes r es"
  have len: "length ?b = ?ro + 4 * ?R + 4" by (rule length_block_bytes)
  have lt: "?R < 2 ^ 32" using assms unfolding blk_ok_def len by linarith
  have R: "0 < ?R" by (simp add: restart_number_def)
  have "drop (length ?b - 4) ?b = encodeFixed32 (of_nat ?R)"
    unfolding len by (simp add: block_bytes_def entry_offset_def)
  then have c: "unat (decodeFixed32 (drop (length ?b - 4) ?b)) = ?R"
    using decodeFixed32_encode [of "of_nat ?R" "[]"] lt by (simp add: unat_length)
  define it where "it = \<lparr>bi_block = ?b, bi_restart_offset = ?ro, bi_restart_count = ?R,
      bi_next_offset = 0, bi_key = [], bi_value = [], bi_valid = False, bi_status = success\<rparr>"
  have fr: "blk_frame r es it" using assms by (simp add: blk_frame_def it_def)
  then have "BlockIterator_restartOffset 0 it = 0" using restartOffset_at [OF fr R] by simp
  then have "BlockIterator_new ?b = it"
    using c len R by (simp add: BlockIterator_new_def Let_def it_def)
  then show ?thesis using fr by (auto simp: blk_at_def it_def)
qed

definition build_block :: "nat \<Rightarrow> entry list \<Rightarrow> BlockBuilder" where
  "build_block r es = fold (\<lambda>(k, v). BlockBuilder_add k v) es (BlockBuilder_new r)"

lemma build_block_rep:
  assumes "0 < r"
  shows "builder_rep r es (build_block r es)"
proof (induction es rule: rev_induct)
  case Nil
  then show ?case using builder_rep_new [OF assms] by (simp add: build_block_def)
next
  case (snoc e es)
  then show ?case
    using builder_rep_add [OF snoc, of "fst e" "snd e"] by (simp add: build_block_def case_prod_beta)
qed

subsection \<open>Arbitrary bytes\<close>

text \<open>What holds of an iterator over bytes that need not be a block.\<close>

definition blk_safe :: "BlockIterator \<Rightarrow> bool" where
  "blk_safe it \<longleftrightarrow> bi_restart_offset it \<le> length (bi_block it) \<and>
     (bi_valid it \<longrightarrow> status_ok (bi_status it) \<and> wf_ikey (bi_key it) \<and>
        bi_next_offset it \<le> bi_restart_offset it)"



lemma invalidate_fields [simp]:
  "bi_restart_offset (BlockIterator_invalidate it) = bi_restart_offset it"
  "bi_block (BlockIterator_invalidate it) = bi_block it"
  "bi_status (BlockIterator_invalidate it) = bi_status it"
  "bi_restart_count (BlockIterator_invalidate it) = bi_restart_count it"
  "\<not> bi_valid (BlockIterator_invalidate it)"
  by (simp_all add: BlockIterator_invalidate_def)

lemma blk_safe_invalidate [simp]:
  "bi_restart_offset it \<le> length (bi_block it) \<Longrightarrow> blk_safe (BlockIterator_invalidate it)"
  by (simp add: blk_safe_def BlockIterator_invalidate_def)

lemma blk_safe_fail [simp]:
  "bi_restart_offset it \<le> length (bi_block it) \<Longrightarrow> blk_safe (BlockIterator_fail m it)"
  by (simp add: BlockIterator_fail_def)










subsection \<open>Properties\<close>

text \<open>
  C20. Blocks round-trip: building a block from sorted entries, with any restart interval, and
  iterating over the bytes yields exactly these entries with their full keys and values, in
  order; a seek by binary search over the restart points finds the same position as a linear
  search, the first entry that is not less than the target.
\<close>

theorem block_roundtrip:
  assumes "blk_ok r es" and "wf_ikey target"
  shows "fst (BlockBuilder_finish (build_block r es)) = block_bytes r es \<and>
    iter_scan BlockIterator_ops (length es)
      (BlockIterator_seekToFirst (BlockIterator_new (block_bytes r es))) = es \<and>
    iter_scan BlockIterator_ops (length es)
      (BlockIterator_seek target (BlockIterator_new (block_bytes r es))) =
      dropWhile (\<lambda>e. InternalKeyLess (fst e) target) es"
proof -
  have "0 < r" using assms(1) by (simp add: blk_ok_def)
  note at = blk_new [OF assms(1)]
  obtain q where "blk_frame q es (BlockIterator_new (block_bytes r es))"
    using blk_at_frame [OF at] by blast
  from blk_iter.scan_at [OF blk_at_seek [OF this assms(2)], of "length es"] show ?thesis
    using builder_finish [OF build_block_rep [OF \<open>0 < r\<close>]] blk_iter.scan_first [OF at order_refl]
    by (simp add: BlockIterator_ops_def lower_bound_def drop_length_takeWhile)
qed

theorem block_roundtrip_witness:
  "iter_scan BlockIterator_ops 2 (BlockIterator_seekToFirst (BlockIterator_new (block_bytes 2
     [(encodeInternalKey [0x61] 3 kValue, [1]), (encodeInternalKey [0x61] 1 kDeletion, [])]))) =
   [(encodeInternalKey [0x61] 3 kValue, [1]), (encodeInternalKey [0x61] 1 kDeletion, [])]"
proof -
  let ?es = "[(encodeInternalKey [0x61] 3 kValue, [1]), (encodeInternalKey [0x61] 1 kDeletion, [])] :: entry list"
  have k: "(3 :: u64) \<le> kMaxSequenceNumber" "(1 :: u64) \<le> kMaxSequenceNumber"
    by (simp_all add: kMaxSequenceNumber_def)
  have "sorted_entries ?es" using k by (auto simp: sorted_entries_Cons entry_less_iff sorted_entries_def)
  moreover have "length (block_bytes 2 ?es) < 2 ^ 32"
    by (simp add: length_block_bytes entry_offset_Suc restart_number_def)
  ultimately have "blk_ok 2 ?es" by (simp add: blk_ok_def fits_def)
  note rt = block_roundtrip [OF this wf_ikey_encode [OF k(1), of "[0x61]" kValue],
      THEN conjunct2, THEN conjunct1]
  have "length ?es = 2" by simp
  then show ?thesis using rt by (simp only:)
qed


end
