(* ===== verification/BloomFilter.thy ===== *)
theory BloomFilter
  imports Coding
begin

text \<open>
  \<^verbatim>\<open>src/table/bloom_filter.h\<close> and \<^verbatim>\<open>bloom_filter.cc\<close>: the bloom filter of a table.  Hashes
  are 32-bit words with wrap-around; a filter is its bit array followed by the number of
  probes.  The lemmas follow the bits: a probe sets one, keeps the others, and the test reads
  the same positions.
\<close>

definition kBloomHashSeed :: u32 where
  "kBloomHashSeed = 0xbc9f1d34"

definition kBloomBitsPerKey :: nat where
  "kBloomBitsPerKey = 10"

definition kBloomProbes :: nat where
  "kBloomProbes = 6"

definition kMinimumBloomBits :: nat where
  "kMinimumBloomBits = 64"

definition kMaximumProbes :: nat where
  "kMaximumProbes = 30"

definition bloom_multiplier :: u32 where
  "bloom_multiplier = 0xc6a4a793"

function bloomHash_loop :: "u32 \<Rightarrow> bytes \<Rightarrow> u32 \<times> bytes" where
  "bloomHash_loop hash data =
     (if 4 \<le> length data
      then let hash = hash + decodeFixed32 data;
               hash = hash * bloom_multiplier;
               hash = hash XOR drop_bit 16 hash
        in bloomHash_loop hash (drop 4 data)
      else (hash, data))"
  by pat_completeness auto
termination by (relation "measure (\<lambda>(hash, data). length data)") auto

definition bloomHash :: "bytes \<Rightarrow> u32" where
  "bloomHash key =
     (let (hash, data) = bloomHash_loop
            (kBloomHashSeed XOR (of_nat (length key) * bloom_multiplier)) key;
          hash = (if length data = 3 then hash + push_bit 16 (ucast (data ! 2)) else hash);
          hash = (if 2 \<le> length data then hash + push_bit 8 (ucast (data ! 1)) else hash)
      in if 1 \<le> length data
         then let hash = hash + ucast (data ! 0);
                  hash = hash * bloom_multiplier
           in hash XOR drop_bit 24 hash
         else hash)"

definition rotatedDelta :: "u32 \<Rightarrow> u32" where
  "rotatedDelta hash = (drop_bit 17 hash OR push_bit 15 hash)"

fun set_probes :: "nat \<Rightarrow> u32 \<Rightarrow> u32 \<Rightarrow> nat \<Rightarrow> bytes \<Rightarrow> bytes" where
  "set_probes 0 hash delta bit_count encoded = encoded"
| "set_probes (Suc probes) hash delta bit_count encoded =
     (let position = unat hash mod bit_count
      in set_probes probes (hash + delta) delta bit_count
           (encoded[position div 8 := (encoded ! (position div 8)) OR push_bit (position mod 8) 1]))"

definition buildFilter :: "u32 list \<Rightarrow> bytes" where
  "buildFilter hashes =
     (let bit_count = length hashes * kBloomBitsPerKey;
          bit_count = max bit_count kMinimumBloomBits;
          byte_count = (bit_count + 7) div 8;
          bit_count = byte_count * 8;
          encoded = replicate byte_count 0 @ [of_nat kBloomProbes]
      in fold (\<lambda>hash encoded. set_probes kBloomProbes hash (rotatedDelta hash) bit_count encoded)
           hashes encoded)"

definition BloomFilterBuilder_add :: "bytes \<Rightarrow> u32 list \<Rightarrow> u32 list" where
  "BloomFilterBuilder_add key hashes = hashes @ [bloomHash key]"

definition BloomFilterBuilder_finish :: "u32 list \<Rightarrow> bytes" where
  "BloomFilterBuilder_finish hashes = buildFilter hashes"

fun test_probes :: "nat \<Rightarrow> u32 \<Rightarrow> u32 \<Rightarrow> nat \<Rightarrow> bytes \<Rightarrow> bool" where
  "test_probes 0 hash delta bit_count encoded = True"
| "test_probes (Suc probes) hash delta bit_count encoded =
     (let position = unat hash mod bit_count
      in if (encoded ! (position div 8)) AND push_bit (position mod 8) 1 = 0 then False
         else test_probes probes (hash + delta) delta bit_count encoded)"

definition bloomFilterMayContain :: "bytes \<Rightarrow> bytes \<Rightarrow> bool" where
  "bloomFilterMayContain key encoded_filter =
     (if encoded_filter = [] then True
      else if length encoded_filter = 1 then True
      else let byte_count = length encoded_filter - 1;
               bit_count = byte_count * 8;
               probes = unat (encoded_filter ! byte_count)
        in if probes = 0 \<or> probes > kMaximumProbes then True
           else let hash = bloomHash key
             in test_probes probes hash (rotatedDelta hash) bit_count encoded_filter)"

declare bloomHash_loop.simps [simp del]

subsection \<open>Bits\<close>

definition bit_on :: "bytes \<Rightarrow> nat \<Rightarrow> bool" where
  "bit_on encoded n = bit (encoded ! (n div 8)) (n mod 8)"

lemma test_bit: "(encoded ! (n div 8)) AND push_bit (n mod 8) 1 = 0 \<longleftrightarrow> \<not> bit_on encoded n"
  for encoded :: bytes
  by (simp add: bit_on_def push_bit_eq_mult and_exp_eq_0_iff_not_bit)

lemma set_bit_on:
  assumes "p div 8 < length encoded" "n div 8 < length encoded"
  shows "bit_on (encoded[p div 8 := (encoded ! (p div 8)) OR push_bit (p mod 8) 1]) n \<longleftrightarrow>
    n = p \<or> bit_on encoded n"
proof (cases "n div 8 = p div 8")
  case True
  then have "n = p \<longleftrightarrow> n mod 8 = p mod 8" by (metis div_mult_mod_eq)
  then show ?thesis
    using True assms by (auto simp: bit_on_def bit_simps)
next
  case False
  then show ?thesis by (auto simp: bit_on_def)
qed

lemma set_probes_length [simp]: "length (set_probes k h d n e) = length e"
  by (induction k arbitrary: h e) (simp_all add: Let_def)

lemma set_probes_last:
  assumes "0 < n" "n = byte_count * 8" "length e = Suc byte_count"
  shows "set_probes k h d n e ! byte_count = e ! byte_count"
  using assms
proof (induction k arbitrary: h e)
  case (Suc k)
  have "unat h mod n div 8 < byte_count"
    using Suc.prems by (simp add: less_mult_imp_div_less)
  then show ?case using Suc by (simp add: Let_def)
qed simp

lemma set_probes_keep:
  assumes "0 < n" "n = byte_count * 8" "length e = Suc byte_count" "b < n" "bit_on e b"
  shows "bit_on (set_probes k h d n e) b"
  using assms
proof (induction k arbitrary: h e)
  case (Suc k)
  have p: "unat h mod n div 8 < length e" "b div 8 < length e"
    using Suc.prems by (simp_all add: less_mult_imp_div_less less_SucI)
  show ?case
    using Suc set_bit_on [OF p] by (simp add: Let_def)
qed simp

lemma set_probes_test:
  assumes "0 < n" "n = byte_count * 8" "length e = Suc byte_count"
  shows "\<forall>i < k. bit_on (set_probes k h d n e) (unat (h + of_nat i * d) mod n)"
  using assms
proof (induction k arbitrary: h e)
  case (Suc k)
  let ?p = "unat h mod n"
  let ?e = "e[?p div 8 := (e ! (?p div 8)) OR push_bit (?p mod 8) 1]"
  have p: "?p div 8 < length e" using Suc.prems by (simp add: less_mult_imp_div_less less_SucI)
  have "bit_on (set_probes k (h + d) d n ?e) ?p"
    using Suc.prems set_bit_on [OF p p] by (intro set_probes_keep) auto
  moreover have "bit_on (set_probes k (h + d) d n ?e) (unat (h + of_nat (Suc i) * d) mod n)"
    if "i < k" for i
    using Suc.IH [of ?e "h + d"] Suc.prems that by (simp add: algebra_simps)
  ultimately show ?case by (auto simp: Let_def less_Suc_eq_0_disj)
qed simp

lemma test_probes_iff:
  "test_probes k h d n e \<longleftrightarrow> (\<forall>i < k. bit_on e (unat (h + of_nat i * d) mod n))"
proof (induction k arbitrary: h)
  case (Suc k)
  have "(\<forall>i < Suc k. bit_on e (unat (h + of_nat i * d) mod n)) \<longleftrightarrow>
      bit_on e (unat h mod n) \<and> (\<forall>i < k. bit_on e (unat (h + d + of_nat i * d) mod n))"
    by (auto simp: less_Suc_eq_0_disj algebra_simps)
  then show ?case using Suc test_bit [of e "unat h mod n"] by (simp add: Let_def)
qed simp

subsection \<open>Filters\<close>

definition filter_bytes :: "nat \<Rightarrow> nat" where
  "filter_bytes n = (max (n * 10) 64 + 7) div 8"

lemma filter_bytes_pos: "8 \<le> filter_bytes n"
  by (simp add: filter_bytes_def)

lemma build_loop:
  assumes "n = byte_count * 8" "0 < n" "length e = Suc byte_count"
  defines "f \<equiv> fold (\<lambda>h e. set_probes 6 h (rotatedDelta h) n e)"
  shows "length (f hs e) = Suc byte_count" and "f hs e ! byte_count = e ! byte_count"
    and "b < n \<Longrightarrow> bit_on e b \<Longrightarrow> bit_on (f hs e) b"
    and "h \<in> set hs \<Longrightarrow> test_probes 6 h (rotatedDelta h) n (f hs e)"
proof -
  show len: "length (f hs e) = Suc byte_count"
    using assms(3) by (induction hs arbitrary: e) (simp_all add: f_def)
  show "f hs e ! byte_count = e ! byte_count"
    using assms(3) by (induction hs arbitrary: e) (simp_all add: f_def set_probes_last [OF assms(2,1)])
  have keep: "bit_on (f hs e) b"
    if "length e = Suc byte_count" "b < n" "bit_on e b" for hs e b
    using that by (induction hs arbitrary: e) (simp_all add: f_def set_probes_keep [OF assms(2,1)])
  then show "b < n \<Longrightarrow> bit_on e b \<Longrightarrow> bit_on (f hs e) b" using assms(3) by blast
  show "test_probes 6 h (rotatedDelta h) n (f hs e)" if "h \<in> set hs"
    using that assms(3)
  proof (induction hs arbitrary: e)
    case (Cons x hs)
    let ?e = "set_probes 6 x (rotatedDelta x) n e"
    have "test_probes 6 h (rotatedDelta h) n (f hs ?e)" if "h = x"
      using that keep [of ?e _ hs] Cons.prems(2) assms(2)
        set_probes_test [OF assms(2,1) Cons.prems(2), of 6 x "rotatedDelta x"]
      by (simp add: test_probes_iff)
    then show ?case using Cons by (auto simp: f_def)
  qed simp
qed

lemma buildFilter_props:
  "length (buildFilter hs) = Suc (filter_bytes (length hs))"
  "buildFilter hs ! filter_bytes (length hs) = 6"
  "h \<in> set hs \<Longrightarrow>
     test_probes 6 h (rotatedDelta h) (filter_bytes (length hs) * 8) (buildFilter hs)"
proof -
  let ?m = "filter_bytes (length hs)" and ?e = "replicate (filter_bytes (length hs)) 0 @ [6 :: byte]"
  have b: "buildFilter hs = fold (\<lambda>h e. set_probes 6 h (rotatedDelta h) (?m * 8) e) hs ?e"
    by (simp add: buildFilter_def Let_def filter_bytes_def kBloomBitsPerKey_def
        kMinimumBloomBits_def kBloomProbes_def)
  have m: "0 < ?m * 8" using filter_bytes_pos [of "length hs"] by simp
  note l = build_loop [OF refl m, of ?e]
  show "length (buildFilter hs) = Suc ?m" "buildFilter hs ! ?m = 6"
    "h \<in> set hs \<Longrightarrow> test_probes 6 h (rotatedDelta h) (?m * 8) (buildFilter hs)"
    unfolding b using l by (simp_all add: nth_append)
qed

lemma buildFilter_contains:
  assumes "key \<in> set keys"
  shows "bloomFilterMayContain key (buildFilter (map bloomHash keys))"
proof -
  have "bloomHash key \<in> set (map bloomHash keys)" using assms by simp
  note p = buildFilter_props(1,2) [of "map bloomHash keys"] buildFilter_props(3) [OF this]
  have "filter_bytes (length keys) \<noteq> 0" using filter_bytes_pos [of "length keys"] by simp
  then show ?thesis
    using p by (auto simp: bloomFilterMayContain_def Let_def kMaximumProbes_def filter_bytes_def)
qed

subsection \<open>Properties\<close>

text \<open>
  C22. A bloom filter has no false negatives: the filter built from any keys answers "may
  contain" for each of them. Its size is ten bits per key, at least 64 bits, rounded up to
  bytes, and one byte for the number of probes.
\<close>

theorem bloom_no_false_negatives:
  assumes "key \<in> set keys"
  shows "bloomFilterMayContain key
      (BloomFilterBuilder_finish (fold BloomFilterBuilder_add keys [])) \<and>
    length (BloomFilterBuilder_finish (fold BloomFilterBuilder_add keys [])) =
      (max (length keys * 10) 64 + 7) div 8 + 1"
proof -
  have "fold BloomFilterBuilder_add keys hs = hs @ map bloomHash keys" for hs
    by (induction keys arbitrary: hs) (simp_all add: BloomFilterBuilder_add_def)
  then have f: "BloomFilterBuilder_finish (fold BloomFilterBuilder_add keys []) =
      buildFilter (map bloomHash keys)"
    by (simp add: BloomFilterBuilder_finish_def)
  show ?thesis
    unfolding f using buildFilter_contains [OF assms] buildFilter_props(1) [of "map bloomHash keys"]
    by (simp add: filter_bytes_def)
qed

theorem bloom_no_false_negatives_witness:
  "bloomFilterMayContain [0x6b, 0x32]
     (BloomFilterBuilder_finish (fold BloomFilterBuilder_add [[0x6b, 0x31], [0x6b, 0x32]] []))"
  using bloom_no_false_negatives [of "[0x6b, 0x32]" "[[0x6b, 0x31], [0x6b, 0x32]]"] by simp

end
