(* ===== verification/TableFormat.thy ===== *)
theory TableFormat
  imports Crc32c Posix
begin

text \<open>
  \<^verbatim>\<open>src/table/table_format.cc\<close> and \<^verbatim>\<open>table_io.cc\<close>: block handles, the footer of a table file,
  and the reading of a block with its trailer.  A file descriptor is the content of the file
  behind it; the answers of the kernel to \<^verbatim>\<open>pread\<close> come from the environment.
  \<open>table_block\<close> is the layout of a stored block: the payload, the compression byte and the
  checksum of both.
\<close>

definition kSSTableMagic :: bytes where
  "kSSTableMagic = ascii ''LSMTREE1''"

definition kSSTableMagicSize :: nat where
  "kSSTableMagicSize = 8"

definition kSSTableVersion :: u32 where
  "kSSTableVersion = 1"

definition kNoCompression :: byte where
  "kNoCompression = 0"

definition kBlockTrailerSize :: nat where
  "kBlockTrailerSize = 1 + 4"

definition kBlockHandleSize :: nat where
  "kBlockHandleSize = 2 * 8"

definition kSSTableFooterSize :: nat where
  "kSSTableFooterSize = kSSTableMagicSize + 2 * 4 + 2 * kBlockHandleSize"

lemma footer_size [simp]: "kSSTableFooterSize = 48"
  by (simp add: kSSTableFooterSize_def kSSTableMagicSize_def kBlockHandleSize_def)

record BlockHandle =
  bh_offset :: u64
  bh_size :: u64

definition putBlockHandle :: "bytes \<Rightarrow> BlockHandle \<Rightarrow> bytes" where
  "putBlockHandle destination handle =
     putFixed64 (putFixed64 destination (bh_offset handle)) (bh_size handle)"

definition getBlockHandle :: "bytes \<Rightarrow> (BlockHandle \<times> bytes) option" where
  "getBlockHandle input =
     (case getFixed64 input of
        None \<Rightarrow> None
      | Some (offset, remaining) \<Rightarrow>
         (case getFixed64 remaining of
            None \<Rightarrow> None
          | Some (size1, remaining) \<Rightarrow> Some (\<lparr>bh_offset = offset, bh_size = size1\<rparr>, remaining)))"

definition putSSTableFooter :: "bytes \<Rightarrow> BlockHandle \<Rightarrow> BlockHandle \<Rightarrow> bytes" where
  "putSSTableFooter destination filter_handle index_handle =
     (let destination = destination @ take kSSTableMagicSize kSSTableMagic;
          destination = putFixed32 destination kSSTableVersion;
          destination = putFixed32 destination 0;
          destination = putBlockHandle destination filter_handle
      in putBlockHandle destination index_handle)"

definition decodeSSTableFooter :: "bytes \<Rightarrow> (BlockHandle \<times> BlockHandle) result" where
  "decodeSSTableFooter encoded =
     (if length encoded \<noteq> kSSTableFooterSize
      then Inl (corruption ''invalid SSTable footer size'')
      else if take kSSTableMagicSize encoded \<noteq> kSSTableMagic
      then Inl (corruption ''invalid SSTable magic'')
      else
        let invalid = Inl (corruption ''invalid SSTable footer'') in
        case getFixed32 (drop kSSTableMagicSize encoded) of None \<Rightarrow> invalid
        | Some (version, input) \<Rightarrow> (case getFixed32 input of None \<Rightarrow> invalid
        | Some (reserved, input) \<Rightarrow> (case getBlockHandle input of None \<Rightarrow> invalid
        | Some (filter_handle, input) \<Rightarrow> (case getBlockHandle input of None \<Rightarrow> invalid
        | Some (index_handle, input) \<Rightarrow>
            if input \<noteq> [] then invalid
            else if version \<noteq> kSSTableVersion
            then Inl (notSupported ''unsupported SSTable version'')
            else if reserved \<noteq> 0
            then Inl (corruption ''non-zero SSTable footer reserved field'')
            else Inr (filter_handle, index_handle)))))"

definition readExactly :: "bytes \<Rightarrow> nat \<Rightarrow> nat \<Rightarrow> Env \<Rightarrow> bytes result \<times> Env" where
  "readExactly content offset size1 env =
     (case env_read size1 (drop offset content) env of
        (Inl error_number, env) \<Rightarrow>
          (Inl (ioError (''read SSTable: '' @ error_message error_number)), env)
      | (Inr data, env) \<Rightarrow>
          (if length data < size1 then Inl (corruption ''truncated SSTable input'') else Inr data,
           env))"

definition validateBlockHandle :: "u64 \<Rightarrow> BlockHandle \<Rightarrow> Status" where
  "validateBlockHandle file_size handle =
     (if file_size < of_nat kSSTableFooterSize
      then corruption ''SSTable is shorter than its footer''
      else let block_limit = file_size - of_nat kSSTableFooterSize in
        if bh_offset handle > block_limit
        then corruption ''block offset is outside SSTable''
        else let remaining = block_limit - bh_offset handle in
          if bh_size handle > remaining \<or> of_nat kBlockTrailerSize > remaining - bh_size handle
          then corruption ''block extends outside SSTable''
          else success)"

definition readSSTableFooter ::
  "bytes \<Rightarrow> u64 \<Rightarrow> Env \<Rightarrow> (BlockHandle \<times> BlockHandle) result \<times> Env" where
  "readSSTableFooter content file_size env =
     (if file_size < of_nat kSSTableFooterSize
      then (Inl (corruption ''SSTable is shorter than its footer''), env)
      else case readExactly content (unat (file_size - of_nat kSSTableFooterSize))
                  kSSTableFooterSize env of
        (Inl status, env) \<Rightarrow> (Inl status, env)
      | (Inr encoded, env) \<Rightarrow>
         (case decodeSSTableFooter encoded of
            Inl status \<Rightarrow> Inl status
          | Inr (filter_handle, index_handle) \<Rightarrow>
              let status = validateBlockHandle file_size filter_handle in
              if \<not> status_ok status then Inl status
              else let status = validateBlockHandle file_size index_handle in
                if \<not> status_ok status then Inl status
                else Inr (filter_handle, index_handle),
          env))"

definition readBlock ::
  "bytes \<Rightarrow> u64 \<Rightarrow> BlockHandle \<Rightarrow> bool \<Rightarrow> Env \<Rightarrow> bytes result \<times> Env" where
  "readBlock content file_size handle verify_checksum env =
     (let status = validateBlockHandle file_size handle in
      if \<not> status_ok status then (Inl status, env)
      else let payload_size = unat (bh_size handle);
               block_size = payload_size + kBlockTrailerSize in
        case readExactly content (unat (bh_offset handle)) block_size env of
          (Inl status, env) \<Rightarrow> (Inl status, env)
        | (Inr block, env) \<Rightarrow>
            let trailer = drop payload_size block;
                compression = trailer ! 0 in
            if verify_checksum \<and>
               decodeFixed32 (drop 1 trailer) \<noteq> crc32c (take (payload_size + 1) block)
            then (Inl (corruption ''SSTable block checksum mismatch''), env)
            else if compression \<noteq> kNoCompression
            then (Inl (corruption ''unsupported SSTable block compression''), env)
            else (Inr (take payload_size block), env))"

text \<open>A stored block.\<close>

definition table_block :: "bytes \<Rightarrow> bytes" where
  "table_block payload =
     payload @ [kNoCompression] @ encodeFixed32 (crc32c (payload @ [kNoCompression]))"

subsection \<open>Handles and footers\<close>

lemma length_table_block [simp, size_simps]: "length (table_block p) = length p + 5"
  by (simp add: table_block_def)

lemma length_putBlockHandle [simp, size_simps]: "length (putBlockHandle d h) = length d + 16"
  by (simp add: putBlockHandle_def)

lemma putBlockHandle_append: "putBlockHandle d h = d @ putBlockHandle [] h"
  unfolding putBlockHandle_def by (metis append_assoc putFixed64_append)

lemma getBlockHandle_put [simp, codec_simps]: "getBlockHandle (putBlockHandle [] h @ r) = Some (h, r)"
  unfolding putBlockHandle_def getBlockHandle_def
  by (subst putFixed64_append) (simp add: append_assoc)

lemma getBlockHandle_Some: "getBlockHandle i = Some (h, r) \<longleftrightarrow> i = putBlockHandle [] h @ r"
proof
  assume "getBlockHandle i = Some (h, r)"
  then have "i = putFixed64 [] (bh_offset h) @ putFixed64 [] (bh_size h) @ r"
    by (auto simp: getBlockHandle_def getFixed64_Some split: option.splits)
  then show "i = putBlockHandle [] h @ r"
    unfolding putBlockHandle_def by (subst putFixed64_append) simp
qed simp

lemma getBlockHandle_None: "getBlockHandle i = None \<longleftrightarrow> length i < 16"
  by (auto simp: getBlockHandle_def getFixed64_None getFixed64_Some split: option.splits)

lemma length_magic [simp]: "length kSSTableMagic = 8"
  by (simp add: kSSTableMagic_def)

lemma footer_layout:
  "putSSTableFooter [] f i = kSSTableMagic @ encodeFixed32 kSSTableVersion @ encodeFixed32 0 @
     putBlockHandle [] f @ putBlockHandle [] i"
proof -
  have "putSSTableFooter [] f i =
      putBlockHandle (putBlockHandle (kSSTableMagic @ encodeFixed32 kSSTableVersion @ encodeFixed32 0) f) i"
    by (simp add: putSSTableFooter_def putFixed32_def kSSTableMagicSize_def)
  also have "\<dots> = (kSSTableMagic @ encodeFixed32 kSSTableVersion @ encodeFixed32 0) @
      putBlockHandle [] f @ putBlockHandle [] i"
    by (metis append_assoc putBlockHandle_append)
  finally show ?thesis by simp
qed

lemma length_footer [simp, size_simps]: "length (putSSTableFooter [] f i) = 48"
  by (simp add: footer_layout)

lemma decode_footer [simp, codec_simps]: "decodeSSTableFooter (putSSTableFooter [] f i) = Inr (f, i)"
proof -
  have "getBlockHandle (putBlockHandle [] i) = Some (i, [])"
    using getBlockHandle_put [of i "[]"] by simp
  then show ?thesis
    by (simp add: decodeSSTableFooter_def footer_layout kSSTableMagicSize_def)
qed

lemma decode_footer_Inr:
  assumes "decodeSSTableFooter e = Inr (f, i)"
  shows "e = putSSTableFooter [] f i"
proof -
  have "take 8 e = kSSTableMagic"
    "drop 8 e = encodeFixed32 kSSTableVersion @ encodeFixed32 0 @ putBlockHandle [] f @ putBlockHandle [] i"
    using assms
    by (auto simp: decodeSSTableFooter_def kSSTableMagicSize_def Let_def getFixed32_Some
        getBlockHandle_Some split: if_splits option.splits)
  then show ?thesis using append_take_drop_id [of 8 e] by (simp add: footer_layout)
qed

subsection \<open>Bounds of a handle\<close>

lemma unat_u64: "n < 2 ^ 64 \<Longrightarrow> unat (of_nat n :: u64) = n"
  by (simp add: unat_of_nat)

lemma validate_iff:
  "status_ok (validateBlockHandle n h) \<longleftrightarrow> unat (bh_offset h) + unat (bh_size h) + 53 \<le> unat n"
proof (cases "n < 48")
  case True
  then show ?thesis by (simp add: validateBlockHandle_def word_less_nat_alt)
next
  case ge: False
  then have l: "unat (n - 48) = unat n - 48" "48 \<le> unat n"
    by (simp_all add: unat_sub word_le_nat_alt not_less)
  show ?thesis
  proof (cases "bh_offset h > n - 48")
    case True
    then show ?thesis using ge l by (simp add: validateBlockHandle_def word_less_nat_alt)
  next
    case off: False
    then have r: "unat (n - 48 - bh_offset h) = unat n - 48 - unat (bh_offset h)"
      "unat (bh_offset h) \<le> unat n - 48"
      using l by (simp_all add: unat_sub word_le_nat_alt not_less)
    show ?thesis
    proof (cases "bh_size h > n - 48 - bh_offset h")
      case True
      then show ?thesis using ge off r by (simp add: validateBlockHandle_def word_less_nat_alt)
    next
      case False
      then have "unat (n - 48 - bh_offset h - bh_size h) = unat n - 48 - unat (bh_offset h) - unat (bh_size h)"
        "unat (bh_size h) \<le> unat n - 48 - unat (bh_offset h)"
        using r by (simp_all add: unat_sub word_le_nat_alt not_less)
      then show ?thesis
        using ge off False l r
        by (simp add: validateBlockHandle_def kBlockTrailerSize_def Let_def word_less_nat_alt) linarith
    qed
  qed
qed

subsection \<open>Reading\<close>

lemma decodeFixed32_encode_Nil [simp]: "decodeFixed32 (encodeFixed32 v) = v"
  by (metis append_Nil2 decodeFixed32_encode)

lemma quiet_readExactly:
  assumes "quiet_at F env"
  shows "\<exists>env'. quiet_at F env' \<and> readExactly content offset n env =
    (if offset + n \<le> length content \<or> n = 0 then Inr (take n (drop offset content))
     else Inl (corruption ''truncated SSTable input''), env')"
  using quiet_env_read [OF assms, of n "drop offset content"]
  by (auto simp: readExactly_def)

lemma quiet_readBlock:
  assumes "quiet_at F env" "content = a @ table_block payload @ b" "48 \<le> length b"
    and "length content < 2 ^ 64"
  shows "\<exists>env'. quiet_at F env' \<and> readBlock content (of_nat (length content))
    \<lparr>bh_offset = of_nat (length a), bh_size = of_nat (length payload)\<rparr> verify env = (Inr payload, env')"
proof -
  have l: "unat (of_nat (length a) :: u64) = length a" "unat (of_nat (length payload) :: u64) = length payload"
    "unat (of_nat (length content) :: u64) = length content"
    using assms(2,4) by (intro unat_u64; simp)+
  have v: "status_ok (validateBlockHandle (of_nat (length content))
      \<lparr>bh_offset = of_nat (length a), bh_size = of_nat (length payload)\<rparr>)"
    unfolding validate_iff BlockHandle.simps l using assms(2,3) by simp
  obtain env' where "quiet_at F env'" "readExactly content (length a) (length payload + kBlockTrailerSize) env =
      (Inr (table_block payload), env')"
    using quiet_readExactly [OF assms(1), of content "length a" "length payload + kBlockTrailerSize"] assms(2)
    by (auto simp: kBlockTrailerSize_def)
  then show ?thesis
    using v by (simp add: readBlock_def l Let_def table_block_def)
qed

text \<open>In any environment a read gives the bytes of the file or an error.\<close>

lemma readExactly_any:
  assumes "readExactly content offset n env = (res, env')" "offset + n \<le> length content"
  shows "res = Inr (take n (drop offset content)) \<or> (\<exists>s. res = Inl s \<and> \<not> status_ok s)"
  using assms env_read_cases [of n "drop offset content" env]
  by (fastforce simp: readExactly_def split: sum.splits prod.splits)

lemma readBlock_any:
  assumes r: "readBlock content (of_nat (length content))
      \<lparr>bh_offset = of_nat (length a), bh_size = of_nat (length payload)\<rparr> verify env = (res, env')"
    and c: "content = a @ table_block payload @ b" and "length content < 2 ^ 64"
  shows "res = Inr payload \<or> (\<exists>s. res = Inl s \<and> \<not> status_ok s)"
proof -
  have l: "unat (of_nat (length a) :: u64) = length a" "unat (of_nat (length payload) :: u64) = length payload"
    using assms(2,3) by (intro unat_u64; simp)+
  obtain x env1 where e: "readExactly content (length a) (length payload + kBlockTrailerSize) env = (x, env1)"
    by fastforce
  have "x = Inr (table_block payload) \<or> (\<exists>s. x = Inl s \<and> \<not> status_ok s)"
    using readExactly_any [OF e] c by (simp add: kBlockTrailerSize_def)
  then show ?thesis
    using r e l by (auto simp: readBlock_def Let_def table_block_def split: if_splits)
qed

lemma quiet_readSSTableFooter:
  assumes "quiet_at F env" "content = a @ putSSTableFooter [] fh ih" "length content < 2 ^ 64"
    and "status_ok (validateBlockHandle (of_nat (length content)) fh)"
    and "status_ok (validateBlockHandle (of_nat (length content)) ih)"
  shows "\<exists>env'. quiet_at F env' \<and>
    readSSTableFooter content (of_nat (length content)) env = (Inr (fh, ih), env')"
proof -
  define n where "n = length content"
  have n: "unat (of_nat n :: u64) = n" using assms(3) unfolding n_def by (rule unat_u64)
  have a: "n = length a + 48" using assms(2) by (simp add: n_def)
  have le: "(48 :: u64) \<le> of_nat n" using n a by (simp add: word_le_nat_alt del: of_nat_add)
  have sub: "unat (of_nat n - 48 :: u64) = length a" "\<not> (of_nat n :: u64) < 48"
    using unat_sub [OF le] le n a by simp_all
  obtain env' where "readExactly content (length a) 48 env = (Inr (putSSTableFooter [] fh ih), env')"
    "quiet_at F env'"
    using quiet_readExactly [OF assms(1), of content "length a" 48] assms(2) by auto
  then show ?thesis
    using assms(4,5) sub by (simp add: readSSTableFooter_def n_def [symmetric] Let_def)
qed

subsection \<open>Properties\<close>

text \<open>
  C18. The footer of a table: decoding accepts exactly the 48 bytes that encoding two handles
  produces, and gives the handles back.
\<close>

theorem table_footer_roundtrip:
  "decodeSSTableFooter encoded = Inr (f, i) \<longleftrightarrow> encoded = putSSTableFooter [] f i"
  using decode_footer_Inr decode_footer by blast

text \<open>
  A handle is accepted exactly when its block and trailer end before the footer, as
  numbers without wrap-around; for every offset and size in a corrupt file the 64-bit
  subtractions of the check stay in range.
\<close>

lemma block_handle_bounds:
  "status_ok (validateBlockHandle file_size handle) \<longleftrightarrow>
     unat (bh_offset handle) + unat (bh_size handle) + kBlockTrailerSize + kSSTableFooterSize
       \<le> unat file_size"
  by (simp add: validate_iff kBlockTrailerSize_def ac_simps)



end
