(* ===== verification/SSTableBuilder.thy ===== *)
theory SSTableBuilder
  imports Block BloomFilter TableFormat
begin

text \<open>
  \<^verbatim>\<open>src/table/sstable_builder.h\<close> and \<^verbatim>\<open>sstable_builder.cc\<close>: writing a table file.  The builder
  appends to the file at its path, in the environment; its descriptor is represented by
  whether it is open.  \<open>table_bytes\<close> is the layout of a finished table whose entries were cut
  into the given blocks; the lemmas show that every environment in which the builder reports
  success leaves exactly this layout behind, and that a quiet environment lets it succeed.
  \<^verbatim>\<open>assert\<close>s on the state and on the order of the keys are preconditions.
\<close>

record SSTableBuilderOptions =
  sbo_block_size :: nat
  sbo_restart_interval :: nat

record SSTableMeta =
  sm_file_size :: u64
  sm_entry_count :: u64
  sm_smallest_key :: bytes
  sm_largest_key :: bytes

datatype BuilderState = kBuilding | kFinished | kAbandoned

record SSTableBuilder =
  sb_fd_open :: bool
  sb_path :: string
  sb_block_size :: nat
  sb_state :: BuilderState
  sb_error :: Status
  sb_data_block :: BlockBuilder
  sb_index_block :: BlockBuilder
  sb_bloom_filter :: "u32 list"
  sb_file_offset :: u64
  sb_entry_count :: u64
  sb_first_key :: bytes
  sb_last_key :: bytes

definition SSTableBuilder_new :: "string \<Rightarrow> SSTableBuilderOptions \<Rightarrow> SSTableBuilder" where
  "SSTableBuilder_new path options =
     \<lparr>sb_fd_open = True, sb_path = path, sb_block_size = sbo_block_size options,
      sb_state = kBuilding, sb_error = success,
      sb_data_block = BlockBuilder_new (sbo_restart_interval options),
      sb_index_block = BlockBuilder_new (sbo_restart_interval options),
      sb_bloom_filter = [], sb_file_offset = 0, sb_entry_count = 0,
      sb_first_key = [], sb_last_key = []\<rparr>"

definition SSTableBuilder_open ::
  "string \<Rightarrow> SSTableBuilderOptions \<Rightarrow> Env \<Rightarrow> SSTableBuilder result \<times> Env" where
  "SSTableBuilder_open temporary_path options env =
     (if temporary_path = []
      then (Inl (invalidArgument ''SSTable path must not be empty''), env)
      else if sbo_block_size options = 0
      then (Inl (invalidArgument ''SSTable block size must be positive''), env)
      else if sbo_restart_interval options = 0
      then (Inl (invalidArgument ''block restart interval must be positive''), env)
      else case sys_create_exclusive temporary_path env of
        (Some error_number, env) \<Rightarrow>
          (if error_number = EEXIST
           then Inl (alreadyExists (''SSTable already exists: '' @ temporary_path))
           else Inl (ioError (''open SSTable '' @ temporary_path @ '': ''
                              @ error_message error_number)), env)
      | (None, env) \<Rightarrow> (Inr (SSTableBuilder_new temporary_path options), env))"

definition SSTableBuilder_latchIOError ::
  "string \<Rightarrow> errno \<Rightarrow> SSTableBuilder \<Rightarrow> Status \<times> SSTableBuilder" where
  "SSTableBuilder_latchIOError operation error_number b =
     (let b' = (if status_ok (sb_error b)
                then b\<lparr>sb_error := ioError (operation @ '' '' @ sb_path b @ '': ''
                                             @ error_message error_number)\<rparr>
                else b)
      in (sb_error b', b'))"

definition SSTableBuilder_writeAll ::
  "bytes \<Rightarrow> SSTableBuilder \<Rightarrow> Env \<Rightarrow> Status \<times> SSTableBuilder \<times> Env" where
  "SSTableBuilder_writeAll data b env =
     (case env_write (sb_path b) data env of
        (None, env) \<Rightarrow> (success, b, env)
      | (Some error_number, env) \<Rightarrow>
          (let (status, b) = SSTableBuilder_latchIOError ''write SSTable'' error_number b
           in (status, b, env)))"

definition SSTableBuilder_sync ::
  "SSTableBuilder \<Rightarrow> Env \<Rightarrow> Status \<times> SSTableBuilder \<times> Env" where
  "SSTableBuilder_sync b env =
     (case env_fdatasync env of
        (None, env) \<Rightarrow> (success, b, env)
      | (Some error_number, env) \<Rightarrow>
          (let (status, b) = SSTableBuilder_latchIOError ''sync SSTable'' error_number b
           in (status, b, env)))"

definition SSTableBuilder_writeBlock ::
  "bytes \<Rightarrow> SSTableBuilder \<Rightarrow> Env \<Rightarrow> BlockHandle result \<times> SSTableBuilder \<times> Env" where
  "SSTableBuilder_writeBlock payload b env =
     (let block_contents = payload @ [kNoCompression];
          checksum = crc32c block_contents;
          block_contents = putFixed32 block_contents checksum;
          handle = \<lparr>bh_offset = sb_file_offset b, bh_size = of_nat (length payload)\<rparr>;
          (status, b, env) = SSTableBuilder_writeAll block_contents b env
      in if \<not> status_ok status then (Inl status, b, env)
         else (Inr handle,
               b\<lparr>sb_file_offset := sb_file_offset b + of_nat (length block_contents)\<rparr>, env))"

definition SSTableBuilder_flushDataBlock ::
  "SSTableBuilder \<Rightarrow> Env \<Rightarrow> Status \<times> SSTableBuilder \<times> Env" where
  "SSTableBuilder_flushDataBlock b env =
     (if BlockBuilder_empty (sb_data_block b) then (success, b, env)
      else let (payload, data_block) = BlockBuilder_finish (sb_data_block b) in
        case SSTableBuilder_writeBlock payload (b\<lparr>sb_data_block := data_block\<rparr>) env of
          (Inl status, b, env) \<Rightarrow> (status, b, env)
        | (Inr handle, b, env) \<Rightarrow>
            let encoded_handle = putBlockHandle [] handle in
            (success,
             b\<lparr>sb_index_block := BlockBuilder_add (sb_last_key b) encoded_handle (sb_index_block b),
               sb_data_block := BlockBuilder_reset (sb_data_block b)\<rparr>, env))"

definition SSTableBuilder_add ::
  "bytes \<Rightarrow> bytes \<Rightarrow> SSTableBuilder \<Rightarrow> Env \<Rightarrow> Status \<times> SSTableBuilder \<times> Env" where
  "SSTableBuilder_add internal_key value b env =
     (if \<not> status_ok (sb_error b) then (sb_error b, b, env)
      else case parseInternalKey internal_key of
        None \<Rightarrow> (invalidArgument ''invalid SSTable internal key'', b, env)
      | Some parsed \<Rightarrow>
          let b = b\<lparr>sb_bloom_filter := BloomFilterBuilder_add (pk_user_key parsed) (sb_bloom_filter b)\<rparr>;
              b = (if sb_entry_count b = 0 then b\<lparr>sb_first_key := internal_key\<rparr> else b);
              b = b\<lparr>sb_last_key := internal_key,
                    sb_data_block := BlockBuilder_add internal_key value (sb_data_block b),
                    sb_entry_count := sb_entry_count b + 1\<rparr>
          in if BlockBuilder_currentSizeEstimate (sb_data_block b) \<ge> sb_block_size b
             then SSTableBuilder_flushDataBlock b env
             else (success, b, env))"

definition SSTableBuilder_estimatedFileSize :: "SSTableBuilder \<Rightarrow> u64" where
  "SSTableBuilder_estimatedFileSize b =
     sb_file_offset b + of_nat (BlockBuilder_currentSizeEstimate (sb_data_block b))"

text \<open>The end of \<^verbatim>\<open>finish\<close>, from the footer on.\<close>

definition SSTableBuilder_complete ::
  "BlockHandle \<Rightarrow> BlockHandle \<Rightarrow> SSTableBuilder \<Rightarrow> Env \<Rightarrow> SSTableMeta result \<times> SSTableBuilder \<times> Env"
where
  "SSTableBuilder_complete filter_handle index_handle b env =
     (let footer = putSSTableFooter [] filter_handle index_handle;
          (status, b, env) = SSTableBuilder_writeAll footer b env
      in if \<not> status_ok status then (Inl status, b, env)
         else let b = b\<lparr>sb_file_offset := sb_file_offset b + of_nat (length footer)\<rparr>;
                  (status, b, env) = SSTableBuilder_sync b env
           in if \<not> status_ok status then (Inl status, b, env)
              else let b = b\<lparr>sb_fd_open := False\<rparr> in
                case sys_call env of
                  (Some error_number, env) \<Rightarrow>
                    (let (status, b) = SSTableBuilder_latchIOError ''close SSTable'' error_number b
                     in (Inl status, b, env))
                | (None, env) \<Rightarrow>
                    (Inr \<lparr>sm_file_size = sb_file_offset b, sm_entry_count = sb_entry_count b,
                          sm_smallest_key = sb_first_key b, sm_largest_key = sb_last_key b\<rparr>,
                     b\<lparr>sb_state := kFinished\<rparr>, env))"

definition SSTableBuilder_finish ::
  "SSTableBuilder \<Rightarrow> Env \<Rightarrow> SSTableMeta result \<times> SSTableBuilder \<times> Env" where
  "SSTableBuilder_finish b env =
     (if \<not> status_ok (sb_error b) then (Inl (sb_error b), b, env)
      else let (status, b, env) = SSTableBuilder_flushDataBlock b env in
        if \<not> status_ok status then (Inl status, b, env)
        else case SSTableBuilder_writeBlock (BloomFilterBuilder_finish (sb_bloom_filter b)) b env of
          (Inl status, b, env) \<Rightarrow> (Inl status, b, env)
        | (Inr filter_handle, b, env) \<Rightarrow>
           (let (payload, index_block) = BlockBuilder_finish (sb_index_block b) in
            case SSTableBuilder_writeBlock payload (b\<lparr>sb_index_block := index_block\<rparr>) env of
              (Inl status, b, env) \<Rightarrow> (Inl status, b, env)
            | (Inr index_handle, b, env) \<Rightarrow>
                SSTableBuilder_complete filter_handle index_handle b env))"

definition SSTableBuilder_abandon :: "SSTableBuilder \<Rightarrow> Env \<Rightarrow> SSTableBuilder \<times> Env" where
  "SSTableBuilder_abandon b env =
     (if sb_state b = kFinished \<or> sb_state b = kAbandoned then (b, env)
      else let (b, env) = (if sb_fd_open b then (b\<lparr>sb_fd_open := False\<rparr>, snd (sys_call env)) else (b, env));
               env = snd (sys_unlink (sb_path b) env)
        in (b\<lparr>sb_state := kAbandoned\<rparr>, env))"

subsection \<open>The layout of a table\<close>

fun index_entries :: "nat \<Rightarrow> nat \<Rightarrow> entry list list \<Rightarrow> entry list" where
  "index_entries r offset [] = []"
| "index_entries r offset (es # ess) =
     (fst (last es), putBlockHandle [] \<lparr>bh_offset = of_nat offset, bh_size = of_nat (length (block_bytes r es))\<rparr>)
     # index_entries r (offset + length (block_bytes r es) + 5) ess"

definition data_bytes :: "nat \<Rightarrow> entry list list \<Rightarrow> bytes" where
  "data_bytes r ess = concat (map (\<lambda>es. table_block (block_bytes r es)) ess)"

definition table_filter :: "entry list \<Rightarrow> bytes" where
  "table_filter es = buildFilter (map (\<lambda>e. bloomHash (entry_user e)) es)"

definition table_index :: "nat \<Rightarrow> entry list list \<Rightarrow> bytes" where
  "table_index r ess = block_bytes r (index_entries r 0 ess)"

definition table_bytes :: "nat \<Rightarrow> entry list list \<Rightarrow> bytes" where
  "table_bytes r ess =
     (let data = data_bytes r ess; filter = table_filter (concat ess); index = table_index r ess
      in data @ table_block filter @ table_block index @
         putSSTableFooter []
           \<lparr>bh_offset = of_nat (length data), bh_size = of_nat (length filter)\<rparr>
           \<lparr>bh_offset = of_nat (length data + length filter + 5), bh_size = of_nat (length index)\<rparr>)"

text \<open>
  The state of a builder for \<open>path\<close> beside the files \<open>F\<close> that has written the blocks \<open>ess\<close>
  and holds the entries \<open>cur\<close>, and of one that has failed.
\<close>

definition tb_rep ::
  "nat \<Rightarrow> entry list list \<Rightarrow> entry list \<Rightarrow> string \<Rightarrow> fs \<Rightarrow> SSTableBuilder \<Rightarrow> Env \<Rightarrow> bool" where
  "tb_rep r ess cur path F b env \<longleftrightarrow>
     sb_fd_open b \<and> sb_path b = path \<and> sb_state b = kBuilding \<and> status_ok (sb_error b) \<and>
     [] \<notin> set ess \<and> env_files env = F(path \<mapsto> data_bytes r ess) \<and>
     builder_rep r cur (sb_data_block b) \<and>
     builder_rep r (index_entries r 0 ess) (sb_index_block b) \<and>
     sb_bloom_filter b = map (\<lambda>e. bloomHash (entry_user e)) (concat ess @ cur) \<and>
     sb_file_offset b = of_nat (length (data_bytes r ess)) \<and>
     sb_entry_count b = of_nat (length (concat ess @ cur)) \<and>
     (concat ess @ cur \<noteq> [] \<longrightarrow> sb_first_key b = fst (hd (concat ess @ cur)) \<and>
        sb_last_key b = fst (last (concat ess @ cur)))"

definition tb_failed :: "string \<Rightarrow> fs \<Rightarrow> Status \<Rightarrow> SSTableBuilder \<Rightarrow> Env \<Rightarrow> bool" where
  "tb_failed path F status b env \<longleftrightarrow>
     \<not> status_ok status \<and> sb_error b = status \<and> sb_path b = path \<and> sb_state b = kBuilding \<and>
     (\<exists>c. env_files env = F(path \<mapsto> c))"

text \<open>Adding a list of entries, up to the first failure.\<close>

fun add_all :: "entry list \<Rightarrow> SSTableBuilder \<Rightarrow> Env \<Rightarrow> Status \<times> SSTableBuilder \<times> Env" where
  "add_all [] b env = (success, b, env)"
| "add_all ((key, value) # es) b env =
     (case SSTableBuilder_add key value b env of
        (status, b, env) \<Rightarrow> if status_ok status then add_all es b env else (status, b, env))"

subsection \<open>Every step succeeds with its effect or fails for good\<close>

lemma latch_ok:
  "status_ok (sb_error b) \<Longrightarrow> SSTableBuilder_latchIOError operation e b = (status, b') \<Longrightarrow>
     \<not> status_ok status \<and> b' = b\<lparr>sb_error := status\<rparr>"
  by (auto simp: SSTableBuilder_latchIOError_def Let_def)

lemma writeAll_outcome:
  assumes "SSTableBuilder_writeAll data b env = (status, b', env')"
    and "status_ok (sb_error b)" "env_files env = F(sb_path b \<mapsto> c)"
  shows "status_ok status \<Longrightarrow> b' = b \<and> env_files env' = F(sb_path b \<mapsto> c @ data)"
    and "\<not> status_ok status \<Longrightarrow> b' = b\<lparr>sb_error := status\<rparr> \<and> (\<exists>d. env_files env' = F(sb_path b \<mapsto> d))"
    and "quiet env \<Longrightarrow> status_ok status \<and> quiet env'"
proof -
  obtain e env1 where w: "env_write (sb_path b) data env = (e, env1)" by fastforce
  have c: "env_files env (sb_path b) = Some c" using assms(3) by simp
  note o = env_write_cases [OF w c]
  show "status_ok status \<Longrightarrow> b' = b \<and> env_files env' = F(sb_path b \<mapsto> c @ data)"
    and "\<not> status_ok status \<Longrightarrow> b' = b\<lparr>sb_error := status\<rparr> \<and> (\<exists>d. env_files env' = F(sb_path b \<mapsto> d))"
    using assms w o latch_ok [OF assms(2)]
    by (auto simp: SSTableBuilder_writeAll_def split: option.splits prod.splits)
  show "quiet env \<Longrightarrow> status_ok status \<and> quiet env'"
    using assms w quiet_env_write [OF quiet_at_self [THEN iffD2] c, of data]
    by (auto simp: SSTableBuilder_writeAll_def quiet_at_def)
qed

lemma writeBlock_outcome:
  assumes "SSTableBuilder_writeBlock payload b env = (res, b', env')"
    and "status_ok (sb_error b)" "env_files env = F(sb_path b \<mapsto> c)"
  shows "res = Inr handle \<Longrightarrow>
      handle = \<lparr>bh_offset = sb_file_offset b, bh_size = of_nat (length payload)\<rparr> \<and>
      b' = b\<lparr>sb_file_offset := sb_file_offset b + of_nat (length payload + 5)\<rparr> \<and>
      env_files env' = F(sb_path b \<mapsto> c @ table_block payload)"
    and "res = Inl status \<Longrightarrow> \<not> status_ok status \<and> b' = b\<lparr>sb_error := status\<rparr> \<and>
      (\<exists>d. env_files env' = F(sb_path b \<mapsto> d))"
    and "quiet env \<Longrightarrow> (\<exists>handle. res = Inr handle) \<and> quiet env'"
proof -
  obtain s b1 env1 where w: "SSTableBuilder_writeAll (table_block payload) b env = (s, b1, env1)"
    by (metis prod_cases3)
  have eq: "putFixed32 (payload @ [kNoCompression]) (crc32c (payload @ [kNoCompression])) = table_block payload"
    by (simp add: putFixed32_def table_block_def)
  note o = writeAll_outcome [OF w assms(2,3)]
  show "res = Inr handle \<Longrightarrow>
      handle = \<lparr>bh_offset = sb_file_offset b, bh_size = of_nat (length payload)\<rparr> \<and>
      b' = b\<lparr>sb_file_offset := sb_file_offset b + of_nat (length payload + 5)\<rparr> \<and>
      env_files env' = F(sb_path b \<mapsto> c @ table_block payload)"
    and "res = Inl status \<Longrightarrow> \<not> status_ok status \<and> b' = b\<lparr>sb_error := status\<rparr> \<and>
      (\<exists>d. env_files env' = F(sb_path b \<mapsto> d))"
    and "quiet env \<Longrightarrow> (\<exists>handle. res = Inr handle) \<and> quiet env'"
    using assms(1) w o by (auto simp: SSTableBuilder_writeBlock_def Let_def eq split: if_splits)
qed

lemma index_entries_append:
  "index_entries r offset (ess @ [es]) = index_entries r offset ess @
     [(fst (last es), putBlockHandle [] \<lparr>bh_offset = of_nat (offset + length (data_bytes r ess)),
        bh_size = of_nat (length (block_bytes r es))\<rparr>)]"
  by (induction ess arbitrary: offset) (simp_all add: data_bytes_def ac_simps)

lemma data_bytes_append: "data_bytes r (ess @ [es]) = data_bytes r ess @ table_block (block_bytes r es)"
  by (simp add: data_bytes_def)

lemma flush_empty:
  assumes "tb_rep r ess [] path F b env"
  shows "SSTableBuilder_flushDataBlock b env = (success, b, env)"
  using assms by (simp add: tb_rep_def SSTableBuilder_flushDataBlock_def builder_rep_def BlockBuilder_empty_def)

lemma flush_outcome:
  assumes rep: "tb_rep r ess cur path F b env"
    and f: "SSTableBuilder_flushDataBlock b env = (status, b', env')"
  shows "status_ok status \<Longrightarrow> tb_rep r (if cur = [] then ess else ess @ [cur]) [] path F b' env'"
    and "\<not> status_ok status \<Longrightarrow> tb_failed path F status b' env'"
    and "quiet env \<Longrightarrow> status_ok status \<and> quiet env'"
proof -
  have *: "(status_ok status \<longrightarrow> tb_rep r (if cur = [] then ess else ess @ [cur]) [] path F b' env') \<and>
    (\<not> status_ok status \<longrightarrow> tb_failed path F status b' env') \<and>
    (quiet env \<longrightarrow> status_ok status \<and> quiet env')"
  proof (cases "cur = []")
    case True
    then show ?thesis using rep f flush_empty by simp
  next
    case False
    define fin where "fin = snd (BlockBuilder_finish (sb_data_block b))"
    have payload: "BlockBuilder_finish (sb_data_block b) = (block_bytes r cur, fin)"
      using rep builder_finish by (metis fin_def prod.collapse tb_rep_def)
    have r: "0 < r" "bb_restart_interval fin = r" "\<not> BlockBuilder_empty (sb_data_block b)"
      using rep False
      by (simp_all add: tb_rep_def builder_rep_def fin_def BlockBuilder_finish_def Let_def BlockBuilder_empty_def)
    let ?b = "b\<lparr>sb_data_block := fin\<rparr>"
    obtain res b1 env1 where w: "SSTableBuilder_writeBlock (block_bytes r cur) ?b env = (res, b1, env1)"
      by (metis prod_cases3)
    have p: "status_ok (sb_error ?b)" "env_files env = F(sb_path ?b \<mapsto> data_bytes r ess)" "sb_path b = path"
      using rep by (simp_all add: tb_rep_def)
    note o = writeBlock_outcome [OF w p(1,2)]
    show ?thesis
    proof (cases res)
      case (Inl s)
      then show ?thesis
        using f w o(2) [OF Inl] o(3) payload r(3) rep
        by (auto simp: SSTableBuilder_flushDataBlock_def tb_failed_def tb_rep_def)
    next
      case (Inr h)
      have "sb_last_key b = fst (last cur)" using rep False by (simp add: tb_rep_def)
      then have "status = success" "env' = env1" and b': "b' = b1\<lparr>sb_index_block :=
          BlockBuilder_add (fst (last cur)) (putBlockHandle [] h) (sb_index_block b),
          sb_data_block := BlockBuilder_reset fin\<rparr>"
        using f w Inr payload r(3) o(1) [OF Inr] by (simp_all add: SSTableBuilder_flushDataBlock_def)
      moreover have "builder_rep r (index_entries r 0 (ess @ [cur]))
          (BlockBuilder_add (fst (last cur)) (putBlockHandle [] h) (sb_index_block b))"
        using rep o(1) [OF Inr] by (simp add: index_entries_append tb_rep_def builder_rep_add)
      ultimately show ?thesis
        using rep o(1) [OF Inr] o(3) p(3) False builder_rep_reset [OF r(1,2)]
        by (auto simp: tb_rep_def data_bytes_append ac_simps)
    qed
  qed
  then show "status_ok status \<Longrightarrow> tb_rep r (if cur = [] then ess else ess @ [cur]) [] path F b' env'"
    "\<not> status_ok status \<Longrightarrow> tb_failed path F status b' env'"
    "quiet env \<Longrightarrow> status_ok status \<and> quiet env'" by blast+
qed

lemma add_outcome:
  assumes rep: "tb_rep r ess cur path F b env" and wf: "wf_ikey k"
    and len: "Suc (length (concat ess @ cur)) < 2 ^ 64"
    and a: "SSTableBuilder_add k v b env = (status, b', env')"
  shows "status_ok status \<Longrightarrow> \<exists>ess' cur'. concat ess' @ cur' = concat ess @ cur @ [(k, v)] \<and>
      tb_rep r ess' cur' path F b' env'"
    and "\<not> status_ok status \<Longrightarrow> tb_failed path F status b' env'"
    and "quiet env \<Longrightarrow> status_ok status \<and> quiet env'"
proof -
  let ?all = "concat ess @ cur"
  define b1 where "b1 = b\<lparr>sb_bloom_filter := sb_bloom_filter b @ [bloomHash (userKey k)],
    sb_first_key := (if ?all = [] then k else sb_first_key b), sb_last_key := k,
    sb_data_block := BlockBuilder_add k v (sb_data_block b), sb_entry_count := sb_entry_count b + 1\<rparr>"
  obtain pk where pk: "parseInternalKey k = Some pk" "pk_user_key pk = userKey k"
    using wf parse_Some(3) by (auto simp: wf_ikey_def)
  have ok: "status_ok (sb_error b)" using rep by (simp add: tb_rep_def)
  have "sb_entry_count b = 0 \<longleftrightarrow> ?all = []"
  proof -
    have "unat (sb_entry_count b) = length ?all"
      using rep len by (simp add: tb_rep_def unat_u64 del: length_append of_nat_add)
    then show ?thesis by (metis length_0_conv unat_0 unat_eq_zero)
  qed
  then have step: "SSTableBuilder_add k v b env =
      (if BlockBuilder_currentSizeEstimate (sb_data_block b1) \<ge> sb_block_size b1
       then SSTableBuilder_flushDataBlock b1 env else (success, b1, env))"
    using ok pk by (auto simp: SSTableBuilder_add_def Let_def b1_def BloomFilterBuilder_add_def)
  have rep1: "tb_rep r ess (cur @ [(k, v)]) path F b1 env"
    using rep builder_rep_add [of r cur "sb_data_block b" k v]
    by (auto simp: tb_rep_def b1_def entry_user_def hd_append ac_simps)
  have "(status_ok status \<longrightarrow> (\<exists>ess' cur'. concat ess' @ cur' = concat ess @ cur @ [(k, v)] \<and>
      tb_rep r ess' cur' path F b' env')) \<and> (\<not> status_ok status \<longrightarrow> tb_failed path F status b' env') \<and>
      (quiet env \<longrightarrow> status_ok status \<and> quiet env')"
  proof (cases "BlockBuilder_currentSizeEstimate (sb_data_block b1) \<ge> sb_block_size b1")
    case True
    then have f: "SSTableBuilder_flushDataBlock b1 env = (status, b', env')" using a step by simp
    have "concat (ess @ [cur @ [(k, v)]]) @ [] = concat ess @ cur @ [(k, v)]" by simp
    moreover have "status_ok status \<Longrightarrow> tb_rep r (ess @ [cur @ [(k, v)]]) [] path F b' env'"
      using flush_outcome(1) [OF rep1 f] by simp
    ultimately show ?thesis using flush_outcome(2,3) [OF rep1 f] by metis
  next
    case False
    then show ?thesis using a step rep1 by auto
  qed
  then show "status_ok status \<Longrightarrow> \<exists>ess' cur'. concat ess' @ cur' = concat ess @ cur @ [(k, v)] \<and>
      tb_rep r ess' cur' path F b' env'" "\<not> status_ok status \<Longrightarrow> tb_failed path F status b' env'"
    "quiet env \<Longrightarrow> status_ok status \<and> quiet env'" by blast+
qed

lemma add_all_outcome:
  "tb_rep r ess cur path F b env \<Longrightarrow> \<forall>e \<in> set es. wf_ikey (fst e) \<Longrightarrow>
     length (concat ess @ cur) + length es < 2 ^ 64 \<Longrightarrow> add_all es b env = (status, b', env') \<Longrightarrow>
   (status_ok status \<longrightarrow> (\<exists>ess' cur'. concat ess' @ cur' = concat ess @ cur @ es \<and>
      tb_rep r ess' cur' path F b' env')) \<and>
   (\<not> status_ok status \<longrightarrow> tb_failed path F status b' env') \<and>
   (quiet env \<longrightarrow> status_ok status \<and> quiet env')"
proof (induction es arbitrary: ess cur b env)
  case Nil
  then show ?case by auto
next
  case (Cons e es)
  obtain k v where e: "e = (k, v)" by fastforce
  obtain s1 b1 env1 where a: "SSTableBuilder_add k v b env = (s1, b1, env1)" by (metis prod_cases3)
  note o = add_outcome [OF Cons.prems(1) _ _ a]
  have wf: "wf_ikey k" and l: "Suc (length (concat ess @ cur)) < 2 ^ 64"
    using Cons.prems(2,3) e by auto
  show ?case
  proof (cases "status_ok s1")
    case True
    obtain ess1 cur1 where n: "concat ess1 @ cur1 = concat ess @ cur @ [(k, v)]"
      "tb_rep r ess1 cur1 path F b1 env1" using o(1) [OF wf l True] by blast
    have l1: "length (concat ess1 @ cur1) + length es < 2 ^ 64" unfolding n(1) using Cons.prems(3) by simp
    have c: "concat ess1 @ cur1 @ es = concat ess @ cur @ e # es" using n(1) e
      by (metis append.assoc append_Cons append_Nil)
    have "\<forall>e \<in> set es. wf_ikey (fst e)" "add_all es b1 env1 = (status, b', env')"
      using Cons.prems(2,4) e a True by simp_all
    note ih = Cons.IH [OF n(2) this(1) l1 this(2), unfolded c]
    then show ?thesis using o(3) [OF wf l] by blast
  next
    case False
    then show ?thesis using Cons.prems(4) e a o(2,3) [OF wf l] by auto
  qed
qed

lemma open_outcome:
  assumes "SSTableBuilder_open path options env = (Inr b, env')"
  shows "tb_rep (sbo_restart_interval options) [] [] path (env_files env) b env'"
    and "env_files env path = None" and "quiet env \<Longrightarrow> quiet env'"
proof -
  have *: "path \<noteq> []" "0 < sbo_restart_interval options" "b = SSTableBuilder_new path options"
    "sys_create_exclusive path env = (None, env')"
    using assms by (auto simp: SSTableBuilder_open_def split: if_splits option.splits prod.splits)
  have c: "env_files env path = None" "env_files env' = (env_files env)(path \<mapsto> [])"
    "quiet env \<Longrightarrow> quiet env'"
    using *(4) by (auto simp: sys_create_exclusive_def sys_call_def put_file_def quiet_def
        split: list.splits option.splits if_splits prod.splits)
  show "tb_rep (sbo_restart_interval options) [] [] path (env_files env) b env'"
    using * c(2) by (simp add: tb_rep_def SSTableBuilder_new_def data_bytes_def builder_rep_new)
  show "env_files env path = None" "quiet env \<Longrightarrow> quiet env'" by (fact c(1), fact c(3))
qed

lemma open_quiet:
  assumes "quiet env" "env_files env path = None" "path \<noteq> []"
    and "0 < sbo_block_size options" "0 < sbo_restart_interval options"
  shows "\<exists>b env'. SSTableBuilder_open path options env = (Inr b, env')"
  using assms quiet_sys_create_exclusive [OF quiet_at_self [THEN iffD2], of env path]
  by (auto simp: SSTableBuilder_open_def)

definition table_meta :: "nat \<Rightarrow> entry list list \<Rightarrow> SSTableMeta" where
  "table_meta r ess =
     \<lparr>sm_file_size = of_nat (length (table_bytes r ess)), sm_entry_count = of_nat (length (concat ess)),
      sm_smallest_key = fst (hd (concat ess)), sm_largest_key = fst (last (concat ess))\<rparr>"

lemma sync_outcome:
  assumes "SSTableBuilder_sync b env = (status, b', env')" "status_ok (sb_error b)"
  shows "status_ok status \<Longrightarrow> b' = b" and "\<not> status_ok status \<Longrightarrow> b' = b\<lparr>sb_error := status\<rparr>"
    and "env_files env' = env_files env" and "quiet env \<Longrightarrow> status_ok status \<and> quiet env'"
proof -
  show "status_ok status \<Longrightarrow> b' = b" "\<not> status_ok status \<Longrightarrow> b' = b\<lparr>sb_error := status\<rparr>"
    "env_files env' = env_files env"
    using assms latch_ok [OF assms(2)]
    by (auto simp: SSTableBuilder_sync_def env_fdatasync_def split: option.splits prod.splits)
  show "quiet env \<Longrightarrow> status_ok status \<and> quiet env'"
    using assms quiet_env_fdatasync [OF quiet_at_self [THEN iffD2], of env]
    by (auto simp: SSTableBuilder_sync_def quiet_at_def)
qed

lemma complete_outcome:
  assumes c: "SSTableBuilder_complete fh ih b env = (res, b', env')"
    and b: "status_ok (sb_error b)" "sb_state b = kBuilding" "env_files env = F(sb_path b \<mapsto> d)"
  shows "\<forall>meta. res = Inr meta \<longrightarrow> meta =
      \<lparr>sm_file_size = sb_file_offset b + 48, sm_entry_count = sb_entry_count b,
       sm_smallest_key = sb_first_key b, sm_largest_key = sb_last_key b\<rparr> \<and>
      sb_state b' = kFinished \<and> env_files env' = F(sb_path b \<mapsto> d @ putSSTableFooter [] fh ih)"
    and "\<forall>status. res = Inl status \<longrightarrow> tb_failed (sb_path b) F status b' env'"
    and "quiet env \<longrightarrow> (\<exists>meta. res = Inr meta) \<and> quiet env'"
proof -
  let ?ft = "putSSTableFooter [] fh ih"
  obtain s1 b1 env1 where w: "SSTableBuilder_writeAll ?ft b env = (s1, b1, env1)" by (metis prod_cases3)
  note o1 = writeAll_outcome [OF w b(1,3)]
  define b1' where "b1' = b1\<lparr>sb_file_offset := sb_file_offset b1 + 48\<rparr>"
  obtain s2 b2 env2 where y: "SSTableBuilder_sync b1' env1 = (s2, b2, env2)" by (metis prod_cases3)
  obtain e env3 where cl: "sys_call env2 = (e, env3)" by fastforce
  have k: "env_files env3 = env_files env2" "quiet env2 \<Longrightarrow> e = None \<and> quiet env3"
    using cl quiet_sys_call [OF quiet_at_self [THEN iffD2], of env2]
    by (auto simp: sys_call_def quiet_at_def split: list.splits)
  have *: "SSTableBuilder_complete fh ih b env =
    (if \<not> status_ok s1 then (Inl s1, b1, env1) else if \<not> status_ok s2 then (Inl s2, b2, env2)
     else case e of Some n \<Rightarrow> (let (status, b) = SSTableBuilder_latchIOError ''close SSTable'' n (b2\<lparr>sb_fd_open := False\<rparr>)
                     in (Inl status, b, env3))
          | None \<Rightarrow> (Inr \<lparr>sm_file_size = sb_file_offset b2, sm_entry_count = sb_entry_count b2,
                          sm_smallest_key = sb_first_key b2, sm_largest_key = sb_last_key b2\<rparr>,
                     b2\<lparr>sb_fd_open := False, sb_state := kFinished\<rparr>, env3))"
    using w y cl by (auto simp: SSTableBuilder_complete_def b1'_def split: option.splits)
  have "(\<forall>meta. res = Inr meta \<longrightarrow> meta =
      \<lparr>sm_file_size = sb_file_offset b + 48, sm_entry_count = sb_entry_count b,
       sm_smallest_key = sb_first_key b, sm_largest_key = sb_last_key b\<rparr> \<and>
      sb_state b' = kFinished \<and> env_files env' = F(sb_path b \<mapsto> d @ ?ft)) \<and>
    (\<forall>status. res = Inl status \<longrightarrow> tb_failed (sb_path b) F status b' env') \<and>
    (quiet env \<longrightarrow> (\<exists>meta. res = Inr meta) \<and> quiet env')"
  proof (cases "status_ok s1")
    case True
    then have b1: "b1' = b\<lparr>sb_file_offset := sb_file_offset b + 48\<rparr>" "status_ok (sb_error b1')"
      "env_files env1 = F(sb_path b \<mapsto> d @ ?ft)" using o1(1) b by (simp_all add: b1'_def)
    note o2 = sync_outcome [OF y b1(2)]
    show ?thesis
    proof (cases "status_ok s2")
      case ok2: True
      then have b2: "b2 = b1'" by (rule o2(1))
      show ?thesis
      proof (cases e)
        case None
        then show ?thesis using c * True ok2 b2 o2(3,4) o1(3) b1 k b(1) by auto
      next
        case (Some n)
        obtain s b3 where l: "SSTableBuilder_latchIOError ''close SSTable'' n (b2\<lparr>sb_fd_open := False\<rparr>) = (s, b3)"
          by fastforce
        have "\<not> status_ok s \<and> b3 = b2\<lparr>sb_fd_open := False, sb_error := s\<rparr>"
          using latch_ok [OF _ l] b2 b1(2) by simp
        moreover have "res = Inl s" "b' = b3" "env' = env3" using c * True ok2 Some l by simp_all
        moreover have "\<not> quiet env" using k(2) Some o1(3) o2(4) by auto
        ultimately show ?thesis
          using b1(1,3) b2 o2(3) k(1) b(2) by (auto simp: tb_failed_def)
      qed
    next
      case False
      moreover have "res = Inl s2" "b' = b2" "env' = env2" using c * True False by simp_all
      moreover have "\<not> quiet env" using False o1(3) o2(4) by auto
      ultimately show ?thesis using o2(2,3) b1(1,3) b(2) by (auto simp: tb_failed_def)
    qed
  next
    case False
    then show ?thesis using c * o1(2,3) b by (auto simp: tb_failed_def)
  qed
  then show "\<forall>meta. res = Inr meta \<longrightarrow> meta =
      \<lparr>sm_file_size = sb_file_offset b + 48, sm_entry_count = sb_entry_count b,
       sm_smallest_key = sb_first_key b, sm_largest_key = sb_last_key b\<rparr> \<and>
      sb_state b' = kFinished \<and> env_files env' = F(sb_path b \<mapsto> d @ ?ft)"
    "\<forall>status. res = Inl status \<longrightarrow> tb_failed (sb_path b) F status b' env'"
    "quiet env \<longrightarrow> (\<exists>meta. res = Inr meta) \<and> quiet env'" by blast+
qed

lemma finish_flushed:
  assumes rep: "tb_rep r ess [] path F b env" and ne: "concat ess \<noteq> []"
    and f: "SSTableBuilder_finish b env = (res, b', env')"
  shows "(\<forall>meta. res = Inr meta \<longrightarrow> meta = table_meta r ess \<and> sb_state b' = kFinished \<and>
      env_files env' = F(path \<mapsto> table_bytes r ess)) \<and>
    (\<forall>status. res = Inl status \<longrightarrow> tb_failed path F status b' env') \<and>
    (quiet env \<longrightarrow> (\<exists>meta. res = Inr meta) \<and> quiet env')"
proof -
  let ?fb = "table_filter (concat ess)" and ?d = "data_bytes r ess" and ?ib = "table_index r ess"
  have b: "status_ok (sb_error b)" "sb_path b = path" "sb_state b = kBuilding"
    "env_files env = F(sb_path b \<mapsto> ?d)" "sb_file_offset b = of_nat (length ?d)"
    "BloomFilterBuilder_finish (sb_bloom_filter b) = ?fb"
    using rep by (simp_all add: tb_rep_def BloomFilterBuilder_finish_def table_filter_def)
  obtain ib where ib: "BlockBuilder_finish (sb_index_block b) = (?ib, ib)"
    using rep builder_finish by (metis table_index_def prod.collapse tb_rep_def)
  obtain r1 b1 env1 where w1: "SSTableBuilder_writeBlock ?fb b env = (r1, b1, env1)" by (metis prod_cases3)
  note o1 = writeBlock_outcome [OF w1 b(1,4)]
  show ?thesis
  proof (cases r1)
    case (Inl s)
    then show ?thesis
      using f w1 o1(2) [OF Inl] o1(3) b flush_empty [OF rep]
      by (auto simp: SSTableBuilder_finish_def tb_failed_def)
  next
    case r1: (Inr fh)
    define b1' where "b1' = b1\<lparr>sb_index_block := ib\<rparr>"
    have b1: "status_ok (sb_error b1')" "sb_path b1' = path" "sb_state b1' = kBuilding"
      "env_files env1 = F(sb_path b1' \<mapsto> ?d @ table_block ?fb)" "sb_index_block b1 = sb_index_block b"
      "sb_file_offset b1' = of_nat (length ?d + length ?fb + 5)"
      using o1(1) [OF r1] b by (simp_all add: b1'_def)
    obtain r2 b2 env2 where w2: "SSTableBuilder_writeBlock ?ib b1' env1 = (r2, b2, env2)"
      by (metis prod_cases3)
    note o2 = writeBlock_outcome [OF w2 b1(1,4)]
    have fin: "SSTableBuilder_finish b env = (case r2 of Inl status \<Rightarrow> (Inl status, b2, env2)
            | Inr index_handle \<Rightarrow> SSTableBuilder_complete fh index_handle b2 env2)"
      using b flush_empty [OF rep] w1 r1 b1(5) ib w2
      by (simp add: SSTableBuilder_finish_def b1'_def split: sum.splits)
    show ?thesis
    proof (cases r2)
      case (Inl s)
      then show ?thesis
        using f fin o2(2) [OF Inl] o2(3) o1(3) b1 by (auto simp: tb_failed_def)
    next
      case r2: (Inr ih)
      have b2: "status_ok (sb_error b2)" "sb_path b2 = path" "sb_state b2 = kBuilding"
        "env_files env2 = F(sb_path b2 \<mapsto> ?d @ table_block ?fb @ table_block ?ib)"
        "sb_file_offset b2 = of_nat (length ?d + length ?fb + length ?ib + 10)"
        and h: "fh = \<lparr>bh_offset = of_nat (length ?d), bh_size = of_nat (length ?fb)\<rparr>"
        "ih = \<lparr>bh_offset = of_nat (length ?d + length ?fb + 5), bh_size = of_nat (length ?ib)\<rparr>"
        using o2(1) [OF r2] o1(1) [OF r1] b1 b(5) by simp_all
      have keys: "sb_entry_count b2 = of_nat (length (concat ess))"
        "sb_first_key b2 = fst (hd (concat ess))" "sb_last_key b2 = fst (last (concat ess))"
        using rep ne o2(1) [OF r2] o1(1) [OF r1] by (simp_all add: tb_rep_def b1'_def)
      have bytes: "(?d @ table_block ?fb @ table_block ?ib) @ putSSTableFooter [] fh ih = table_bytes r ess"
        by (simp add: table_bytes_def Let_def h)
      have len: "sb_file_offset b2 + 48 = of_nat (length (table_bytes r ess))"
        unfolding bytes [symmetric] using b2(5) by simp
      have cmp: "SSTableBuilder_complete fh ih b2 env2 = (res, b', env')" using f fin r2 by simp
      show ?thesis
        using complete_outcome [OF cmp b2(1,3,4), unfolded bytes len keys b2(2)] o2(3) o1(3)
        unfolding table_meta_def by blast
    qed
  qed
qed

lemma finish_outcome:
  assumes rep: "tb_rep r ess cur path F b env" and ne: "concat ess @ cur \<noteq> []"
    and f: "SSTableBuilder_finish b env = (res, b', env')"
  shows "(\<forall>meta. res = Inr meta \<longrightarrow> (\<exists>ess'. concat ess' = concat ess @ cur \<and> [] \<notin> set ess' \<and>
      meta = table_meta r ess' \<and> sb_state b' = kFinished \<and> env_files env' = F(path \<mapsto> table_bytes r ess'))) \<and>
    (\<forall>status. res = Inl status \<longrightarrow> tb_failed path F status b' env') \<and>
    (quiet env \<longrightarrow> (\<exists>meta. res = Inr meta) \<and> quiet env')"
proof -
  let ?ess = "if cur = [] then ess else ess @ [cur]"
  obtain s b1 env1 where fl: "SSTableBuilder_flushDataBlock b env = (s, b1, env1)" by (metis prod_cases3)
  note o = flush_outcome [OF rep fl]
  have ok: "status_ok (sb_error b)" using rep by (simp add: tb_rep_def)
  show ?thesis
  proof (cases "status_ok s")
    case True
    note rep1 = o(1) [OF True]
    have c: "concat ?ess = concat ess @ cur" "[] \<notin> set ?ess" using rep by (auto simp: tb_rep_def)
    have "SSTableBuilder_finish b env = SSTableBuilder_finish b1 env1"
      using ok fl True flush_empty [OF rep1] rep1 by (simp add: SSTableBuilder_finish_def tb_rep_def)
    then have f1: "SSTableBuilder_finish b1 env1 = (res, b', env')" using f by simp
    have ne1: "concat ?ess \<noteq> []" unfolding c(1) by (rule ne)
    show ?thesis using finish_flushed [OF rep1 ne1 f1] c o(3) by blast
  next
    case False
    then have "res = Inl s" "b' = b1" "env' = env1"
      using f fl ok by (simp_all add: SSTableBuilder_finish_def)
    then show ?thesis using False o(2,3) by auto
  qed
qed

text \<open>A failed builder answers with its first error and leaves the files alone.\<close>

lemma failed_stays:
  assumes "tb_failed path F status b env"
  shows "SSTableBuilder_add k v b env = (status, b, env)"
    and "SSTableBuilder_finish b env = (Inl status, b, env)"
  using assms by (simp_all add: tb_failed_def SSTableBuilder_add_def SSTableBuilder_finish_def)

lemma unlink_files:
  assumes "set (env_call env) \<subseteq> {None}"
  shows "env_files (snd (sys_unlink path env)) = (env_files env)(path := None)"
proof -
  have "fst (sys_call env) = None" "env_files (snd (sys_call env)) = env_files env"
    using assms by (auto simp: sys_call_def split: list.splits)
  then show ?thesis by (auto simp: sys_unlink_def split: prod.splits)
qed

lemma abandon_failed:
  assumes "tb_failed path F status b env" "set (env_call env) \<subseteq> {None}"
  shows "env_files (snd (SSTableBuilder_abandon b env)) = F(path := None)"
proof -
  define env1 where "env1 = (if sb_fd_open b then snd (sys_call env) else env)"
  have "set (env_call env1) \<subseteq> {None}" "env_files env1 = env_files env"
    using assms(2) by (auto simp: env1_def sys_call_def split: list.splits)
  moreover have "snd (SSTableBuilder_abandon b env) = snd (sys_unlink path env1)"
    using assms(1) by (simp add: SSTableBuilder_abandon_def tb_failed_def env1_def Let_def)
  ultimately show ?thesis using assms(1) unlink_files [of env1 path] by (auto simp: tb_failed_def)
qed

lemma abandon_other: "p \<noteq> sb_path b \<Longrightarrow> env_files (snd (SSTableBuilder_abandon b env)) p = env_files env p"
  using call_files [of env]
  by (auto simp: SSTableBuilder_abandon_def Let_def sys_unlink_other split: prod.splits)

lemma abandon_finished: "sb_state b = kFinished \<Longrightarrow> SSTableBuilder_abandon b env = (b, env)"
  by (simp add: SSTableBuilder_abandon_def)

lemma abandon_failed_other:
  assumes "tb_failed path F status b env" "p \<noteq> path"
  shows "env_files (snd (SSTableBuilder_abandon b env)) p = F p"
  using assms abandon_other [of p b env] by (auto simp: tb_failed_def)

text \<open>Writing a list of entries to a table, as far as it comes.\<close>

lemma build_cases:
  assumes "SSTableBuilder_open path options env = (Inr b0, env0)" "add_all es b0 env0 = (s, b1, env1)"
    and "es \<noteq> []" "length es < 2 ^ 64" "\<forall>e \<in> set es. wf_ikey (fst e)"
  obtains (adding) "\<not> status_ok s" "tb_failed path (env_files env) s b1 env1"
  | (finishing) st b2 env2 where "status_ok s" "SSTableBuilder_finish b1 env1 = (Inl st, b2, env2)"
      "tb_failed path (env_files env) st b2 env2"
  | (finished) ess meta b2 env2 where "status_ok s" "SSTableBuilder_finish b1 env1 = (Inr meta, b2, env2)"
      "concat ess = es" "[] \<notin> set ess" "meta = table_meta (sbo_restart_interval options) ess"
      "sb_state b2 = kFinished" "env_files env2 = (env_files env)(path \<mapsto> table_bytes (sbo_restart_interval options) ess)"
proof -
  let ?r = "sbo_restart_interval options" and ?F = "env_files env"
  have a: "(status_ok s \<longrightarrow> (\<exists>ess cur. concat ess @ cur = es \<and> tb_rep ?r ess cur path ?F b1 env1)) \<and>
      (\<not> status_ok s \<longrightarrow> tb_failed path ?F s b1 env1)"
    using add_all_outcome [OF open_outcome(1) [OF assms(1)] assms(5) _ assms(2)] assms(4) by simp
  obtain res b2 env2 where fi: "SSTableBuilder_finish b1 env1 = (res, b2, env2)" by (metis prod_cases3)
  show thesis
  proof (cases "status_ok s")
    case True
    then obtain ess cur where r: "concat ess @ cur = es" "tb_rep ?r ess cur path ?F b1 env1" using a by blast
    note f = finish_outcome [OF r(2) _ fi, unfolded r(1), OF assms(3)]
    show thesis using f True fi finishing finished by (cases res) blast+
  qed (use a adding in blast)
qed

lemma build_runs:
  assumes "quiet env" and "env_files env path = None" and "path \<noteq> []"
    and "0 < sbo_block_size options" and "0 < sbo_restart_interval options"
    and "es \<noteq> []" and "\<forall>e \<in> set es. wf_ikey (fst e)" and "length es < 2 ^ 64"
  shows "\<exists>b0 env0 b1 env1 meta b2 env2 status. SSTableBuilder_open path options env = (Inr b0, env0) \<and>
    add_all es b0 env0 = (status, b1, env1) \<and> status_ok status \<and>
    SSTableBuilder_finish b1 env1 = (Inr meta, b2, env2) \<and> quiet env2"
proof -
  obtain b0 env0 where op: "SSTableBuilder_open path options env = (Inr b0, env0)"
    using open_quiet [OF assms(1-5)] by blast
  note o = open_outcome [OF op]
  obtain status b1 env1 where ad: "add_all es b0 env0 = (status, b1, env1)" by (metis prod_cases3)
  obtain ess cur where a: "status_ok status" "quiet env1" "concat ess @ cur = es"
    "tb_rep (sbo_restart_interval options) ess cur path (env_files env) b1 env1"
    using add_all_outcome [OF o(1) assms(7) _ ad] assms(1,8) o(3) by auto
  obtain res b2 env2 where f: "SSTableBuilder_finish b1 env1 = (res, b2, env2)" by (metis prod_cases3)
  then show ?thesis
    using finish_outcome [OF a(4) _ f] a assms(6) op ad by blast
qed

subsection \<open>Properties\<close>

text \<open>
  C12. Whatever the system calls do, a table build that reports success has written a complete
  table: the file at the path holds the blocks, filter, index and footer of exactly the added
  entries, the metadata give its size, entry count and first and last key, and every other file
  is as before.  A build that fails has touched no other file, and abandoning it removes its file
  again.
\<close>

theorem sstable_build_outcome:
  assumes "SSTableBuilder_open path options env = (Inr b0, env0)"
    and "add_all es b0 env0 = (status, b1, env1)"
    and "SSTableBuilder_finish b1 env1 = (res, b2, env2)"
    and "es \<noteq> []" and "\<forall>e \<in> set es. wf_ikey (fst e)" and "length es < 2 ^ 64"
  shows "(case res of
      Inr meta \<Rightarrow> status_ok status \<and> (\<exists>ess. concat ess = es \<and> [] \<notin> set ess \<and>
        meta = table_meta (sbo_restart_interval options) ess \<and>
        env_files env2 = (env_files env)(path \<mapsto> table_bytes (sbo_restart_interval options) ess))
    | Inl error \<Rightarrow> \<not> status_ok error \<and> (\<exists>c. env_files env2 = (env_files env)(path \<mapsto> c)) \<and>
        (set (env_call env2) \<subseteq> {None} \<longrightarrow>
          env_files (snd (SSTableBuilder_abandon b2 env2)) = env_files env))"
proof -
  let ?r = "sbo_restart_interval options" and ?F = "env_files env"
  note o = open_outcome [OF assms(1)]
  have a: "(status_ok status \<longrightarrow> (\<exists>ess' cur'. concat ess' @ cur' = es \<and> tb_rep ?r ess' cur' path ?F b1 env1)) \<and>
    (\<not> status_ok status \<longrightarrow> tb_failed path ?F status b1 env1)"
    using add_all_outcome [OF o(1) assms(5) _ assms(2)] assms(6) by simp
  have fail: ?thesis if "res = Inl error" "tb_failed path ?F error b2 env2" for error
  proof -
    have "?F(path := None) = ?F" using o(2) by auto
    then show ?thesis using that abandon_failed [OF that(2)] by (auto simp: tb_failed_def)
  qed
  show ?thesis
  proof (cases "status_ok status")
    case True
    then obtain ess cur where r: "concat ess @ cur = es" "tb_rep ?r ess cur path ?F b1 env1" using a by blast
    then show ?thesis
      using finish_outcome [OF r(2) _ assms(3)] assms(4) True fail by (cases res) auto
  next
    case False
    then have "tb_failed path ?F status b1 env1" using a by simp
    then show ?thesis using failed_stays(2) assms(3) fail by fastforce
  qed
qed



theorem sstable_build_outcome_witness:
  "\<exists>b0 env0 b1 env1 meta b2 env2 status ess.
    SSTableBuilder_open ''t'' \<lparr>sbo_block_size = 4096, sbo_restart_interval = 16\<rparr>
      \<lparr>env_files = Map.empty, env_io = [], env_sync = [], env_call = []\<rparr> = (Inr b0, env0) \<and>
    add_all [(encodeInternalKey [1] 1 kValue, [2])] b0 env0 = (status, b1, env1) \<and>
    SSTableBuilder_finish b1 env1 = (Inr meta, b2, env2) \<and>
    concat ess = [(encodeInternalKey [1] 1 kValue, [2])] \<and> meta = table_meta 16 ess \<and>
    env_files env2 ''t'' = Some (table_bytes 16 ess)"
proof -
  let ?env = "\<lparr>env_files = Map.empty, env_io = [], env_sync = [], env_call = []\<rparr>"
  let ?o = "\<lparr>sbo_block_size = 4096, sbo_restart_interval = 16\<rparr>"
  let ?es = "[(encodeInternalKey [1] 1 kValue, [2])]"
  have wf: "\<forall>e \<in> set ?es. wf_ikey (fst e)" by (simp add: wf_ikey_encode kMaxSequenceNumber_def)
  obtain b0 env0 b1 env1 meta b2 env2 status where
    r: "SSTableBuilder_open ''t'' ?o ?env = (Inr b0, env0)" "add_all ?es b0 env0 = (status, b1, env1)"
    "SSTableBuilder_finish b1 env1 = (Inr meta, b2, env2)"
    using build_runs [of ?env "''t''" ?o ?es] wf by (auto simp: quiet_def)
  show ?thesis using sstable_build_outcome [OF r _ wf] r by auto
qed

end
