(* ===== verification/Filename.thy ===== *)
theory Filename
  imports Posix
begin

text \<open>
  \<^verbatim>\<open>src/db/filename.h\<close> and \<^verbatim>\<open>filename.cc\<close>: the names of the files of a database and the
  recognition of numbered files.  A path is a string; \<open>path_join\<close> and \<open>path_filename\<close> are
  what the code uses of \<^verbatim>\<open>std::filesystem::path\<close> (POSIX: one separator).  File numbers stay
  64-bit words, so that the overflow check of \<open>parseNumber\<close> is the one of the code.
\<close>

datatype NumberedFileType = kWal | kSSTable | kSSTableTemporary

definition path_join :: "string \<Rightarrow> string \<Rightarrow> string" where
  "path_join directory name =
     (if directory = [] \<or> last directory = CHR ''/'' then directory @ name
      else directory @ ''/'' @ name)"

definition path_filename :: "string \<Rightarrow> string" where
  "path_filename path = rev (takeWhile (\<lambda>c. c \<noteq> CHR ''/'') (rev path))"

definition numberedName :: "u64 \<Rightarrow> string \<Rightarrow> string" where
  "numberedName number suffix =
     (let digits = to_string (unat number);
          digits = (if length digits < 6 then replicate (6 - length digits) CHR ''0'' @ digits
                    else digits)
      in digits @ suffix)"

fun parseDigits :: "u64 \<Rightarrow> string \<Rightarrow> u64 option" where
  "parseDigits parsed [] = Some parsed"
| "parseDigits parsed (character # text) =
     (if (of_char character :: nat) < of_char CHR ''0'' \<or> of_char CHR ''9'' < (of_char character :: nat)
      then None
      else let digit = of_nat (of_char character - of_char CHR ''0'') in
        if (0xffffffffffffffff - digit) div 10 < parsed then None
        else parseDigits (parsed * 10 + digit) text)"

definition parseNumber :: "string \<Rightarrow> u64 option" where
  "parseNumber text =
     (if text = [] then None
      else case parseDigits 0 text of
        None \<Rightarrow> None
      | Some parsed \<Rightarrow> if parsed = 0 then None else Some parsed)"

definition lockFileName :: "string \<Rightarrow> string" where
  "lockFileName db_directory = path_join db_directory ''LOCK''"

definition manifestFileName :: "string \<Rightarrow> string" where
  "manifestFileName db_directory = path_join db_directory ''MANIFEST''"

definition manifestTemporaryFileName :: "string \<Rightarrow> string" where
  "manifestTemporaryFileName db_directory = path_join db_directory ''MANIFEST.tmp''"

definition walFileName :: "string \<Rightarrow> u64 \<Rightarrow> string" where
  "walFileName db_directory number = path_join db_directory (numberedName number ''.log'')"

definition sstableFileName :: "string \<Rightarrow> u64 \<Rightarrow> string" where
  "sstableFileName db_directory number = path_join db_directory (numberedName number ''.sst'')"

definition sstableTemporaryFileName :: "string \<Rightarrow> u64 \<Rightarrow> string" where
  "sstableTemporaryFileName db_directory number =
     path_join db_directory (numberedName number ''.sst.tmp'')"

definition suffixes :: "(string \<times> NumberedFileType) list" where
  "suffixes = [(''.sst.tmp'', kSSTableTemporary), (''.sst'', kSSTable), (''.log'', kWal)]"

fun parseSuffixes ::
  "string \<Rightarrow> (string \<times> NumberedFileType) list \<Rightarrow> (u64 \<times> NumberedFileType) option" where
  "parseSuffixes name [] = None"
| "parseSuffixes name ((suffix, type) # rest) =
     (if length name \<le> length suffix \<or> drop (length name - length suffix) name \<noteq> suffix
      then parseSuffixes name rest
      else case parseNumber (take (length name - length suffix) name) of
        None \<Rightarrow> None
      | Some parsed \<Rightarrow> Some (parsed, type))"

definition parseNumberedFileName :: "string \<Rightarrow> (u64 \<times> NumberedFileType) option" where
  "parseNumberedFileName path = parseSuffixes (path_filename path) suffixes"

text \<open>The number a string of decimal digits denotes.\<close>

definition is_digit :: "char \<Rightarrow> bool" where
  "is_digit c \<longleftrightarrow> 48 \<le> (of_char c :: nat) \<and> of_char c \<le> (57 :: nat)"

definition decimal :: "nat \<Rightarrow> string \<Rightarrow> nat" where
  "decimal = foldl (\<lambda>v c. v * 10 + (of_char c - 48))"

definition file_suffix :: "NumberedFileType \<Rightarrow> string" where
  "file_suffix t = (case t of kWal \<Rightarrow> ''.log'' | kSSTable \<Rightarrow> ''.sst'' | kSSTableTemporary \<Rightarrow> ''.sst.tmp'')"

subsection \<open>Decimal numbers\<close>

lemma decimal_simps [simp]:
  "decimal v [] = v" "decimal v (c # cs) = decimal (v * 10 + (of_char c - 48)) cs"
  "decimal v (cs @ [c]) = decimal v cs * 10 + (of_char c - 48)"
  by (simp_all add: decimal_def)

lemma decimal_append: "decimal v (cs @ ds) = decimal (decimal v cs) ds"
  by (simp add: decimal_def)

lemma decimal_mono: "v \<le> decimal v cs"
proof (induction cs arbitrary: v)
  case (Cons c cs)
  have "v \<le> v * 10 + (of_char c - 48)" by simp
  then show ?case using Cons [of "v * 10 + (of_char c - 48)"] by (simp del: of_char_of)
qed simp

lemma digit_char:
  "d < 10 \<Longrightarrow> (of_char (char_of (48 + d) :: char) :: nat) = 48 + d"
  by simp

lemma to_string_decimal: "decimal 0 (to_string n) = n"
proof (induction n rule: to_string.induct)
  case (1 n)
  then show ?case by (subst to_string.simps) simp
qed

lemma to_string_digits: "\<forall>c \<in> set (to_string n). is_digit c"
proof (induction n rule: to_string.induct)
  case (1 n)
  then show ?case by (subst to_string.simps) (auto simp: is_digit_def)
qed

lemma to_string_nonempty [simp]: "to_string n \<noteq> []"
  by (subst to_string.simps) simp

lemma decimal_zeros: "decimal 0 (replicate k CHR ''0'' @ ds) = decimal 0 ds"
  by (induction k) simp_all

lemma parse_step:
  assumes "d < 10"
  shows "(0xffffffffffffffff - of_nat d) div 10 < (p :: u64) \<longleftrightarrow> 2 ^ 64 \<le> unat p * 10 + d"
    and "unat p * 10 + d < 2 ^ 64 \<Longrightarrow> unat (p * 10 + of_nat d) = unat p * 10 + d"
proof -
  have d: "unat (of_nat d :: u64) = d" using assms by (simp add: unat_of_nat)
  have "unat ((0xffffffffffffffff - of_nat d :: u64) div 10) = (2 ^ 64 - 1 - d) div 10"
    using assms d by (simp add: unat_div_distrib unat_sub word_le_nat_alt)
  then show "(0xffffffffffffffff - of_nat d) div 10 < p \<longleftrightarrow> 2 ^ 64 \<le> unat p * 10 + d"
    using assms by (simp only: word_less_nat_alt) auto
  assume "unat p * 10 + d < 2 ^ 64"
  then show "unat (p * 10 + of_nat d) = unat p * 10 + d"
    by (simp add: unat_word_ariths d)
qed

lemma parseDigits_Some:
  "parseDigits p ds = Some v \<longleftrightarrow> (\<forall>c \<in> set ds. is_digit c) \<and> decimal (unat p) ds = unat v"
proof (induction ds arbitrary: p)
  case Nil
  then show ?case by (auto simp: word_unat_eq_iff)
next
  case (Cons c ds)
  define d where "d = (of_char c :: nat) - 48"
  show ?case
  proof (cases "is_digit c")
    case False
    then show ?thesis by (auto simp: is_digit_def)
  next
    case True
    then have d: "d < 10" by (auto simp: is_digit_def d_def)
    have step: "parseDigits p (c # ds) = (if 2 ^ 64 \<le> unat p * 10 + d then None
        else parseDigits (p * 10 + of_nat d) ds)"
      using True parse_step(1) [OF d] by (simp add: is_digit_def d_def Let_def)
    show ?thesis
    proof (cases "2 ^ 64 \<le> unat p * 10 + d")
      case True
      then have "2 ^ 64 \<le> decimal (unat p * 10 + d) ds" using decimal_mono order_trans by blast
      moreover have "unat v < 2 ^ 64" using unsigned_less [of v] by simp
      ultimately show ?thesis using True step by (auto simp: d_def)
    next
      case False
      then show ?thesis
        using \<open>is_digit c\<close> step Cons.IH [of "p * 10 + of_nat d"] parse_step(2) [OF d]
        by (simp add: d_def)
    qed
  qed
qed

lemma parseNumber_Some:
  "parseNumber ds = Some v \<longleftrightarrow>
     ds \<noteq> [] \<and> (\<forall>c \<in> set ds. is_digit c) \<and> decimal 0 ds = unat v \<and> v \<noteq> 0"
  using parseDigits_Some [of 0 ds v] by (auto simp: parseNumber_def split: option.splits)

subsection \<open>Names and suffixes\<close>

lemma drop_suffix_iff:
  "length s < length xs \<and> drop (length xs - length s) xs = s \<longleftrightarrow> (\<exists>pre. pre \<noteq> [] \<and> xs = pre @ s)"
proof
  assume "length s < length xs \<and> drop (length xs - length s) xs = s"
  then have "xs = take (length xs - length s) xs @ s" "take (length xs - length s) xs \<noteq> []"
    by (metis append_take_drop_id, auto)
  then show "\<exists>pre. pre \<noteq> [] \<and> xs = pre @ s" by blast
qed auto

lemma parseSuffixes_hit [simp]:
  "pre \<noteq> [] \<Longrightarrow> parseSuffixes (pre @ s) ((s, t) # rest) = map_option (\<lambda>n. (n, t)) (parseNumber pre)"
  by (auto split: option.splits)

lemma parseSuffixes_miss [simp]:
  "\<nexists>pre. pre \<noteq> [] \<and> name = pre @ s \<Longrightarrow> parseSuffixes name ((s, t) # rest) = parseSuffixes name rest"
  using drop_suffix_iff [of s name] by auto

lemma last_suffix: "last (pre @ file_suffix t) =
    (case t of kWal \<Rightarrow> CHR ''g'' | kSSTable \<Rightarrow> CHR ''t'' | kSSTableTemporary \<Rightarrow> CHR ''p'')"
  by (simp add: file_suffix_def split: NumberedFileType.split)

lemma suffix_unique: "pre @ file_suffix t = pre' @ file_suffix u \<Longrightarrow> t = u"
  by (drule arg_cong [of _ _ last]) (simp only: last_suffix split: NumberedFileType.splits, auto)

lemma suffixes_alt:
  "suffixes = [(file_suffix kSSTableTemporary, kSSTableTemporary), (file_suffix kSSTable, kSSTable),
     (file_suffix kWal, kWal)]"
  by (simp add: suffixes_def file_suffix_def)

lemma parseSuffixes_other:
  assumes "u \<noteq> t"
  shows "parseSuffixes (pre @ file_suffix t) ((file_suffix u, u) # rest) =
    parseSuffixes (pre @ file_suffix t) rest"
  using assms suffix_unique [of pre t _ u] by (intro parseSuffixes_miss) blast

lemma parseSuffixes_name:
  "pre \<noteq> [] \<Longrightarrow>
     parseSuffixes (pre @ file_suffix t) suffixes = map_option (\<lambda>n. (n, t)) (parseNumber pre)"
  unfolding suffixes_alt
  by (cases t) (simp_all only: parseSuffixes_other parseSuffixes_hit NumberedFileType.distinct
      not_False_eq_True)

lemma parseSuffixes_Some:
  assumes "parseSuffixes name suffixes = Some (n, t)"
  shows "\<exists>pre. pre \<noteq> [] \<and> name = pre @ file_suffix t \<and> parseNumber pre = Some n"
proof -
  have "\<exists>pre u. pre \<noteq> [] \<and> name = pre @ file_suffix u"
  proof (rule ccontr)
    assume "\<nexists>pre u. pre \<noteq> [] \<and> name = pre @ file_suffix u"
    then have "\<nexists>pre. pre \<noteq> [] \<and> name = pre @ file_suffix u" for u by blast
    note miss = parseSuffixes_miss [OF this]
    have "parseSuffixes name suffixes = None"
      unfolding suffixes_alt by (simp only: miss parseSuffixes.simps(1))
    with assms show False by simp
  qed
  then obtain pre u where "pre \<noteq> []" "name = pre @ file_suffix u" by blast
  then show ?thesis using assms by (auto simp: parseSuffixes_name)
qed

lemma path_filename_join:
  assumes "CHR ''/'' \<notin> set name"
  shows "path_filename (path_join d name) = name"
proof -
  have "takeWhile (\<lambda>c. c \<noteq> CHR ''/'') (rev name @ xs) =
      rev name @ takeWhile (\<lambda>c. c \<noteq> CHR ''/'') xs" for xs
    using assms by (subst takeWhile_append2) auto
  moreover have "d = [] \<or> last d = CHR ''/'' \<Longrightarrow> takeWhile (\<lambda>c. c \<noteq> CHR ''/'') (rev d) = []"
    by (cases d rule: rev_cases) auto
  ultimately show ?thesis by (auto simp: path_filename_def path_join_def)
qed

definition padded :: "u64 \<Rightarrow> string" where
  "padded n = numberedName n []"

lemma padded_props:
  shows "\<forall>c \<in> set (padded n). is_digit c" and "decimal 0 (padded n) = unat n"
    and "padded n \<noteq> []" and "numberedName n s = padded n @ s"
  using to_string_digits [of "unat n"]
  by (auto simp: padded_def numberedName_def Let_def decimal_zeros to_string_decimal is_digit_def)

lemma parse_numberedName:
  assumes "n \<noteq> 0"
  shows "parseNumberedFileName (path_join d (numberedName n (file_suffix t))) = Some (n, t)"
proof -
  have "CHR ''/'' \<notin> set (numberedName n (file_suffix t))"
    using padded_props(1) [of n]
    by (auto simp: padded_props(4) is_digit_def file_suffix_def split: NumberedFileType.splits)
  moreover have "parseNumber (padded n) = Some n"
    using assms padded_props [of n] by (simp add: parseNumber_Some)
  ultimately show ?thesis
    using padded_props(3)
    by (simp add: parseNumberedFileName_def path_filename_join padded_props(4) parseSuffixes_name)
qed

lemma path_join_inject [simp]: "path_join d a = path_join d b \<longleftrightarrow> a = b"
  by (simp add: path_join_def)

lemma padded_inject [simp]: "padded n = padded m \<longleftrightarrow> n = m"
  using padded_props(2) by (metis word_unat_eq_iff)

lemma numberedName_inject:
  "numberedName n (file_suffix t) = numberedName m (file_suffix u) \<longleftrightarrow> n = m \<and> t = u"
  unfolding padded_props(4) using suffix_unique [of "padded n" t "padded m" u] by auto

lemma numberedName_digit: "is_digit (hd (numberedName n s))"
  using padded_props(1,3) [of n] by (simp add: padded_props(4))

lemmas names_def = walFileName_def sstableFileName_def sstableTemporaryFileName_def
  manifestFileName_def manifestTemporaryFileName_def lockFileName_def

text \<open>The files of a database have different names.\<close>

lemma names_inject [simp]:
  "walFileName d n = walFileName d m \<longleftrightarrow> n = m" "sstableFileName d n = sstableFileName d m \<longleftrightarrow> n = m"
  "sstableTemporaryFileName d n = sstableTemporaryFileName d m \<longleftrightarrow> n = m"
  "walFileName d n \<noteq> sstableFileName d m" "walFileName d n \<noteq> sstableTemporaryFileName d m"
  "sstableFileName d n \<noteq> sstableTemporaryFileName d m" "sstableFileName d n \<noteq> walFileName d m"
  "sstableTemporaryFileName d n \<noteq> walFileName d m" "sstableTemporaryFileName d n \<noteq> sstableFileName d m"
  using numberedName_inject [of n kWal m kWal] numberedName_inject [of n kSSTable m kSSTable]
    numberedName_inject [of n kSSTableTemporary m kSSTableTemporary]
    numberedName_inject [of n kWal m kSSTable] numberedName_inject [of n kWal m kSSTableTemporary]
    numberedName_inject [of n kSSTable m kSSTableTemporary] numberedName_inject [of n kSSTable m kWal]
    numberedName_inject [of n kSSTableTemporary m kWal] numberedName_inject [of n kSSTableTemporary m kSSTable]
  by (simp_all add: names_def file_suffix_def)

lemma names_distinct [simp]:
  assumes "p \<in> {manifestFileName d, manifestTemporaryFileName d, lockFileName d}"
  shows "walFileName d n \<noteq> p" "sstableFileName d n \<noteq> p" "sstableTemporaryFileName d n \<noteq> p"
    "p \<noteq> walFileName d n" "p \<noteq> sstableFileName d n" "p \<noteq> sstableTemporaryFileName d n"
proof -
  have "numberedName n s \<notin> {''MANIFEST'', ''MANIFEST.tmp'', ''LOCK''}" for s
    using numberedName_digit [of n s] by (auto simp: is_digit_def)
  then show "walFileName d n \<noteq> p" "sstableFileName d n \<noteq> p" "sstableTemporaryFileName d n \<noteq> p"
    "p \<noteq> walFileName d n" "p \<noteq> sstableFileName d n" "p \<noteq> sstableTemporaryFileName d n"
    using assms by (auto simp: names_def)
qed

lemma manifest_names [simp]:
  "manifestFileName d \<noteq> manifestTemporaryFileName d" "manifestTemporaryFileName d \<noteq> manifestFileName d"
  "lockFileName d \<noteq> manifestFileName d" "lockFileName d \<noteq> manifestTemporaryFileName d"
  by (simp_all add: names_def)

lemma parse_names [simp]:
  shows "n \<noteq> 0 \<Longrightarrow> parseNumberedFileName (walFileName d n) = Some (n, kWal)"
    and "n \<noteq> 0 \<Longrightarrow> parseNumberedFileName (sstableFileName d n) = Some (n, kSSTable)"
    and "n \<noteq> 0 \<Longrightarrow> parseNumberedFileName (sstableTemporaryFileName d n) = Some (n, kSSTableTemporary)"
  using parse_numberedName [of n d kWal] parse_numberedName [of n d kSSTable]
    parse_numberedName [of n d kSSTableTemporary]
  by (simp_all add: names_def file_suffix_def)

lemma parse_manifest [simp]: "parseNumberedFileName (manifestFileName d) = None"
proof -
  have "path_filename (manifestFileName d) = ''MANIFEST''"
    unfolding manifestFileName_def by (rule path_filename_join) simp
  then show ?thesis by (simp add: parseNumberedFileName_def suffixes_def)
qed

lemma parse_unnumbered [simp]:
  "parseNumberedFileName (lockFileName d) = None" "parseNumberedFileName (manifestTemporaryFileName d) = None"
proof -
  have "path_filename (lockFileName d) = ''LOCK''" "path_filename (manifestTemporaryFileName d) = ''MANIFEST.tmp''"
    unfolding lockFileName_def manifestTemporaryFileName_def by (rule path_filename_join, simp)+
  then show "parseNumberedFileName (lockFileName d) = None" "parseNumberedFileName (manifestTemporaryFileName d) = None"
    by (simp_all add: parseNumberedFileName_def suffixes_def)
qed

subsection \<open>Properties\<close>

text \<open>
  C31. Every numbered file the database creates is recognised with its number and its type,
  in any directory and for every positive 64-bit number.
\<close>

theorem numbered_files_recognised:
  assumes "n \<noteq> 0"
  shows "parseNumberedFileName (walFileName d n) = Some (n, kWal) \<and>
    parseNumberedFileName (sstableFileName d n) = Some (n, kSSTable) \<and>
    parseNumberedFileName (sstableTemporaryFileName d n) = Some (n, kSSTableTemporary)"
  using assms by simp

theorem numbered_files_recognised_witness:
  "parseNumberedFileName (walFileName ''/var/db'' 42) = Some (42, kWal) \<and>
   parseNumberedFileName (sstableTemporaryFileName ''db/'' 0xffffffffffffffff) =
     Some (0xffffffffffffffff, kSSTableTemporary)"
  using numbered_files_recognised [of 42 "''/var/db''"]
    numbered_files_recognised [of "0xffffffffffffffff" "''db/''"] by simp

text \<open>
  C32. Exactly these names are recognised: decimal digits that denote a positive number below
  \<open>2\<^sup>6\<^sup>4\<close>, followed by one of the three suffixes; a number that does not fit 64 bits is
  rejected and never wraps around.
\<close>

theorem numbered_names_characterised:
  "parseNumberedFileName path = Some (n, t) \<longleftrightarrow>
     (\<exists>ds. path_filename path = ds @ file_suffix t \<and> ds \<noteq> [] \<and> (\<forall>c \<in> set ds. is_digit c) \<and>
        decimal 0 ds = unat n \<and> n \<noteq> 0)"
proof
  assume "parseNumberedFileName path = Some (n, t)"
  then show "\<exists>ds. path_filename path = ds @ file_suffix t \<and> ds \<noteq> [] \<and> (\<forall>c \<in> set ds. is_digit c) \<and>
        decimal 0 ds = unat n \<and> n \<noteq> 0"
    using parseSuffixes_Some [of "path_filename path" n t]
    by (auto simp: parseNumberedFileName_def parseNumber_Some)
next
  assume "\<exists>ds. path_filename path = ds @ file_suffix t \<and> ds \<noteq> [] \<and> (\<forall>c \<in> set ds. is_digit c) \<and>
        decimal 0 ds = unat n \<and> n \<noteq> 0"
  then obtain ds where "path_filename path = ds @ file_suffix t" "ds \<noteq> []" "parseNumber ds = Some n"
    by (auto simp: parseNumber_Some)
  then show "parseNumberedFileName path = Some (n, t)"
    by (simp add: parseNumberedFileName_def parseSuffixes_name)
qed

theorem numbered_names_characterised_witness:
  "parseNumberedFileName ''db/1.log'' = Some (1, kWal) \<and> walFileName ''db'' 1 = ''db/000001.log''"
proof -
  have "decimal 0 ''1'' = unat (1 :: u64)" by simp
  then have "parseNumberedFileName ''db/1.log'' = Some (1, kWal)"
    unfolding numbered_names_characterised
    by (intro exI [of _ "''1''"]) (simp add: path_filename_def file_suffix_def is_digit_def)
  moreover have "to_string 1 = ''1''" by (simp add: to_string.simps char_of_def bit_0)
  ultimately show ?thesis
    by (simp add: walFileName_def numberedName_def path_join_def Let_def eval_nat_numeral)
qed

end
