(* ===== verification/Manifest.thy ===== *)
theory Manifest
  imports Crc32c InternalKey Posix
begin

text \<open>
  \<^verbatim>\<open>src/db/manifest.h\<close>, \<^verbatim>\<open>manifest.cc\<close> and the level numbers of \<^verbatim>\<open>src/db/level.h\<close>: the manifest names
  the live tables of every level, the sequence number up to which writes are in tables, and the
  oldest log that is still needed.  The array of levels is a list; \<open>manifest_ok\<close> says what a
  consistent state is, and the validation of the code decides it.  The theory shows the round
  trip of the encoding and that publishing replaces the manifest atomically.
\<close>

definition kLevel0 :: nat where
  "kLevel0 = 0"

definition kLevel1 :: nat where
  "kLevel1 = 1"

definition kLevel2 :: nat where
  "kLevel2 = 2"

definition kNumLevels :: nat where
  "kNumLevels = 3"

record TableMeta =
  tm_number :: u64
  tm_file_size :: u64
  tm_smallest_key :: bytes
  tm_largest_key :: bytes

record ManifestState =
  ms_flushed_sequence :: SequenceNumber
  ms_oldest_wal_number :: u64
  ms_levels :: "TableMeta list list"

definition ManifestState_new :: ManifestState where
  "ManifestState_new =
     \<lparr>ms_flushed_sequence = 0, ms_oldest_wal_number = 0, ms_levels = replicate kNumLevels []\<rparr>"

definition kManifestMagic :: bytes where
  "kManifestMagic = ascii ''LSMMAN01''"

definition kManifestMagicSize :: nat where
  "kManifestMagicSize = 8"

definition kManifestVersion :: u32 where
  "kManifestVersion = 3"

definition kLevel1ManifestVersion :: u32 where
  "kLevel1ManifestVersion = 2"

definition kLevel0ManifestVersion :: u32 where
  "kLevel0ManifestVersion = 1"

definition kManifestChecksumSize :: nat where
  "kManifestChecksumSize = 4"

definition kInternalKeyTagSize :: nat where
  "kInternalKeyTagSize = 8"

definition kMinimumTableEncodingSize :: nat where
  "kMinimumTableEncodingSize = 8 * 2 + 4 * 2 + kInternalKeyTagSize * 2"

definition kMaximumManifestSize :: nat where
  "kMaximumManifestSize = 64 * 1024 * 1024"

definition manifest_ioError :: "string \<Rightarrow> string \<Rightarrow> errno \<Rightarrow> Status" where
  "manifest_ioError operation path error_number =
     ioError (operation @ '' manifest '' @ path @ '': '' @ error_message error_number)"

subsection \<open>Validation\<close>

definition validateTable :: "TableMeta \<Rightarrow> u64 set \<Rightarrow> string + u64 set" where
  "validateTable table numbers =
     (if tm_number table = 0 \<or> tm_file_size table = 0
      then Inl ''manifest contains invalid table metadata''
      else if tm_number table \<in> numbers
      then Inl ''manifest contains a duplicate table number''
      else if length (tm_smallest_key table) > 0xffffffff \<or> length (tm_largest_key table) > 0xffffffff
      then Inl ''manifest table key is too large''
      else if parseInternalKey (tm_smallest_key table) = None
        \<or> parseInternalKey (tm_largest_key table) = None
        \<or> InternalKeyLess (tm_largest_key table) (tm_smallest_key table)
      then Inl ''manifest contains an invalid table key range''
      else Inr (insert (tm_number table) numbers))"

fun validate_level0 :: "TableMeta list \<Rightarrow> u64 set \<Rightarrow> string + u64 set" where
  "validate_level0 [] numbers = Inr numbers"
| "validate_level0 (table # tables) numbers =
     (case validateTable table numbers of
        Inl error \<Rightarrow> Inl error
      | Inr numbers \<Rightarrow> validate_level0 tables numbers)"

fun validate_level :: "bytes option \<Rightarrow> TableMeta list \<Rightarrow> u64 set \<Rightarrow> string + u64 set" where
  "validate_level previous_largest [] numbers = Inr numbers"
| "validate_level previous_largest (table # tables) numbers =
     (case validateTable table numbers of
        Inl error \<Rightarrow> Inl error
      | Inr numbers \<Rightarrow>
          if (case previous_largest of
                None \<Rightarrow> False
              | Some previous \<Rightarrow> previous \<ge> userKey (tm_smallest_key table))
          then Inl ''manifest non-L0 table ranges overlap or are out of order''
          else validate_level (Some (userKey (tm_largest_key table))) tables numbers)"

fun validate_levels :: "TableMeta list list \<Rightarrow> u64 set \<Rightarrow> string + u64 set" where
  "validate_levels [] numbers = Inr numbers"
| "validate_levels (tables # levels) numbers =
     (case validate_level None tables numbers of
        Inl error \<Rightarrow> Inl error
      | Inr numbers \<Rightarrow> validate_levels levels numbers)"

definition validateState :: "ManifestState \<Rightarrow> string option" where
  "validateState state =
     (if ms_flushed_sequence state > kMaxSequenceNumber
      then Some ''manifest flushed sequence is out of range''
      else if ms_oldest_wal_number state = 0
      then Some ''manifest WAL number must be positive''
      else if \<exists>tables \<in> set (ms_levels state). length tables > 0xffffffff
      then Some ''manifest has too many tables in a level''
      else case validate_level0 (ms_levels state ! kLevel0) {} of
        Inl error \<Rightarrow> Some error
      | Inr numbers \<Rightarrow>
         (case validate_levels (drop kLevel1 (ms_levels state)) numbers of
            Inl error \<Rightarrow> Some error
          | Inr _ \<Rightarrow> None))"

subsection \<open>Encoding\<close>

definition takeString :: "bytes \<Rightarrow> (bytes \<times> bytes) option" where
  "takeString input =
     (case getFixed32 input of
        None \<Rightarrow> None
      | Some (size1, input) \<Rightarrow>
          if length input < unat size1 then None
          else Some (take (unat size1) input, drop (unat size1) input))"

fun append_tables :: "TableMeta list \<Rightarrow> bytes \<Rightarrow> bytes result" where
  "append_tables [] encoded = Inr encoded"
| "append_tables (table # tables) encoded =
     (let encoded = putFixed64 encoded (tm_number table);
          encoded = putFixed64 encoded (tm_file_size table);
          encoded = putFixed32 encoded (of_nat (length (tm_smallest_key table)));
          encoded = encoded @ tm_smallest_key table;
          encoded = putFixed32 encoded (of_nat (length (tm_largest_key table)));
          encoded = encoded @ tm_largest_key table
      in if length encoded > kMaximumManifestSize - kManifestChecksumSize
         then Inl (invalidArgument ''manifest exceeds 64 MiB'')
         else append_tables tables encoded)"

definition appendTables :: "TableMeta list \<Rightarrow> bytes \<Rightarrow> bytes result" where
  "appendTables tables encoded =
     append_tables tables (putFixed32 encoded (of_nat (length tables)))"

fun append_levels :: "TableMeta list list \<Rightarrow> bytes \<Rightarrow> bytes result" where
  "append_levels [] encoded = Inr encoded"
| "append_levels (level # levels) encoded =
     (case appendTables level encoded of
        Inl status \<Rightarrow> Inl status
      | Inr encoded \<Rightarrow> append_levels levels encoded)"

fun take_tables :: "nat \<Rightarrow> bytes \<Rightarrow> (TableMeta list \<times> bytes) option" where
  "take_tables 0 input = Some ([], input)"
| "take_tables (Suc count) input =
     (case getFixed64 input of None \<Rightarrow> None
      | Some (number, input) \<Rightarrow> (case getFixed64 input of None \<Rightarrow> None
      | Some (file_size, input) \<Rightarrow> (case takeString input of None \<Rightarrow> None
      | Some (smallest_key, input) \<Rightarrow> (case takeString input of None \<Rightarrow> None
      | Some (largest_key, input) \<Rightarrow> (case take_tables count input of None \<Rightarrow> None
      | Some (tables, input) \<Rightarrow>
          Some (\<lparr>tm_number = number, tm_file_size = file_size, tm_smallest_key = smallest_key,
                 tm_largest_key = largest_key\<rparr> # tables, input))))))"

definition takeTables :: "bytes \<Rightarrow> (TableMeta list \<times> bytes) option" where
  "takeTables input =
     (case getFixed32 input of
        None \<Rightarrow> None
      | Some (table_count, input) \<Rightarrow>
          if unat table_count > length input div kMinimumTableEncodingSize then None
          else take_tables (unat table_count) input)"

definition encodeManifest :: "ManifestState \<Rightarrow> bytes result" where
  "encodeManifest state =
     (case validateState state of
        Some error \<Rightarrow> Inl (invalidArgument error)
      | None \<Rightarrow>
          let encoded = take kManifestMagicSize kManifestMagic;
              encoded = putFixed32 encoded kManifestVersion;
              encoded = putFixed64 encoded (ms_flushed_sequence state);
              encoded = putFixed64 encoded (ms_oldest_wal_number state)
          in case append_levels (ms_levels state) encoded of
               Inl status \<Rightarrow> Inl status
             | Inr encoded \<Rightarrow> Inr (putFixed32 encoded (crc32c encoded)))"

text \<open>The table lists of a manifest of the given version, and the rest of the input.\<close>

definition take_levels :: "u32 \<Rightarrow> bytes \<Rightarrow> (TableMeta list list \<times> bytes) result" where
  "take_levels version cursor =
     (case takeTables cursor of
        None \<Rightarrow> Inl (corruption ''invalid manifest L0 table list'')
      | Some (level0, cursor) \<Rightarrow>
         (case (if version \<ge> kLevel1ManifestVersion then takeTables cursor else Some ([], cursor)) of
            None \<Rightarrow> Inl (corruption ''invalid manifest L1 table list'')
          | Some (level1, cursor) \<Rightarrow>
             (case (if version \<ge> kManifestVersion then takeTables cursor else Some ([], cursor)) of
                None \<Rightarrow> Inl (corruption ''invalid manifest L2 table list'')
              | Some (level2, cursor) \<Rightarrow> Inr ([level0, level1, level2], cursor))))"

definition decodeManifest :: "bytes \<Rightarrow> ManifestState result" where
  "decodeManifest input =
     (if length input < kManifestMagicSize + 4 + 8 * 2 + 4 + kManifestChecksumSize
      then Inl (corruption ''manifest is shorter than its header'')
      else if length input > kMaximumManifestSize
      then Inl (corruption ''manifest exceeds 64 MiB'')
      else
        let contents = take (length input - kManifestChecksumSize) input;
            stored_checksum = decodeFixed32 (drop (length input - kManifestChecksumSize) input) in
        if crc32c contents \<noteq> stored_checksum
        then Inl (corruption ''manifest checksum mismatch'')
        else if take kManifestMagicSize contents \<noteq> kManifestMagic
        then Inl (corruption ''invalid manifest magic'')
        else case getFixed32 (drop kManifestMagicSize contents) of
          None \<Rightarrow> Inl (corruption ''unsupported manifest version'')
        | Some (version, cursor) \<Rightarrow>
            if version < kLevel0ManifestVersion \<or> version > kManifestVersion
            then Inl (corruption ''unsupported manifest version'')
            else case getFixed64 cursor of
              None \<Rightarrow> Inl (corruption ''truncated manifest header'')
            | Some (flushed_sequence, cursor) \<Rightarrow>
               (case getFixed64 cursor of
                  None \<Rightarrow> Inl (corruption ''truncated manifest header'')
                | Some (oldest_wal_number, cursor) \<Rightarrow>
                   (case take_levels version cursor of
                      Inl status \<Rightarrow> Inl status
                    | Inr (levels, cursor) \<Rightarrow>
                        if cursor \<noteq> [] then Inl (corruption ''manifest has trailing bytes'')
                        else
                          let decoded = \<lparr>ms_flushed_sequence = flushed_sequence,
                                         ms_oldest_wal_number = oldest_wal_number,
                                         ms_levels = levels\<rparr>
                          in case validateState decoded of
                               Some error \<Rightarrow> Inl (corruption error)
                             | None \<Rightarrow> Inr decoded)))"

subsection \<open>Files\<close>

definition manifest_writeAll :: "string \<Rightarrow> bytes \<Rightarrow> Env \<Rightarrow> Status \<times> Env" where
  "manifest_writeAll path data env =
     (case env_write path data env of
        (None, env) \<Rightarrow> (success, env)
      | (Some error_number, env) \<Rightarrow> (manifest_ioError ''write'' path error_number, env))"

definition manifest_syncFile :: "string \<Rightarrow> Env \<Rightarrow> Status \<times> Env" where
  "manifest_syncFile path env =
     (case env_fdatasync env of
        (None, env) \<Rightarrow> (success, env)
      | (Some error_number, env) \<Rightarrow> (manifest_ioError ''sync'' path error_number, env))"

definition manifest_readFile :: "string \<Rightarrow> Env \<Rightarrow> bytes result \<times> Env" where
  "manifest_readFile path env =
     (case sys_open path env of
        (Inl error_number, env) \<Rightarrow> (Inl (manifest_ioError ''open'' path error_number), env)
      | (Inr content, env) \<Rightarrow>
       (case sys_call env of
          (Some error_number, env) \<Rightarrow> (Inl (manifest_ioError ''stat'' path error_number), env)
        | (None, env) \<Rightarrow>
            if length content > kMaximumManifestSize
            then (Inl (corruption ''manifest is not a valid regular file''), env)
            else case env_read (length content) content env of
              (Inl error_number, env) \<Rightarrow> (Inl (manifest_ioError ''read'' path error_number), env)
            | (Inr data, env) \<Rightarrow>
                if length data < length content
                then (Inl (corruption ''manifest was truncated''), env)
                else case sys_call env of
                  (Some error_number, env) \<Rightarrow>
                    (Inl (manifest_ioError ''close'' path error_number), env)
                | (None, env) \<Rightarrow> (Inr data, env)))"

definition readManifest :: "string \<Rightarrow> Env \<Rightarrow> ManifestState result \<times> Env" where
  "readManifest path env =
     (case manifest_readFile path env of
        (Inl status, env) \<Rightarrow> (Inl status, env)
      | (Inr encoded, env) \<Rightarrow> (decodeManifest encoded, env))"

text \<open>Writing, syncing and closing the temporary file.\<close>

definition manifest_store :: "string \<Rightarrow> bytes \<Rightarrow> Env \<Rightarrow> Status \<times> Env" where
  "manifest_store temporary_path encoded env =
     (let (status, env) = manifest_writeAll temporary_path encoded env;
          (status, env) = (if status_ok status then manifest_syncFile temporary_path env
                           else (status, env));
          (closed, env) = sys_call env
      in (case closed of
            Some error_number \<Rightarrow>
              if status_ok status then manifest_ioError ''close'' temporary_path error_number
              else status
          | None \<Rightarrow> status, env))"

definition writeManifest :: "string \<Rightarrow> string \<Rightarrow> ManifestState \<Rightarrow> Env \<Rightarrow> Status \<times> Env" where
  "writeManifest path temporary_path state env =
     (case encodeManifest state of
        Inl status \<Rightarrow> (status, env)
      | Inr encoded \<Rightarrow>
       (case sys_create temporary_path env of
          (Some error_number, env) \<Rightarrow> (manifest_ioError ''open'' temporary_path error_number, env)
        | (None, env) \<Rightarrow>
            let (status, env) = manifest_store temporary_path encoded env in
            if \<not> status_ok status then (status, snd (sys_unlink temporary_path env))
            else case sys_rename temporary_path path env of
              (Some error_number, env) \<Rightarrow>
                (manifest_ioError ''rename'' temporary_path error_number,
                 snd (sys_unlink temporary_path env))
            | (None, env) \<Rightarrow> (success, env)))"

subsection \<open>Consistent states\<close>

definition table_meta_ok :: "TableMeta \<Rightarrow> bool" where
  "table_meta_ok t \<longleftrightarrow> tm_number t \<noteq> 0 \<and> tm_file_size t \<noteq> 0 \<and>
     length (tm_smallest_key t) < 2 ^ 32 \<and> length (tm_largest_key t) < 2 ^ 32 \<and>
     wf_ikey (tm_smallest_key t) \<and> wf_ikey (tm_largest_key t) \<and>
     \<not> InternalKeyLess (tm_largest_key t) (tm_smallest_key t)"

definition ranges_disjoint :: "TableMeta list \<Rightarrow> bool" where
  "ranges_disjoint =
     sorted_wrt (\<lambda>a b. userKey (tm_largest_key a) < userKey (tm_smallest_key b))"

definition manifest_ok :: "ManifestState \<Rightarrow> bool" where
  "manifest_ok st \<longleftrightarrow> ms_flushed_sequence st \<le> kMaxSequenceNumber \<and> ms_oldest_wal_number st \<noteq> 0 \<and>
     (\<forall>l \<in> set (ms_levels st). length l < 2 ^ 32) \<and>
     (\<forall>t \<in> set (concat (ms_levels st)). table_meta_ok t) \<and>
     distinct (map tm_number (concat (ms_levels st))) \<and>
     (\<forall>l \<in> set (drop 1 (ms_levels st)). ranges_disjoint l)"

lemma table_range: "table_meta_ok t \<Longrightarrow> userKey (tm_smallest_key t) \<le> userKey (tm_largest_key t)"
  by (auto simp: table_meta_ok_def InternalKeyLess_alt not_less)

lemma validateTable_iff:
  "validateTable t N = Inr M \<longleftrightarrow> table_meta_ok t \<and> tm_number t \<notin> N \<and> M = insert (tm_number t) N"
  by (auto simp: validateTable_def table_meta_ok_def wf_ikey_def)

lemma validate_level0_iff:
  "validate_level0 ts N = Inr M \<longleftrightarrow> (\<forall>t \<in> set ts. table_meta_ok t) \<and> distinct (map tm_number ts) \<and>
     tm_number ` set ts \<inter> N = {} \<and> M = N \<union> tm_number ` set ts"
proof (induction ts arbitrary: N)
  case (Cons t ts)
  have "validate_level0 (t # ts) N = Inr M \<longleftrightarrow> table_meta_ok t \<and> tm_number t \<notin> N \<and>
      validate_level0 ts (insert (tm_number t) N) = Inr M"
    by (auto simp: validateTable_iff split: sum.splits)
      (metis Inl_Inr_False old.sum.exhaust validateTable_iff)
  then show ?case using Cons by auto
qed auto

lemma validate_level_iff:
  "validate_level p ts N = Inr M \<longleftrightarrow> (\<forall>t \<in> set ts. table_meta_ok t) \<and> distinct (map tm_number ts) \<and>
     tm_number ` set ts \<inter> N = {} \<and> M = N \<union> tm_number ` set ts \<and> ranges_disjoint ts \<and>
     (case p of None \<Rightarrow> True | Some k \<Rightarrow> \<forall>b \<in> set ts. k < userKey (tm_smallest_key b))"
proof (induction ts arbitrary: p N)
  case Nil
  then show ?case by (auto simp: ranges_disjoint_def split: option.splits)
next
  case (Cons t ts)
  have "validate_level p (t # ts) N = Inr M \<longleftrightarrow> table_meta_ok t \<and> tm_number t \<notin> N \<and>
      (case p of None \<Rightarrow> True | Some k \<Rightarrow> k < userKey (tm_smallest_key t)) \<and>
      validate_level (Some (userKey (tm_largest_key t))) ts (insert (tm_number t) N) = Inr M"
  proof (cases "validateTable t N")
    case (Inl e)
    then have "\<not> (table_meta_ok t \<and> tm_number t \<notin> N)" using validateTable_iff [of t N] by auto
    then show ?thesis using Inl by auto
  next
    case (Inr M')
    then show ?thesis using validateTable_iff [of t N M'] by (auto split: option.splits)
  qed
  moreover have "table_meta_ok t \<Longrightarrow> k < userKey (tm_smallest_key t) \<Longrightarrow>
      \<forall>b \<in> set ts. userKey (tm_largest_key t) < userKey (tm_smallest_key b) \<Longrightarrow>
      \<forall>b \<in> set ts. k < userKey (tm_smallest_key b)" for k
    using table_range [of t] by (meson order_le_less_trans order_less_trans)
  ultimately show ?case
    using Cons [of "Some (userKey (tm_largest_key t))" "insert (tm_number t) N"]
    by (auto simp: ranges_disjoint_def split: option.splits)
qed

lemma validate_levels_iff:
  "(\<exists>M. validate_levels ls N = Inr M) \<longleftrightarrow> (\<forall>t \<in> set (concat ls). table_meta_ok t) \<and>
     distinct (map tm_number (concat ls)) \<and> tm_number ` set (concat ls) \<inter> N = {} \<and>
     (\<forall>l \<in> set ls. ranges_disjoint l)"
proof (induction ls arbitrary: N)
  case (Cons l ls)
  have "(\<exists>M. validate_levels (l # ls) N = Inr M) \<longleftrightarrow>
      (\<exists>N'. validate_level None l N = Inr N' \<and> (\<exists>M. validate_levels ls N' = Inr M))"
    by (auto split: sum.splits)
  also have "\<dots> \<longleftrightarrow> (\<forall>t \<in> set l. table_meta_ok t) \<and> distinct (map tm_number l) \<and>
      tm_number ` set l \<inter> N = {} \<and> ranges_disjoint l \<and>
      (\<exists>M. validate_levels ls (N \<union> tm_number ` set l) = Inr M)"
    unfolding validate_level_iff by (simp only: option.simps) blast
  finally have step: "(\<exists>M. validate_levels (l # ls) N = Inr M) \<longleftrightarrow>
      (\<forall>t \<in> set l. table_meta_ok t) \<and> distinct (map tm_number l) \<and>
      tm_number ` set l \<inter> N = {} \<and> ranges_disjoint l \<and>
      (\<exists>M. validate_levels ls (N \<union> tm_number ` set l) = Inr M)" .
  have u: "set (concat (l # ls)) = set l \<union> set (concat ls)"
    and d: "distinct (map tm_number (concat (l # ls))) \<longleftrightarrow> distinct (map tm_number l) \<and>
      distinct (map tm_number (concat ls)) \<and> tm_number ` set l \<inter> tm_number ` set (concat ls) = {}"
    by simp_all
  have r: "(\<forall>x \<in> set (l # ls). ranges_disjoint x) \<longleftrightarrow> ranges_disjoint l \<and> (\<forall>x \<in> set ls. ranges_disjoint x)"
    by simp
  show ?case unfolding step Cons u d r image_Un by blast
qed simp

text \<open>The validation of the code decides consistency.\<close>

lemma validateState_iff:
  assumes "length (ms_levels st) = kNumLevels"
  shows "validateState st = None \<longleftrightarrow> manifest_ok st"
proof -
  obtain l0 ls where l: "ms_levels st = l0 # ls" using assms by (cases "ms_levels st") (auto simp: kNumLevels_def)
  have A: "validateState st = None \<longleftrightarrow> ms_flushed_sequence st \<le> kMaxSequenceNumber \<and>
      ms_oldest_wal_number st \<noteq> 0 \<and> (\<forall>l \<in> set (ms_levels st). length l < 2 ^ 32) \<and>
      (\<exists>N. validate_level0 l0 {} = Inr N \<and> (\<exists>M. validate_levels ls N = Inr M))"
  proof -
    have "(length (x :: TableMeta list) > 0xffffffff) = (\<not> length x < 2 ^ 32)" for x by auto
    then have big: "(\<exists>x \<in> set (ms_levels st). length x > 0xffffffff) \<longleftrightarrow>
        \<not> (\<forall>x \<in> set (ms_levels st). length x < 2 ^ 32)" by blast
    define ok where "ok \<longleftrightarrow> (\<forall>x \<in> set (ms_levels st). length x < 2 ^ 32)"
    have "(validateState st = None) \<longleftrightarrow> ms_flushed_sequence st \<le> kMaxSequenceNumber \<and>
        ms_oldest_wal_number st \<noteq> 0 \<and> ok \<and>
        (case validate_level0 l0 {} of Inl _ \<Rightarrow> False
         | Inr N \<Rightarrow> (case validate_levels ls N of Inl _ \<Rightarrow> False | Inr _ \<Rightarrow> True))"
      unfolding validateState_def big [folded ok_def] unfolding l
      by (simp add: kLevel0_def kLevel1_def linorder_not_less [symmetric] split: sum.splits)
    then show ?thesis unfolding ok_def [symmetric] by (auto split: sum.splits)
  qed
  have B: "(\<exists>N. validate_level0 l0 {} = Inr N \<and> (\<exists>M. validate_levels ls N = Inr M)) \<longleftrightarrow>
      (\<forall>t \<in> set l0. table_meta_ok t) \<and> distinct (map tm_number l0) \<and>
      (\<exists>M. validate_levels ls (tm_number ` set l0) = Inr M)"
    unfolding validate_level0_iff by simp
  have U: "set (concat (ms_levels st)) = set l0 \<union> set (concat ls)" "drop 1 (ms_levels st) = ls"
    and D: "distinct (map tm_number (concat (ms_levels st))) \<longleftrightarrow> distinct (map tm_number l0) \<and>
      distinct (map tm_number (concat ls)) \<and> tm_number ` set (concat ls) \<inter> tm_number ` set l0 = {}"
    by (simp_all add: l Int_commute)
  show ?thesis
    unfolding A B unfolding manifest_ok_def U D validate_levels_iff by (simp only: ball_Un conj_ac)
qed

subsection \<open>The encoding\<close>

definition meta_bytes :: "TableMeta \<Rightarrow> bytes" where
  "meta_bytes t = putFixed64 [] (tm_number t) @ putFixed64 [] (tm_file_size t) @
     encodeFixed32 (of_nat (length (tm_smallest_key t))) @ tm_smallest_key t @
     encodeFixed32 (of_nat (length (tm_largest_key t))) @ tm_largest_key t"

definition level_bytes :: "TableMeta list \<Rightarrow> bytes" where
  "level_bytes ts = encodeFixed32 (of_nat (length ts)) @ concat (map meta_bytes ts)"

text \<open>The bytes of a manifest of format version \<open>v\<close>, which lists the first \<open>v\<close> levels.\<close>

definition manifest_contents :: "nat \<Rightarrow> ManifestState \<Rightarrow> bytes" where
  "manifest_contents v st = kManifestMagic @ encodeFixed32 (of_nat v) @
     putFixed64 [] (ms_flushed_sequence st) @ putFixed64 [] (ms_oldest_wal_number st) @
     concat (map level_bytes (take v (ms_levels st)))"

definition manifest_bytes :: "nat \<Rightarrow> ManifestState \<Rightarrow> bytes" where
  "manifest_bytes v st = manifest_contents v st @ encodeFixed32 (crc32c (manifest_contents v st))"

lemma length_manifest_magic [simp]: "length kManifestMagic = 8"
  by (simp add: kManifestMagic_def)

lemma takeString_Some:
  "takeString i = Some (s, r) \<longleftrightarrow> i = encodeFixed32 (of_nat (length s)) @ s @ r \<and> length s < 2 ^ 32"
proof
  assume "takeString i = Some (s, r)"
  then obtain n rest where n: "getFixed32 i = Some (n, rest)" "unat n \<le> length rest"
    "s = take (unat n) rest" "r = drop (unat n) rest"
    by (auto simp: takeString_def split: option.splits if_splits)
  then have "length s = unat n" "i = encodeFixed32 n @ s @ r" by (simp_all add: getFixed32_Some)
  then show "i = encodeFixed32 (of_nat (length s)) @ s @ r \<and> length s < 2 ^ 32"
    using unsigned_less [of n, where 'a=nat] by simp
next
  assume "i = encodeFixed32 (of_nat (length s)) @ s @ r \<and> length s < 2 ^ 32"
  then show "takeString i = Some (s, r)" by (simp add: takeString_def unat_of_nat)
qed

definition keys_fit :: "TableMeta \<Rightarrow> bool" where
  "keys_fit t \<longleftrightarrow> length (tm_smallest_key t) < 2 ^ 32 \<and> length (tm_largest_key t) < 2 ^ 32"

lemma take_tables_Some:
  "take_tables n i = Some (ts, r) \<longleftrightarrow>
     length ts = n \<and> i = concat (map meta_bytes ts) @ r \<and> (\<forall>t \<in> set ts. keys_fit t)"
proof (induction n arbitrary: i ts)
  case (Suc n)
  have "take_tables (Suc n) i = Some (ts, r) \<longleftrightarrow> (\<exists>t ts' rest. ts = t # ts' \<and> i = meta_bytes t @ rest \<and>
      keys_fit t \<and> take_tables n rest = Some (ts', r))" (is "?l \<longleftrightarrow> ?r")
  proof
    assume ?l
    then show ?r
      by (auto simp: getFixed64_Some takeString_Some meta_bytes_def keys_fit_def split: option.splits)
  next
    assume ?r
    then obtain t ts' rest where t: "ts = t # ts'" "i = meta_bytes t @ rest" "keys_fit t"
      "take_tables n rest = Some (ts', r)" by blast
    have "takeString (encodeFixed32 (of_nat (length x)) @ x @ y) = Some (x, y)" if "length x < 2 ^ 32" for x y
      using that by (simp add: takeString_Some)
    then show ?l using t by (simp add: meta_bytes_def keys_fit_def)
  qed
  then show ?case unfolding Suc by (auto simp: length_Suc_conv)
qed auto

lemma takeTables_SomeD: "takeTables i = Some (ts, r) \<Longrightarrow> i = level_bytes ts @ r"
  by (auto simp: takeTables_def level_bytes_def take_tables_Some getFixed32_Some
      split: option.splits if_splits)

lemma length_meta_bytes: "table_meta_ok t \<Longrightarrow> 40 \<le> length (meta_bytes t)"
  using wf_ikey_length [of "tm_smallest_key t"] wf_ikey_length [of "tm_largest_key t"]
  by (simp add: meta_bytes_def table_meta_ok_def)

lemma takeTables_level:
  assumes "length ts < 2 ^ 32" "\<forall>t \<in> set ts. table_meta_ok t"
  shows "takeTables (level_bytes ts @ r) = Some (ts, r)"
proof -
  have "length ts * 40 \<le> length (concat (map meta_bytes ts))"
    using assms(2)
  proof (induction ts)
    case (Cons t ts)
    then show ?case using length_meta_bytes [of t] by simp
  qed simp
  then have "length ts \<le> length (concat (map meta_bytes ts) @ r) div 40"
    by (simp add: less_eq_div_iff_mult_less_eq)
  moreover have "take_tables (length ts) (concat (map meta_bytes ts) @ r) = Some (ts, r)"
    using assms(2) by (simp add: take_tables_Some keys_fit_def table_meta_ok_def)
  ultimately show ?thesis
    using assms(1)
    by (simp add: takeTables_def level_bytes_def unat_of_nat kMinimumTableEncodingSize_def kInternalKeyTagSize_def)
qed

lemma append_table_bytes:
  "putFixed32 (putFixed32 (putFixed64 (putFixed64 e (tm_number t)) (tm_file_size t))
     (of_nat (length (tm_smallest_key t))) @ tm_smallest_key t) (of_nat (length (tm_largest_key t))) @
     tm_largest_key t = e @ meta_bytes t"
  unfolding meta_bytes_def putFixed32_def
  by (subst putFixed64_append, subst (2) putFixed64_append) simp

lemma append_tables_Inr: "append_tables ts e = Inr e' \<Longrightarrow> e' = e @ concat (map meta_bytes ts)"
proof (induction ts arbitrary: e)
  case (Cons t ts)
  then show ?case
    using Cons.IH [of "e @ meta_bytes t"] by (simp add: Let_def append_table_bytes split: if_splits)
qed simp

lemma append_tables_total:
  "length e + length (concat (map meta_bytes ts)) \<le> kMaximumManifestSize - kManifestChecksumSize \<Longrightarrow>
     append_tables ts e = Inr (e @ concat (map meta_bytes ts))"
proof (induction ts arbitrary: e)
  case (Cons t ts)
  have "length e + length (meta_bytes t) = 24 + (length e + length (tm_smallest_key t)) + length (tm_largest_key t)"
    by (simp add: meta_bytes_def)
  then show ?case
    using Cons.IH [of "e @ meta_bytes t"] Cons.prems by (simp add: Let_def append_table_bytes)
qed simp

lemma append_levels_Inr: "append_levels ls e = Inr e' \<Longrightarrow> e' = e @ concat (map level_bytes ls)"
proof (induction ls arbitrary: e)
  case (Cons l ls)
  then obtain e1 where "appendTables l e = Inr e1" "append_levels ls e1 = Inr e'"
    by (auto split: sum.splits)
  then show ?case
    using Cons.IH [of e1] append_tables_Inr [of l "putFixed32 e (of_nat (length l))" e1]
    by (simp add: appendTables_def level_bytes_def putFixed32_def)
qed simp

lemma append_levels_total:
  "length e + length (concat (map level_bytes ls)) \<le> kMaximumManifestSize - kManifestChecksumSize \<Longrightarrow>
     append_levels ls e = Inr (e @ concat (map level_bytes ls))"
proof (induction ls arbitrary: e)
  case (Cons l ls)
  have "append_tables l (putFixed32 e (of_nat (length l))) = Inr (e @ level_bytes l)"
    using append_tables_total [of "putFixed32 e (of_nat (length l))" l] Cons.prems
    by (simp add: level_bytes_def putFixed32_def)
  then show ?case using Cons by (simp add: appendTables_def)
qed simp

lemma manifest_header:
  "putFixed64 (putFixed64 (putFixed32 (take kManifestMagicSize kManifestMagic) kManifestVersion)
     (ms_flushed_sequence st)) (ms_oldest_wal_number st) @ concat (map level_bytes (take 3 (ms_levels st))) =
   manifest_contents 3 st"
  unfolding manifest_contents_def putFixed32_def kManifestVersion_def kManifestMagicSize_def
  by (subst putFixed64_append, subst (2) putFixed64_append) simp

lemma encode_Inr:
  assumes "encodeManifest st = Inr e" "length (ms_levels st) = kNumLevels"
  shows "manifest_ok st" "e = manifest_bytes 3 st"
proof -
  have v: "validateState st = None" using assms(1) by (auto simp: encodeManifest_def split: option.splits)
  then show "manifest_ok st" using validateState_iff [OF assms(2)] by simp
  obtain c where "append_levels (ms_levels st) (putFixed64 (putFixed64
      (putFixed32 (take kManifestMagicSize kManifestMagic) kManifestVersion)
     (ms_flushed_sequence st)) (ms_oldest_wal_number st)) = Inr c" "e = putFixed32 c (crc32c c)"
    using assms(1) v by (auto simp: encodeManifest_def Let_def split: sum.splits)
  then have "c = manifest_contents 3 st" "e = putFixed32 c (crc32c c)"
    using append_levels_Inr manifest_header [of st] assms(2) by (simp_all add: kNumLevels_def)
  then show "e = manifest_bytes 3 st" by (simp add: manifest_bytes_def putFixed32_def)
qed

lemma encode_total:
  assumes "manifest_ok st" "length (ms_levels st) = kNumLevels"
    and "length (manifest_bytes 3 st) \<le> kMaximumManifestSize"
  shows "encodeManifest st = Inr (manifest_bytes 3 st)"
proof -
  let ?h = "putFixed64 (putFixed64 (putFixed32 (take kManifestMagicSize kManifestMagic) kManifestVersion)
     (ms_flushed_sequence st)) (ms_oldest_wal_number st)"
  have c: "?h @ concat (map level_bytes (ms_levels st)) = manifest_contents 3 st"
    using manifest_header [of st] assms(2) by (simp add: kNumLevels_def)
  have l: "length ?h + length (concat (map level_bytes (ms_levels st))) = length (manifest_contents 3 st)"
    unfolding c [symmetric] by (simp only: length_append)
  have "append_levels (ms_levels st) ?h = Inr (manifest_contents 3 st)"
    using append_levels_total [of ?h "ms_levels st", unfolded l c] assms(3)
    by (simp add: manifest_bytes_def kManifestChecksumSize_def kMaximumManifestSize_def)
  then show ?thesis
    using validateState_iff [OF assms(2)] assms(1)
    by (simp add: encodeManifest_def Let_def manifest_bytes_def putFixed32_def)
qed

text \<open>Reading the levels of a version back.\<close>

lemma take_levels_Inr:
  assumes "take_levels (of_nat v) i = Inr (ls, r)" "v \<in> {1, 2, 3}"
  shows "length ls = 3 \<and> i = concat (map level_bytes (take v ls)) @ r \<and> (\<forall>l \<in> set (drop v ls). l = [])"
proof -
  have c: "(of_nat v :: u32) \<ge> 2 \<longleftrightarrow> 2 \<le> v" "(of_nat v :: u32) \<ge> 3 \<longleftrightarrow> 3 \<le> v"
    using assms(2) by (auto simp: word_le_nat_alt)
  obtain l0 i1 l1 i2 l2 where t: "takeTables i = Some (l0, i1)"
    "(if 2 \<le> v then takeTables i1 else Some ([], i1)) = Some (l1, i2)"
    "(if 3 \<le> v then takeTables i2 else Some ([], i2)) = Some (l2, r)" "ls = [l0, l1, l2]"
    using assms(1)
    by (auto simp: take_levels_def c kLevel1ManifestVersion_def kManifestVersion_def split: option.splits if_splits)
  then show ?thesis
    using assms(2) by (auto dest!: takeTables_SomeD)
qed

lemma take_levels_bytes:
  assumes "length ls = 3" "v \<in> {1, 2, 3}" "\<forall>l \<in> set (drop v ls). l = []"
    and "\<forall>l \<in> set ls. length l < 2 ^ 32 \<and> (\<forall>t \<in> set l. table_meta_ok t)"
  shows "take_levels (of_nat v) (concat (map level_bytes (take v ls)) @ r) = Inr (ls, r)"
proof -
  obtain l0 l1 l2 where l: "ls = [l0, l1, l2]"
    using assms(1) by (auto simp: length_Suc_conv eval_nat_numeral)
  have t: "takeTables (level_bytes x @ y) = Some (x, y)" if "x \<in> {l0, l1, l2}" for x y
    using that assms(4) l by (intro takeTables_level) auto
  have "take_levels (of_nat v) (concat (map level_bytes (take v ls)) @ r) = Inr ([l0, l1, l2], r)"
    using assms(2,3) l
    by (auto simp: take_levels_def kLevel1ManifestVersion_def kManifestVersion_def t word_le_nat_alt)
  then show ?thesis using l by simp
qed

lemma manifest_version:
  "kLevel0ManifestVersion \<le> w \<and> w \<le> kManifestVersion \<longleftrightarrow> (\<exists>v \<in> {1, 2, 3}. w = of_nat v)"
proof
  assume "kLevel0ManifestVersion \<le> w \<and> w \<le> kManifestVersion"
  then have "unat w \<in> {1, 2, 3}"
    by (auto simp: kLevel0ManifestVersion_def kManifestVersion_def word_le_nat_alt)
  then show "\<exists>v \<in> {1, 2, 3}. w = of_nat v" by (auto simp: word_unat_eq_iff)
qed (auto simp: kLevel0ManifestVersion_def kManifestVersion_def word_le_nat_alt)

lemma decode_Inr:
  assumes "decodeManifest e = Inr st"
  shows "length e \<le> kMaximumManifestSize" "length (ms_levels st) = kNumLevels" "manifest_ok st"
    "\<exists>v \<in> {1, 2, 3}. e = manifest_bytes v st \<and> (\<forall>l \<in> set (drop v (ms_levels st)). l = [])"
proof -
  define c where "c = take (length e - 4) e"
  have len: "32 \<le> length e" "length e \<le> kMaximumManifestSize"
    and crc: "crc32c c = decodeFixed32 (drop (length e - 4) e)"
    using assms by (auto simp: decodeManifest_def c_def kManifestChecksumSize_def kManifestMagicSize_def
        Let_def split: if_splits)
  obtain w c1 f c2 o_wal c3 ls where h: "take 8 c = kManifestMagic" "getFixed32 (drop 8 c) = Some (w, c1)"
    "kLevel0ManifestVersion \<le> w \<and> w \<le> kManifestVersion" "getFixed64 c1 = Some (f, c2)"
    "getFixed64 c2 = Some (o_wal, c3)" "take_levels w c3 = Inr (ls, [])"
    and st: "st = \<lparr>ms_flushed_sequence = f, ms_oldest_wal_number = o_wal, ms_levels = ls\<rparr>"
      "validateState st = None"
    using assms len crc
    by (auto simp: decodeManifest_def c_def [symmetric] kManifestChecksumSize_def kManifestMagicSize_def
        Let_def not_less split: if_splits option.splits sum.splits)
  obtain v where v: "v \<in> {1, 2, 3}" "w = of_nat v" using h(3) manifest_version by blast
  note l = take_levels_Inr [OF h(6) [unfolded v(2)] v(1)]
  show "length e \<le> kMaximumManifestSize" by (fact len(2))
  show three: "length (ms_levels st) = kNumLevels" using l st(1) by (simp add: kNumLevels_def)
  show "manifest_ok st" using validateState_iff [OF three] st(2) by simp
  have "c = manifest_contents v st"
    unfolding manifest_contents_def st(1) using h(1,2,4,5) l v(2)
    by (metis ManifestState.select_convs append.right_neutral append_take_drop_id getFixed32_Some getFixed64_Some)
  moreover have "encodeFixed32 (crc32c c) = drop (length e - 4) e"
    using encodeFixed32_decode [of "drop (length e - 4) e"] len(1) crc by simp
  then have "e = c @ encodeFixed32 (crc32c c)" by (simp add: c_def)
  ultimately have "e = manifest_bytes v st" by (simp add: manifest_bytes_def)
  then show "\<exists>v \<in> {1, 2, 3}. e = manifest_bytes v st \<and> (\<forall>l \<in> set (drop v (ms_levels st)). l = [])"
    using v(1) l st(1) by auto
qed

lemma decode_manifest_bytes:
  assumes "length (manifest_bytes v st) \<le> kMaximumManifestSize" "length (ms_levels st) = kNumLevels"
    and "manifest_ok st" "v \<in> {1, 2, 3}" "\<forall>l \<in> set (drop v (ms_levels st)). l = []"
  shows "decodeManifest (manifest_bytes v st) = Inr st"
proof -
  let ?c = "manifest_contents v st" and ?e = "manifest_bytes v st"
  let ?ls = "concat (map level_bytes (take v (ms_levels st)))"
  have w: "kLevel0ManifestVersion \<le> (of_nat v :: u32) \<and> (of_nat v :: u32) \<le> kManifestVersion"
    using assms(4) manifest_version by blast
  have "1 \<le> length (take v (ms_levels st))" using assms(2,4) by (auto simp: kNumLevels_def)
  then have "4 \<le> length ?ls"
    by (cases "take v (ms_levels st)") (simp_all add: level_bytes_def)
  then have len: "32 \<le> length ?c" "length ?e = length ?c + 4" by (simp_all add: manifest_contents_def manifest_bytes_def)
  have p: "take (length ?e - 4) ?e = ?c" "decodeFixed32 (drop (length ?e - 4) ?e) = crc32c ?c"
    using decodeFixed32_encode [of "crc32c ?c" "[]"] by (simp_all add: manifest_bytes_def)
  have tl: "take_levels (of_nat v) (?ls @ []) = Inr (ms_levels st, [])"
    using assms(2,3,4,5) by (intro take_levels_bytes) (auto simp: kNumLevels_def manifest_ok_def)
  have h: "take 8 ?c = kManifestMagic" "getFixed32 (drop 8 ?c) = Some (of_nat v,
      putFixed64 [] (ms_flushed_sequence st) @ putFixed64 [] (ms_oldest_wal_number st) @ ?ls)"
    by (simp_all add: manifest_contents_def)
  have "validateState st = None" using validateState_iff [OF assms(2)] assms(3) by simp
  then show ?thesis
    using assms(1) len p h w tl
    by (cases st) (simp add: decodeManifest_def kManifestChecksumSize_def kManifestMagicSize_def Let_def not_less)
qed

subsection \<open>Publishing\<close>

text \<open>
  The file at the manifest path after publishing: the new encoding when success is reported, and
  otherwise what it was; files other than the two paths are never touched.
\<close>

lemma manifest_ioError_bad [simp]: "\<not> status_ok (manifest_ioError a b c)"
  by (simp add: manifest_ioError_def)

lemma store_outcome:
  assumes "manifest_store tmp encoded env = (status, env')" "env_files env = F(tmp \<mapsto> [])"
  shows "\<exists>d. env_files env' = F(tmp \<mapsto> d)"
    and "status_ok status \<Longrightarrow> env_files env' = F(tmp \<mapsto> encoded)"
    and "quiet env \<Longrightarrow> status_ok status \<and> quiet env'"
proof -
  obtain e1 env1 where w: "env_write tmp encoded env = (e1, env1)" by fastforce
  obtain e2 env2 where y: "env_fdatasync env1 = (e2, env2)" by fastforce
  define env3 where "env3 = (if e1 = None then env2 else env1)"
  obtain e3 env4 where c: "sys_call env3 = (e3, env4)" by fastforce
  have files: "env_files env4 = env_files env1"
    using c y by (auto simp: sys_call_def env3_def env_fdatasync_def split: list.splits prod.splits)
  have w': "e1 = None \<and> env_files env1 = F(tmp \<mapsto> encoded) \<or> e1 \<noteq> None \<and> (\<exists>d. env_files env1 = F(tmp \<mapsto> d))"
    using env_write_cases [OF w] assms(2) by auto
  have st: "env' = env4" "status_ok status \<longleftrightarrow> e1 = None \<and> e2 = None \<and> e3 = None"
    using assms(1) w y c
    by (auto simp: manifest_store_def manifest_writeAll_def manifest_syncFile_def env3_def
        split: option.splits if_splits prod.splits)
  show "\<exists>d. env_files env' = F(tmp \<mapsto> d)" "status_ok status \<Longrightarrow> env_files env' = F(tmp \<mapsto> encoded)"
    using w' files st by auto
  assume q: "quiet env"
  have "e1 = None" "quiet env1"
    using quiet_env_write [OF q [folded quiet_at_self], of tmp "[]" encoded] w assms(2)
    by (auto simp: quiet_at_def)
  moreover have "e2 = None" "quiet env2"
    using quiet_env_fdatasync [OF \<open>quiet env1\<close> [folded quiet_at_self]] y by (auto simp: quiet_at_def)
  ultimately show "status_ok status \<and> quiet env'"
    using quiet_sys_call [OF \<open>quiet env2\<close> [folded quiet_at_self]] c st by (auto simp: quiet_at_def env3_def)
qed

lemma encode_Inl: "encodeManifest st = Inl s \<Longrightarrow> \<not> status_ok s"
proof -
  have "append_tables ts e = Inl s \<Longrightarrow> \<not> status_ok s" for ts e
    by (induction ts arbitrary: e) (auto simp: Let_def split: if_splits)
  then have "append_levels ls e = Inl s \<Longrightarrow> \<not> status_ok s" for ls e
    by (induction ls arbitrary: e) (auto simp: appendTables_def split: sum.splits)
  then show "encodeManifest st = Inl s \<Longrightarrow> \<not> status_ok s"
    by (auto simp: encodeManifest_def Let_def split: option.splits sum.splits)
qed

lemma publish_outcome:
  assumes w: "writeManifest path tmp st env = (status, env')" and enc: "encodeManifest st = Inr e"
    and ne: "path \<noteq> tmp"
  shows "(status_ok status \<longrightarrow> env_files env' = (env_files env)(tmp := None, path \<mapsto> e)) \<and>
    (\<not> status_ok status \<longrightarrow> (\<forall>q. q \<noteq> tmp \<longrightarrow> env_files env' q = env_files env q)) \<and>
    (quiet env \<longrightarrow> status_ok status \<and> quiet env')"
proof -
  let ?F = "env_files env"
  obtain c env1 where cr: "sys_create tmp env = (c, env1)" by fastforce
  have c1: "c = None \<and> env_files env1 = ?F(tmp \<mapsto> []) \<or> c \<noteq> None \<and> env_files env1 = ?F"
    using cr by (auto simp: sys_create_def sys_call_def put_file_def split: list.splits option.splits)
  have cq: "quiet env \<Longrightarrow> c = None \<and> quiet env1"
    using cr quiet_sys_create [OF quiet_at_self [THEN iffD2], of env tmp] by (auto simp: quiet_at_def)
  show ?thesis
  proof (cases c)
    case (Some x)
    then show ?thesis using w enc cr c1 cq by (auto simp: writeManifest_def)
  next
    case None
    obtain s env2 where st: "manifest_store tmp e env1 = (s, env2)" by fastforce
    have f1: "env_files env1 = ?F(tmp \<mapsto> [])" using c1 None by simp
    note o = store_outcome [OF st f1]
    obtain rn env3 where rn: "sys_rename tmp path env2 = (rn, env3)" by fastforce
    have res: "(status, env') = (if \<not> status_ok s then (s, snd (sys_unlink tmp env2))
        else case rn of Some n \<Rightarrow> (manifest_ioError ''rename'' tmp n, snd (sys_unlink tmp env3))
             | None \<Rightarrow> (success, env3))"
      using w enc cr None st rn by (auto simp: writeManifest_def split: option.splits)
    show ?thesis
    proof (cases "status_ok s")
      case True
      have f2: "env_files env2 = ?F(tmp \<mapsto> e)" using o(2) True by simp
      note rc = sys_rename_cases [OF rn]
      have rq: "quiet env \<Longrightarrow> rn = None \<and> quiet env3"
        using quiet_sys_rename [OF quiet_at_self [THEN iffD2], of env2 tmp e path] rn f2 o(3) cq
        by (auto simp: quiet_at_def)
      show ?thesis
      proof (cases rn)
        case None
        then show ?thesis using res True rc f2 rq ne by auto
      next
        case (Some n)
        then show ?thesis using res True rc f2 rq ne sys_unlink_other [of _ tmp env3] by auto
      qed
    next
      case False
      then show ?thesis using res o(1,3) cq sys_unlink_other [of _ tmp env2] by auto
    qed
  qed
qed

lemma writeManifest_outcome:
  assumes "writeManifest path tmp st env = (status, env')" "path \<noteq> tmp" "length (ms_levels st) = kNumLevels"
  shows "status_ok status \<Longrightarrow> manifest_ok st \<and>
      env_files env' = (env_files env)(tmp := None, path \<mapsto> manifest_bytes 3 st)"
    and "\<not> status_ok status \<Longrightarrow> (\<forall>q. q \<noteq> tmp \<longrightarrow> env_files env' q = env_files env q)"
    and "quiet env \<Longrightarrow> manifest_ok st \<Longrightarrow> length (manifest_bytes 3 st) \<le> kMaximumManifestSize \<Longrightarrow>
      status_ok status \<and> quiet env'"
proof -
  consider (bad) s where "encodeManifest st = Inl s" "\<not> status_ok s" "status = s" "env' = env"
    | (good) "encodeManifest st = Inr (manifest_bytes 3 st)" "manifest_ok st"
    using assms(1) encode_Inl encode_Inr [OF _ assms(3)]
    by (cases "encodeManifest st") (auto simp: writeManifest_def)
  then show "status_ok status \<Longrightarrow> manifest_ok st \<and>
      env_files env' = (env_files env)(tmp := None, path \<mapsto> manifest_bytes 3 st)"
    "\<not> status_ok status \<Longrightarrow> (\<forall>q. q \<noteq> tmp \<longrightarrow> env_files env' q = env_files env q)"
    "quiet env \<Longrightarrow> manifest_ok st \<Longrightarrow> length (manifest_bytes 3 st) \<le> kMaximumManifestSize \<Longrightarrow>
      status_ok status \<and> quiet env'"
    using publish_outcome [OF assms(1) _ assms(2)] encode_total [OF _ assms(3)]
    by (cases; fastforce)+
qed

lemma quiet_readManifest:
  assumes "quiet_at F env" "F path = Some (manifest_bytes v st)" "v \<in> {1, 2, 3}"
    and "length (manifest_bytes v st) \<le> kMaximumManifestSize" "length (ms_levels st) = kNumLevels"
    and "manifest_ok st" "\<forall>l \<in> set (drop v (ms_levels st)). l = []"
  shows "\<exists>env'. readManifest path env = (Inr st, env') \<and> quiet_at F env'"
proof -
  let ?e = "manifest_bytes v st"
  obtain env1 where e1: "sys_open path env = (Inr ?e, env1)" "quiet_at F env1"
    using quiet_sys_open [OF assms(1), of path] assms(2) by auto
  obtain env2 where e2: "sys_call env1 = (None, env2)" "quiet_at F env2"
    using quiet_sys_call [OF e1(2)] by auto
  obtain env3 where e3: "env_read (length ?e) ?e env2 = (Inr ?e, env3)" "quiet_at F env3"
    using quiet_env_read [OF e2(2), of "length ?e" ?e] by auto
  obtain env4 where e4: "sys_call env3 = (None, env4)" "quiet_at F env4"
    using quiet_sys_call [OF e3(2)] by auto
  show ?thesis
    using e1 e2 e3 e4 assms(4) decode_manifest_bytes [OF assms(4,5,6,3,7)]
    by (simp add: readManifest_def manifest_readFile_def)
qed

text \<open>A state that holds one table with keys of the given size.\<close>

definition one_table :: "nat \<Rightarrow> ManifestState" where
  "one_table n = (let k = encodeInternalKey (replicate n 0) 1 kValue in
     \<lparr>ms_flushed_sequence = 1, ms_oldest_wal_number = 1,
      ms_levels = [[\<lparr>tm_number = 1, tm_file_size = 1, tm_smallest_key = k, tm_largest_key = k\<rparr>], [], []]\<rparr>)"

lemma one_table_ok: "n + 8 < 2 ^ 32 \<Longrightarrow> manifest_ok (one_table n)"
  by (simp add: manifest_ok_def one_table_def Let_def table_meta_ok_def ranges_disjoint_def
      wf_ikey_encode kMaxSequenceNumber_def InternalKeyLess_alt)

lemma one_table_levels: "length (ms_levels (one_table n)) = kNumLevels"
  by (simp add: one_table_def Let_def kNumLevels_def)



subsection \<open>Properties\<close>

text \<open>
  C5. Publishing a manifest is atomic under every behaviour of the system calls: when success is
  reported the manifest file holds exactly the encoding of the new, consistent state and the
  temporary file is gone; when it is not, the manifest file and every other file except the
  temporary one are as they were.
\<close>

theorem manifest_publish_atomic:
  assumes "writeManifest path temporary_path state env = (status, env')"
    and "path \<noteq> temporary_path" and "length (ms_levels state) = kNumLevels"
  shows "(status_ok status \<longrightarrow> manifest_ok state \<and>
      env_files env' = (env_files env)(temporary_path := None, path \<mapsto> manifest_bytes 3 state)) \<and>
    (\<not> status_ok status \<longrightarrow> (\<forall>q. q \<noteq> temporary_path \<longrightarrow> env_files env' q = env_files env q))"
  using writeManifest_outcome [OF assms] by blast

theorem manifest_publish_atomic_witness:
  "\<exists>status env'. writeManifest ''MANIFEST'' ''MANIFEST.tmp'' (one_table 1)
      \<lparr>env_files = [''MANIFEST'' \<mapsto> [1]], env_io = [Fail EIO], env_sync = [], env_call = []\<rparr> = (status, env') \<and>
    (\<not> status_ok status \<longrightarrow> env_files env' ''MANIFEST'' = Some [1])"
proof -
  obtain status env' where w: "writeManifest ''MANIFEST'' ''MANIFEST.tmp'' (one_table 1)
      \<lparr>env_files = [''MANIFEST'' \<mapsto> [1]], env_io = [Fail EIO], env_sync = [], env_call = []\<rparr> = (status, env')"
    by fastforce
  show ?thesis using manifest_publish_atomic [OF w _ one_table_levels] w by auto
qed

text \<open>
  C14. The manifest round trip: decoding accepts exactly the encodings of consistent states of at
  most 64 MiB, in the current format version and in the two older ones, in which the deeper levels
  are missing and read as empty.
\<close>

theorem manifest_decode_characterised:
  "decodeManifest input = Inr state \<longleftrightarrow>
     length input \<le> kMaximumManifestSize \<and> length (ms_levels state) = kNumLevels \<and> manifest_ok state \<and>
     (\<exists>v \<in> {1, 2, 3}. input = manifest_bytes v state \<and> (\<forall>l \<in> set (drop v (ms_levels state)). l = []))"
    (is "_ \<longleftrightarrow> ?r")
proof
  assume "decodeManifest input = Inr state"
  note d = decode_Inr [OF this]
  show ?r using d(4) by (intro conjI d(1-3))
next
  assume r: ?r
  then obtain v where "v \<in> {1, 2, 3}" "input = manifest_bytes v state"
    "\<forall>l \<in> set (drop v (ms_levels state)). l = []" by (elim conjE bexE)
  then show "decodeManifest input = Inr state" using r decode_manifest_bytes [of v state] by simp
qed

theorem manifest_decode_characterised_witness:
  "decodeManifest (manifest_bytes 1 (one_table 5)) = Inr (one_table 5)"
proof -
  have "length (manifest_bytes 1 (one_table 5)) \<le> kMaximumManifestSize"
    by (simp add: manifest_bytes_def manifest_contents_def one_table_def Let_def level_bytes_def
        meta_bytes_def kMaximumManifestSize_def)
  then show ?thesis
    using manifest_decode_characterised [of "manifest_bytes 1 (one_table 5)" "one_table 5"]
      one_table_levels one_table_ok [of 5] by (simp add: one_table_def Let_def)
qed

text \<open>
  C16. The validation that guards both encoding and decoding decides consistency: table numbers
  are positive and unique over all levels, every table has a size and a valid key range, and the
  tables of the levels below the first are ordered with disjoint user key ranges.
\<close>

theorem manifest_validation_decides:
  "validateState \<lparr>ms_flushed_sequence = f, ms_oldest_wal_number = w, ms_levels = [l0, l1, l2]\<rparr> = None \<longleftrightarrow>
   manifest_ok \<lparr>ms_flushed_sequence = f, ms_oldest_wal_number = w, ms_levels = [l0, l1, l2]\<rparr>"
  by (rule validateState_iff) (simp add: kNumLevels_def)


end
