(* ===== verification/Options.thy ===== *)
theory Options
  imports InternalKey
begin

text \<open>
  The option structures of \<^verbatim>\<open>include/lsmtree/db.h\<close>, and the snapshot handle that
  \<^verbatim>\<open>ReadOptions\<close> carries (\<^verbatim>\<open>SnapshotImpl\<close> of \<^verbatim>\<open>src/db/db_impl.cc\<close>): a sequence number and the tracker it
  was registered with, which is represented by a number that identifies the tracker of one
  opened database.
\<close>

datatype OpenMode = kOpenExisting | kCreateNew | kOpenOrCreate

datatype Durability = kAsync | kSync

datatype CacheMode = kFill | kBypass

record DBOptions =
  do_open_mode :: OpenMode
  do_write_buffer_size :: nat

record SnapshotImpl =
  sn_sequence :: SequenceNumber
  sn_tracker :: nat

record ReadOptions =
  ro_snapshot :: "SnapshotImpl option"
  ro_verify_checksums :: bool
  ro_cache_mode :: CacheMode

record WriteOptions =
  wo_durability :: Durability

text \<open>The default values of the structures.\<close>

definition DBOptions_default :: DBOptions where
  "DBOptions_default = \<lparr>do_open_mode = kOpenOrCreate, do_write_buffer_size = 4 * 1024 * 1024\<rparr>"

definition ReadOptions_default :: ReadOptions where
  "ReadOptions_default = \<lparr>ro_snapshot = None, ro_verify_checksums = False, ro_cache_mode = kFill\<rparr>"

definition WriteOptions_default :: WriteOptions where
  "WriteOptions_default = \<lparr>wo_durability = kAsync\<rparr>"

end
