(* ===== verification/DbFiles.thy ===== *)
theory DbFiles
  imports Filename Manifest Options "HOL-Library.Char_ord"
begin

text \<open>
  \<^verbatim>\<open>src/db/db_files.h\<close> and \<^verbatim>\<open>db_files.cc\<close>: the directory of a database, its lock, its listing and the
  removal of obsolete files.  What the kernel knows about directories and locks comes in as
  answers.  The order in which a directory is listed is the argument \<open>ls\<close>; \<open>good_lister\<close> is what
  the code relies on, that a listing names every file of the directory and nothing else.
\<close>

record FileLock =
  fl_fd :: int

definition FileLock_default :: FileLock where
  "FileLock_default = \<lparr>fl_fd = -1\<rparr>"

definition FileLock_new :: "int \<Rightarrow> FileLock" where
  "FileLock_new fd = \<lparr>fl_fd = fd\<rparr>"

text \<open>The descriptors that are unlocked and closed are the first component.\<close>

definition FileLock_reset :: "FileLock \<Rightarrow> int list \<times> FileLock" where
  "FileLock_reset lock = (if fl_fd lock < 0 then ([], lock) else ([fl_fd lock], lock\<lparr>fl_fd := -1\<rparr>))"

definition FileLock_move :: "FileLock \<Rightarrow> FileLock \<times> FileLock" where
  "FileLock_move other = (\<lparr>fl_fd = fl_fd other\<rparr>, other\<lparr>fl_fd := -1\<rparr>)"

definition FileLock_assign :: "FileLock \<Rightarrow> FileLock \<Rightarrow> int list \<times> FileLock \<times> FileLock" where
  "FileLock_assign lock other =
     (let (released, lock) = FileLock_reset lock
      in (released, lock\<lparr>fl_fd := fl_fd other\<rparr>, other\<lparr>fl_fd := -1\<rparr>))"

record DirectoryContents =
  dc_wal_numbers :: "u64 list"
  dc_has_sstable :: bool
  dc_maximum_number :: u64

definition posixError :: "string \<Rightarrow> string \<Rightarrow> errno \<Rightarrow> Status" where
  "posixError operation path error_number =
     ioError (operation @ '' '' @ path @ '': '' @ error_message error_number)"

definition filesystemError :: "string \<Rightarrow> string \<Rightarrow> errno \<Rightarrow> Status" where
  "filesystemError operation path error =
     ioError (operation @ '' '' @ path @ '': '' @ error_message error)"

text \<open>The answers are those of \<^verbatim>\<open>exists\<close>, \<^verbatim>\<open>is_directory\<close> and \<^verbatim>\<open>create_directories\<close>.\<close>

definition prepareDatabaseDirectory ::
  "errno + bool \<Rightarrow> errno + bool \<Rightarrow> errno option \<Rightarrow> OpenMode \<Rightarrow> string \<Rightarrow> Status" where
  "prepareDatabaseDirectory exists_answer is_directory_answer create_answer mode directory =
     (if directory = [] then invalidArgument ''database directory must not be empty''
      else case exists_answer of
        Inl error \<Rightarrow> filesystemError ''stat'' directory error
      | Inr exists \<Rightarrow>
         (case (if exists then is_directory_answer else Inr True) of
            Inl error \<Rightarrow> filesystemError ''stat'' directory error
          | Inr False \<Rightarrow> invalidArgument (''database path is not a directory: '' @ directory)
          | Inr True \<Rightarrow>
              if mode = kOpenExisting \<and> \<not> exists
              then notFound (''database directory does not exist: '' @ directory)
              else if mode = kCreateNew \<and> exists
              then alreadyExists (''database directory already exists: '' @ directory)
              else if \<not> exists
              then (case create_answer of
                      Some error \<Rightarrow> filesystemError ''create directory'' directory error
                    | None \<Rightarrow> success)
              else success))"

text \<open>\<open>fd\<close> is the descriptor that \<^verbatim>\<open>open\<close> gives and \<open>flock_answer\<close> the answer of \<^verbatim>\<open>flock\<close>.\<close>

definition acquireDatabaseLock ::
  "int \<Rightarrow> errno option \<Rightarrow> string \<Rightarrow> FileLock \<Rightarrow> Env \<Rightarrow> Status \<times> FileLock \<times> Env" where
  "acquireDatabaseLock fd flock_answer directory lock env =
     (let path = lockFileName directory in
      case sys_open_create path env of
        (Some error_number, env) \<Rightarrow> (posixError ''open'' path error_number, lock, env)
      | (None, env) \<Rightarrow>
         (case flock_answer of
            Some saved_errno \<Rightarrow>
              (if saved_errno = EWOULDBLOCK \<or> saved_errno = EAGAIN
               then busy (''database is already open: '' @ directory)
               else posixError ''lock'' path saved_errno, lock, env)
          | None \<Rightarrow>
              (let (released, lock, temporary) = FileLock_assign lock (FileLock_new fd)
               in (success, lock, env))))"

type_synonym lister = "string \<Rightarrow> fs \<Rightarrow> string list"

definition sys_list_directory :: "lister \<Rightarrow> string \<Rightarrow> Env \<Rightarrow> (errno + string list) \<times> Env" where
  "sys_list_directory ls directory env = (case sys_call env of
       (Some e, env) \<Rightarrow> (Inl e, env)
     | (None, env) \<Rightarrow> (Inr (ls directory (env_files env)), env))"

fun scan_entries :: "string list \<Rightarrow> DirectoryContents \<Rightarrow> DirectoryContents" where
  "scan_entries [] scanned = scanned"
| "scan_entries (entry # entries) scanned =
     (case parseNumberedFileName entry of
        None \<Rightarrow> scan_entries entries scanned
      | Some (number, type) \<Rightarrow>
          let scanned = scanned\<lparr>dc_maximum_number := max (dc_maximum_number scanned) number\<rparr>;
              scanned = (if type = kWal
                         then scanned\<lparr>dc_wal_numbers := dc_wal_numbers scanned @ [number]\<rparr>
                         else if type = kSSTable then scanned\<lparr>dc_has_sstable := True\<rparr>
                         else scanned)
          in scan_entries entries scanned)"

definition scanDatabaseDirectory :: "lister \<Rightarrow> string \<Rightarrow> Env \<Rightarrow> DirectoryContents result \<times> Env" where
  "scanDatabaseDirectory ls directory env =
     (case sys_list_directory ls directory env of
        (Inl error, env) \<Rightarrow> (Inl (filesystemError ''list directory'' directory error), env)
      | (Inr entries, env) \<Rightarrow>
          let scanned = scan_entries entries
                \<lparr>dc_wal_numbers = [], dc_has_sstable = False, dc_maximum_number = 0\<rparr>
          in (Inr (scanned\<lparr>dc_wal_numbers := sort (dc_wal_numbers scanned)\<rparr>), env))"

definition removeFileBestEffort :: "string \<Rightarrow> Env \<Rightarrow> Env" where
  "removeFileBestEffort path env = snd (sys_unlink path env)"

fun remove_wals :: "u64 \<Rightarrow> string list \<Rightarrow> Env \<Rightarrow> Env" where
  "remove_wals live_wal_number [] env = env"
| "remove_wals live_wal_number (entry # entries) env =
     (case parseNumberedFileName entry of
        None \<Rightarrow> remove_wals live_wal_number entries env
      | Some (number, type) \<Rightarrow>
          if type \<noteq> kWal \<or> number \<ge> live_wal_number then remove_wals live_wal_number entries env
          else remove_wals live_wal_number entries (snd (sys_unlink entry env)))"

definition removeObsoleteWalFilesBestEffort :: "lister \<Rightarrow> string \<Rightarrow> u64 \<Rightarrow> Env \<Rightarrow> Env" where
  "removeObsoleteWalFilesBestEffort ls directory live_wal_number env =
     (case sys_list_directory ls directory env of
        (Inl error, env) \<Rightarrow> env
      | (Inr entries, env) \<Rightarrow> remove_wals live_wal_number entries env)"

fun remove_sstables :: "u64 list \<Rightarrow> string list \<Rightarrow> Env \<Rightarrow> Env" where
  "remove_sstables live [] env = env"
| "remove_sstables live (entry # entries) env =
     (case parseNumberedFileName entry of
        None \<Rightarrow> remove_sstables live entries env
      | Some (number, type) \<Rightarrow>
          if type = kSSTable \<and> number \<in> set live then remove_sstables live entries env
          else if type = kSSTable \<or> type = kSSTableTemporary
          then remove_sstables live entries (removeFileBestEffort entry env)
          else remove_sstables live entries env)"

definition removeObsoleteSSTableFilesBestEffort :: "lister \<Rightarrow> string \<Rightarrow> ManifestState \<Rightarrow> Env \<Rightarrow> Env" where
  "removeObsoleteSSTableFilesBestEffort ls directory manifest env =
     (let live = map tm_number (concat (ms_levels manifest)) in
      case sys_list_directory ls directory env of
        (Inl error, env) \<Rightarrow> env
      | (Inr entries, env) \<Rightarrow> remove_sstables live entries env)"

subsection \<open>Listings\<close>

definition in_directory :: "string \<Rightarrow> string \<Rightarrow> bool" where
  "in_directory directory path \<longleftrightarrow> path = path_join directory (path_filename path)"

definition good_lister :: "lister \<Rightarrow> bool" where
  "good_lister ls \<longleftrightarrow> (\<forall>directory F. finite (dom F) \<longrightarrow>
     distinct (ls directory F) \<and> set (ls directory F) = {p \<in> dom F. in_directory directory p})"

definition sorted_lister :: lister where
  "sorted_lister directory F = sorted_list_of_set {p \<in> dom F. in_directory directory p}"

lemma good_sorted_lister: "good_lister sorted_lister"
  by (simp add: good_lister_def sorted_lister_def)

lemma names_in_directory [simp]:
  "in_directory d (walFileName d n)" "in_directory d (sstableFileName d n)"
  "in_directory d (sstableTemporaryFileName d n)" "in_directory d (manifestFileName d)"
proof -
  have "in_directory d (path_join d name)" if "CHR ''/'' \<notin> set name" for name
    using path_filename_join [OF that] by (simp add: in_directory_def)
  moreover have "CHR ''/'' \<notin> set (numberedName n s)" if "CHR ''/'' \<notin> set s" for s
    using that padded_props(1) [of n] by (auto simp: padded_props(4) is_digit_def)
  ultimately show "in_directory d (walFileName d n)" "in_directory d (sstableFileName d n)"
    "in_directory d (sstableTemporaryFileName d n)" "in_directory d (manifestFileName d)"
    by (simp_all add: names_def)
qed

text \<open>The numbers of a listing with a type.\<close>

fun numbers :: "NumberedFileType \<Rightarrow> string list \<Rightarrow> u64 list" where
  "numbers t [] = []"
| "numbers t (p # ps) = (case parseNumberedFileName p of
     Some (n, u) \<Rightarrow> if u = t then n # numbers t ps else numbers t ps | None \<Rightarrow> numbers t ps)"

lemma set_numbers: "set (numbers t ps) = {n. \<exists>p \<in> set ps. parseNumberedFileName p = Some (n, t)}"
  by (induction ps) (auto split: option.splits)

lemma scan_entries_numbers:
  "dc_wal_numbers (scan_entries ps c) = dc_wal_numbers c @ numbers kWal ps"
  "dc_has_sstable (scan_entries ps c) \<longleftrightarrow> dc_has_sstable c \<or> numbers kSSTable ps \<noteq> []"
  by (induction ps c rule: scan_entries.induct) (auto simp: Let_def split: option.splits)

lemma scan_entries_maximum:
  "dc_maximum_number c \<le> dc_maximum_number (scan_entries ps c) \<and>
   (\<forall>p \<in> set ps. \<forall>n t. parseNumberedFileName p = Some (n, t) \<longrightarrow> n \<le> dc_maximum_number (scan_entries ps c))"
proof (induction ps c rule: scan_entries.induct)
  case (2 p ps c)
  show ?case
  proof (cases "parseNumberedFileName p")
    case None
    then show ?thesis using 2 by simp
  next
    case (Some x)
    obtain n t where x: "x = (n, t)" by fastforce
    let ?c = "c\<lparr>dc_maximum_number := max (dc_maximum_number c) n\<rparr>"
    let ?c' = "if t = kWal then ?c\<lparr>dc_wal_numbers := dc_wal_numbers ?c @ [n]\<rparr>
      else if t = kSSTable then ?c\<lparr>dc_has_sstable := True\<rparr> else ?c"
    have "dc_maximum_number ?c' = max (dc_maximum_number c) n" by simp
    then show ?thesis
      using 2(2) [OF Some x [symmetric] refl refl] Some x by (auto simp: Let_def)
  qed
qed simp

lemma quiet_scan:
  assumes "quiet_at F env" "good_lister ls" "finite (dom F)"
  shows "\<exists>c env'. scanDatabaseDirectory ls d env = (Inr c, env') \<and> quiet_at F env' \<and>
    sorted (dc_wal_numbers c) \<and> set (dc_wal_numbers c) =
      {n. \<exists>p \<in> dom F. in_directory d p \<and> parseNumberedFileName p = Some (n, kWal)} \<and>
    (dc_has_sstable c \<longleftrightarrow> (\<exists>p \<in> dom F. \<exists>n. in_directory d p \<and> parseNumberedFileName p = Some (n, kSSTable))) \<and>
    (\<forall>p \<in> dom F. \<forall>n t. in_directory d p \<and> parseNumberedFileName p = Some (n, t) \<longrightarrow> n \<le> dc_maximum_number c)"
proof -
  obtain env' where c: "sys_call env = (None, env')" "quiet_at F env'" using quiet_sys_call [OF assms(1)] by blast
  have ls: "set (ls d F) = {p \<in> dom F. in_directory d p}" using assms(2,3) by (simp add: good_lister_def)
  let ?c = "scan_entries (ls d F) \<lparr>dc_wal_numbers = [], dc_has_sstable = False, dc_maximum_number = 0\<rparr>"
  have n: "numbers kSSTable (ls d F) \<noteq> [] \<longleftrightarrow>
      (\<exists>p \<in> dom F. \<exists>n. in_directory d p \<and> parseNumberedFileName p = Some (n, kSSTable))"
    unfolding set_empty [symmetric] set_numbers ls by blast
  have "scanDatabaseDirectory ls d env = (Inr (?c\<lparr>dc_wal_numbers := sort (dc_wal_numbers ?c)\<rparr>), env')"
    using c by (simp add: scanDatabaseDirectory_def sys_list_directory_def quiet_at_def Let_def)
  then show ?thesis
    using c(2) scan_entries_maximum [of _ "ls d F"] n
    by (auto simp: scan_entries_numbers set_numbers ls)
qed

subsection \<open>Removals\<close>

fun remove_if :: "(string \<Rightarrow> bool) \<Rightarrow> string list \<Rightarrow> Env \<Rightarrow> Env" where
  "remove_if P [] env = env"
| "remove_if P (p # ps) env = remove_if P ps (if P p then removeFileBestEffort p env else env)"

lemma remove_file:
  shows "env_files (removeFileBestEffort p env) = env_files env \<or>
      env_files (removeFileBestEffort p env) = (env_files env)(p := None)"
    and "quiet_at F env \<Longrightarrow> quiet_at (F(p := None)) (removeFileBestEffort p env)"
proof -
  obtain r env' where c: "sys_call env = (r, env')" by fastforce
  show "env_files (removeFileBestEffort p env) = env_files env \<or>
      env_files (removeFileBestEffort p env) = (env_files env)(p := None)"
    using sys_call_files [OF c] c by (auto simp: removeFileBestEffort_def sys_unlink_def split: option.splits)
  assume "quiet_at F env"
  then obtain env' where "sys_call env = (None, env')" "quiet_at F env'" using quiet_sys_call by blast
  then show "quiet_at (F(p := None)) (removeFileBestEffort p env)"
    by (auto simp: removeFileBestEffort_def sys_unlink_def quiet_at_def quiet_def fun_upd_idem)
qed

lemma remove_if_files:
  shows "q \<notin> set ps \<or> \<not> P q \<Longrightarrow> env_files (remove_if P ps env) q = env_files env q"
    and "env_files (remove_if P ps env) q = env_files env q \<or> env_files (remove_if P ps env) q = None"
proof (induction ps arbitrary: env)
  case (Cons p ps)
  case 1
  then show ?case using Cons(1) [of "if P p then removeFileBestEffort p env else env"] remove_file(1) [of p env]
    by auto
next
  case (Cons p ps)
  case 2
  then show ?case using Cons(2) [of "if P p then removeFileBestEffort p env else env"] remove_file(1) [of p env]
    by (auto split: if_splits)
qed simp_all

lemma quiet_remove_if:
  "quiet_at F env \<Longrightarrow> quiet_at (\<lambda>q. if q \<in> set ps \<and> P q then None else F q) (remove_if P ps env)"
proof (induction ps arbitrary: env F)
  case (Cons p ps)
  have "quiet_at (if P p then F(p := None) else F) (if P p then removeFileBestEffort p env else env)"
    using Cons.prems remove_file(2) by simp
  from Cons.IH [OF this] have "quiet_at (\<lambda>q. if q \<in> set ps \<and> P q then None
      else (if P p then F(p := None) else F) q) (remove_if P (p # ps) env)" by simp
  moreover have "(\<lambda>q. if q \<in> set ps \<and> P q then None else (if P p then F(p := None) else F) q) =
      (\<lambda>q. if q \<in> set (p # ps) \<and> P q then None else F q)" by (auto simp: fun_eq_iff)
  ultimately show ?case by simp
qed simp

definition obsolete_wal :: "u64 \<Rightarrow> string \<Rightarrow> bool" where
  "obsolete_wal live_wal_number p \<longleftrightarrow>
     (case parseNumberedFileName p of Some (number, kWal) \<Rightarrow> number < live_wal_number | _ \<Rightarrow> False)"

definition obsolete_sstable :: "ManifestState \<Rightarrow> string \<Rightarrow> bool" where
  "obsolete_sstable manifest p \<longleftrightarrow>
     (case parseNumberedFileName p of
        Some (number, kSSTable) \<Rightarrow> number \<notin> tm_number ` set (concat (ms_levels manifest))
      | Some (number, kSSTableTemporary) \<Rightarrow> True
      | _ \<Rightarrow> False)"

lemma remove_wals_if: "remove_wals live ps env = remove_if (obsolete_wal live) ps env"
  by (induction live ps env rule: remove_wals.induct)
    (auto simp: obsolete_wal_def removeFileBestEffort_def split: option.splits NumberedFileType.splits)

lemma remove_sstables_if:
  "remove_sstables (map tm_number (concat (ms_levels m))) ps env = remove_if (obsolete_sstable m) ps env"
  by (induction "map tm_number (concat (ms_levels m))" ps env rule: remove_sstables.induct)
    (auto simp: obsolete_sstable_def split: option.splits NumberedFileType.splits)

lemma remove_obsolete_files:
  assumes "env' = removeObsoleteWalFilesBestEffort ls d live env \<and> P = obsolete_wal live \<or>
    env' = removeObsoleteSSTableFilesBestEffort ls d m env \<and> P = obsolete_sstable m"
  shows "\<not> P q \<Longrightarrow> env_files env' q = env_files env q"
    and "env_files env' q = env_files env q \<or> env_files env' q = None"
    and "quiet_at F env \<Longrightarrow> good_lister ls \<Longrightarrow> finite (dom F) \<Longrightarrow>
      quiet_at (\<lambda>q. if in_directory d q \<and> P q then None else F q) env'"
proof -
  obtain r env1 where c: "sys_call env = (r, env1)" by fastforce
  have r: "r = None \<and> env' = remove_if P (ls d (env_files env)) env1 \<or> r \<noteq> None \<and> env' = env1"
    using assms c sys_call_files [OF c]
    by (cases r) (auto simp: removeObsoleteWalFilesBestEffort_def removeObsoleteSSTableFilesBestEffort_def
        sys_list_directory_def remove_wals_if remove_sstables_if Let_def simp flip: map_concat)
  then show "\<not> P q \<Longrightarrow> env_files env' q = env_files env q"
    "env_files env' q = env_files env q \<or> env_files env' q = None"
    using remove_if_files [where q = q and ps = "ls d (env_files env)" and P = P and env = env1] sys_call_files [OF c] by auto
  assume h: "quiet_at F env" "good_lister ls" "finite (dom F)"
  then have "r = None" "quiet_at F env1" using quiet_sys_call [OF h(1)] c by auto
  then have "quiet_at (\<lambda>q. if q \<in> set (ls d F) \<and> P q then None else F q) env'"
    using r h(1) quiet_remove_if by (auto simp: quiet_at_def)
  moreover have "(\<lambda>q. if q \<in> set (ls d F) \<and> P q then None else F q) =
      (\<lambda>q. if in_directory d q \<and> P q then None else F q)"
    using h(2,3) by (auto simp: good_lister_def fun_eq_iff)
  ultimately show "quiet_at (\<lambda>q. if in_directory d q \<and> P q then None else F q) env'" by simp
qed

end
