(* ===== verification/FlushMemTable.thy ===== *)
theory FlushMemTable
  imports MemTable SSTableBuilder DbFiles
begin

text \<open>
  \<^verbatim>\<open>src/db/flush_memtable.cc\<close>: a memtable is written as a table under a temporary name, which is
  then renamed.  The loop over the memtable is partial (\<open>None\<close> for a run that does not return); a
  builder that goes out of scope is abandoned, as its destructor does.
\<close>

definition renameError :: "string \<Rightarrow> string \<Rightarrow> errno \<Rightarrow> Status" where
  "renameError source target error =
     ioError (''rename '' @ source @ '' to '' @ target @ '': '' @ error_message error)"

partial_function (option) flush_loop ::
  "MemIter \<Rightarrow> SSTableBuilder \<Rightarrow> Env \<Rightarrow> (Status \<times> SSTableBuilder \<times> Env) option" where
  "flush_loop iterator builder env =
     (if \<not> MemIter_valid iterator then Some (success, builder, env)
      else case SSTableBuilder_add (MemIter_internalKey iterator) (MemIter_value iterator) builder env of
        (status, builder, env) \<Rightarrow>
          if \<not> status_ok status then Some (status, builder, env)
          else flush_loop (MemIter_next iterator) builder env)"

definition buildLevel0Table ::
  "MemTable \<Rightarrow> string \<Rightarrow> string \<Rightarrow> SSTableBuilderOptions \<Rightarrow> Env \<Rightarrow> (SSTableMeta result \<times> Env) option" where
  "buildLevel0Table memtable temporary_path final_path options env =
     (case SSTableBuilder_open temporary_path options env of
        (Inl status, env) \<Rightarrow> Some (Inl status, env)
      | (Inr builder, env) \<Rightarrow>
         (case flush_loop (MemIter_seekToFirst (MemTable_newIterator memtable)) builder env of
            None \<Rightarrow> None
          | Some (status, builder, env) \<Rightarrow>
              if \<not> status_ok status
              then Some (Inl status, snd (SSTableBuilder_abandon builder env))
              else case SSTableBuilder_finish builder env of
                (Inl status, builder, env) \<Rightarrow>
                  Some (Inl status, snd (SSTableBuilder_abandon builder env))
              | (Inr completed, builder, env) \<Rightarrow>
                 (case sys_rename temporary_path final_path env of
                    (Some error, env) \<Rightarrow>
                      let env = snd (sys_unlink temporary_path env)
                      in Some (Inl (renameError temporary_path final_path error),
                               snd (SSTableBuilder_abandon builder env))
                  | (None, env) \<Rightarrow>
                      Some (Inr completed, snd (SSTableBuilder_abandon builder env)))))"

subsection \<open>The loop adds every entry\<close>

lemma flush_loop_add_all:
  assumes "mem_at it es i"
  shows "flush_loop it b env = Some (add_all (drop i es) b env)"
  using assms
proof (induction "length es - i" arbitrary: i it b env rule: less_induct)
  case less
  note ops = MemIter_ops_def
  have v: "MemIter_valid it \<longleftrightarrow> i < length es"
    using mem_iter.valid_at [OF less.prems] by (simp add: ops)
  show ?case
  proof (cases "i < length es")
    case False
    then show ?thesis using v by (subst flush_loop.simps) simp
  next
    case True
    have kv: "es ! i = (MemIter_internalKey it, MemIter_value it)"
      using mem_iter.key_at [OF less.prems True] mem_iter.value_at [OF less.prems True]
      by (simp add: ops prod_eq_iff)
    have nx: "mem_at (MemIter_next it) es (Suc i)" using mem_iter.next_at [OF less.prems True] by (simp add: ops)
    have "drop i es = (MemIter_internalKey it, MemIter_value it) # drop (Suc i) es"
      using Cons_nth_drop_Suc [OF True] kv by simp
    then show ?thesis
      using True v less.hyps [OF diff_less_mono2 [OF lessI True] nx]
      by (subst flush_loop.simps) (auto split: prod.splits)
  qed
qed

text \<open>
  A flush succeeds with exactly the table of the memtable's entries under the final name, or
  fails and leaves every file but the temporary one as it was.
\<close>

lemma level0_outcome:
  assumes rep: "memtable_rep mt es" and ne: "es \<noteq> []" "length es < 2 ^ 64" and d: "temporary \<noteq> final"
  shows "\<exists>res env'. buildLevel0Table mt temporary final options env = Some (res, env') \<and>
    (\<forall>meta. res = Inr meta \<longrightarrow> (\<exists>ess. concat ess = es \<and> [] \<notin> set ess \<and>
       meta = table_meta (sbo_restart_interval options) ess \<and> env_files env temporary = None \<and>
       env_files env' = (env_files env)(final \<mapsto> table_bytes (sbo_restart_interval options) ess))) \<and>
    (\<forall>status. res = Inl status \<longrightarrow> \<not> status_ok status \<and>
       (\<forall>p. p \<noteq> temporary \<longrightarrow> env_files env' p = env_files env p))"
proof -
  let ?F = "env_files env"
  have wf: "\<forall>e \<in> set es. wf_ikey (fst e)"
    using mem_iter.at_sorted [OF mem_at_new [OF rep]] by (simp add: sorted_entries_def)
  have first: "mem_at (MemIter_seekToFirst (MemTable_newIterator mt)) es 0"
    using mem_iter.first_at [OF mem_at_new [OF rep]] by (simp add: MemIter_ops_def)
  obtain ob env0 where op: "SSTableBuilder_open temporary options env = (ob, env0)" by fastforce
  show ?thesis
  proof (cases ob)
    case (Inl s)
    then have "\<not> status_ok s" "env_files env0 = ?F"
      using op call_files [of env] by (auto simp: SSTableBuilder_open_def sys_create_exclusive_def put_file_def
          split: if_splits prod.splits option.splits)
    then show ?thesis using op Inl by (simp add: buildLevel0Table_def)
  next
    case (Inr b0)
    obtain s b1 env1 where ad: "add_all es b0 env0 = (s, b1, env1)" by (metis prod_cases3)
    have loop: "flush_loop (MemIter_seekToFirst (MemTable_newIterator mt)) b0 env0 = Some (s, b1, env1)"
      using flush_loop_add_all [OF first, of b0 env0] ad by simp
    note op' = op [unfolded Inr]
    show ?thesis using op' ad ne wf
    proof (cases rule: build_cases)
      case adding
      then show ?thesis using op' loop abandon_failed_other [OF adding(2)] by (simp add: buildLevel0Table_def)
    next
      case finishing
      then show ?thesis using op' loop abandon_failed_other [OF finishing(3)]
        by (simp add: buildLevel0Table_def tb_failed_def)
    next
      case (finished ess meta b2 env2)
      obtain r env3 where rn: "sys_rename temporary final env2 = (r, env3)" by fastforce
      note o = open_outcome(2) [OF op'] and rf = rename_finished [OF rn finished(7) open_outcome(2) [OF op'] d]
      have "buildLevel0Table mt temporary final options env =
          (case r of Some x \<Rightarrow> Some (Inl (renameError temporary final x), snd (sys_unlink temporary env3))
           | None \<Rightarrow> Some (Inr meta, env3))"
        using op' loop finished(1,2,6) rn by (simp add: buildLevel0Table_def abandon_finished split: option.splits)
      then show ?thesis using rf finished(3-5) o by (cases r) (auto simp: renameError_def)
    qed
  qed
qed

lemma level0_quiet:
  assumes rep: "memtable_rep mt es" and ne: "es \<noteq> []" "length es < 2 ^ 64" and d: "temporary \<noteq> final"
    and q: "quiet env" "env_files env temporary = None" "temporary \<noteq> []"
    and opt: "0 < sbo_block_size options" "0 < sbo_restart_interval options"
  shows "\<exists>meta env'. buildLevel0Table mt temporary final options env = Some (Inr meta, env') \<and> quiet env'"
proof -
  have wf: "\<forall>e \<in> set es. wf_ikey (fst e)"
    using mem_iter.at_sorted [OF mem_at_new [OF rep]] by (simp add: sorted_entries_def)
  have first: "mem_at (MemIter_seekToFirst (MemTable_newIterator mt)) es 0"
    using mem_iter.first_at [OF mem_at_new [OF rep]] by (simp add: MemIter_ops_def)
  obtain b0 env0 b1 env1 meta b2 env2 status where r: "SSTableBuilder_open temporary options env = (Inr b0, env0)"
    "add_all es b0 env0 = (status, b1, env1)" "status_ok status"
    "SSTableBuilder_finish b1 env1 = (Inr meta, b2, env2)" "quiet env2"
    using build_runs [OF q opt ne(1) wf ne(2)] by blast
  note o = open_outcome [OF r(1)]
  obtain ess cur where t: "concat ess @ cur = es" "tb_rep (sbo_restart_interval options) ess cur temporary (env_files env) b1 env1"
    using add_all_outcome [OF o(1) wf _ r(2)] ne(2) r(3) by auto
  have f: "sb_state b2 = kFinished" "\<exists>c. env_files env2 temporary = Some c"
    using finish_outcome [OF t(2) _ r(4), unfolded t(1), OF ne(1)] by auto
  then obtain c env3 where "sys_rename temporary final env2 = (None, env3)" "quiet env3"
    using quiet_sys_rename [of "env_files env2" env2 temporary _ final] r(5) by (auto simp: quiet_at_def)
  then show ?thesis
    using r f flush_loop_add_all [OF first, of b0 env0] by (simp add: buildLevel0Table_def abandon_finished)
qed

end
