(* ===== verification/MergingIterator.thy ===== *)
theory MergingIterator
  imports InternalIterator "HOL-Library.Multiset"
begin

text \<open>
  \<^verbatim>\<open>src/db/merging_iterator.h\<close> and \<^verbatim>\<open>merging_iterator.cc\<close>: the merge of ordered inputs.  The
  children share a record of operations; \<^verbatim>\<open>std::priority_queue\<close> is a collection of child
  indices whose top is the element that no other one beats under the comparator \<open>Greater\<close>.
  The locale \<open>merging_input\<close> takes inputs that keep the contract of an ordered input and
  shows that their merge keeps it again, over the sorted list of all their entries.
\<close>

record 's MergingIterator =
  mi_children :: "'s list"
  mi_heap :: "nat list"
  mi_status :: Status

definition MergingIterator_new :: "'s list \<Rightarrow> 's MergingIterator" where
  "MergingIterator_new children = \<lparr>mi_children = children, mi_heap = [], mi_status = success\<rparr>"

definition Greater :: "'s InternalIterator \<Rightarrow> 's list \<Rightarrow> nat \<Rightarrow> nat \<Rightarrow> bool" where
  "Greater ops children lhs rhs =
     (let left = it_internalKey ops (children ! lhs);
          right = it_internalKey ops (children ! rhs)
      in if InternalKeyLess right left then True
         else if InternalKeyLess left right then False
         else lhs > rhs)"

text \<open>The top of a priority queue under \<open>Greater\<close>.\<close>

fun heap_top :: "'s InternalIterator \<Rightarrow> 's list \<Rightarrow> nat list \<Rightarrow> nat" where
  "heap_top ops children [] = 0"
| "heap_top ops children [index] = index"
| "heap_top ops children (index # rest) =
     (let top = heap_top ops children rest
      in if Greater ops children index top then top else index)"

definition heap_pop :: "'s InternalIterator \<Rightarrow> 's list \<Rightarrow> nat list \<Rightarrow> nat list" where
  "heap_pop ops children heap = remove1 (heap_top ops children heap) heap"

definition MergingIterator_clearHeap :: "'s MergingIterator \<Rightarrow> 's MergingIterator" where
  "MergingIterator_clearHeap it = it\<lparr>mi_heap := []\<rparr>"

definition MergingIterator_valid :: "'s InternalIterator \<Rightarrow> 's MergingIterator \<Rightarrow> bool" where
  "MergingIterator_valid ops it =
     (status_ok (mi_status it) \<and> mi_heap it \<noteq> [] \<and>
      it_valid ops (mi_children it ! heap_top ops (mi_children it) (mi_heap it)))"

definition MergingIterator_rebuildHeap :: "'s InternalIterator \<Rightarrow> 's MergingIterator \<Rightarrow> 's MergingIterator" where
  "MergingIterator_rebuildHeap ops it =
     it\<lparr>mi_heap := fold (\<lambda>index heap. if it_valid ops (mi_children it ! index) then index # heap else heap)
          [0..<length (mi_children it)] (mi_heap it)\<rparr>"

definition MergingIterator_checkChildren ::
  "'s InternalIterator \<Rightarrow> 's MergingIterator \<Rightarrow> bool \<times> 's MergingIterator" where
  "MergingIterator_checkChildren ops it =
     (case find (\<lambda>child. \<not> status_ok (it_status ops child)) (mi_children it) of
        Some child \<Rightarrow>
          (False, MergingIterator_clearHeap (it\<lparr>mi_status := it_status ops child\<rparr>))
      | None \<Rightarrow> (True, it))"

definition MergingIterator_seekToFirst :: "'s InternalIterator \<Rightarrow> 's MergingIterator \<Rightarrow> 's MergingIterator" where
  "MergingIterator_seekToFirst ops it =
     (if \<not> status_ok (mi_status it) then it
      else let it = MergingIterator_clearHeap it;
               it = it\<lparr>mi_children := map (it_seekToFirst ops) (mi_children it)\<rparr>
        in case MergingIterator_checkChildren ops it of
             (False, it) \<Rightarrow> it
           | (True, it) \<Rightarrow> MergingIterator_rebuildHeap ops it)"

definition MergingIterator_seek :: "'s InternalIterator \<Rightarrow> bytes \<Rightarrow> 's MergingIterator \<Rightarrow> 's MergingIterator" where
  "MergingIterator_seek ops target it =
     (if \<not> status_ok (mi_status it) then it
      else let it = MergingIterator_clearHeap it;
               it = it\<lparr>mi_children := map (it_seek ops target) (mi_children it)\<rparr>
        in case MergingIterator_checkChildren ops it of
             (False, it) \<Rightarrow> it
           | (True, it) \<Rightarrow> MergingIterator_rebuildHeap ops it)"

definition MergingIterator_next :: "'s InternalIterator \<Rightarrow> 's MergingIterator \<Rightarrow> 's MergingIterator" where
  "MergingIterator_next ops it =
     (if \<not> status_ok (mi_status it) then it
      else let index = heap_top ops (mi_children it) (mi_heap it);
               it = it\<lparr>mi_heap := heap_pop ops (mi_children it) (mi_heap it)\<rparr>;
               it = it\<lparr>mi_children := (mi_children it)[index := it_next ops (mi_children it ! index)]\<rparr>
        in case MergingIterator_checkChildren ops it of
             (False, it) \<Rightarrow> it
           | (True, it) \<Rightarrow>
               if it_valid ops (mi_children it ! index) then it\<lparr>mi_heap := index # mi_heap it\<rparr> else it)"

definition MergingIterator_internalKey :: "'s InternalIterator \<Rightarrow> 's MergingIterator \<Rightarrow> bytes" where
  "MergingIterator_internalKey ops it =
     it_internalKey ops (mi_children it ! heap_top ops (mi_children it) (mi_heap it))"

definition MergingIterator_value :: "'s InternalIterator \<Rightarrow> 's MergingIterator \<Rightarrow> bytes" where
  "MergingIterator_value ops it =
     it_value ops (mi_children it ! heap_top ops (mi_children it) (mi_heap it))"

definition MergingIterator_ops :: "'s InternalIterator \<Rightarrow> 's MergingIterator InternalIterator" where
  "MergingIterator_ops ops =
     \<lparr>it_valid = MergingIterator_valid ops, it_seekToFirst = MergingIterator_seekToFirst ops,
      it_seek = MergingIterator_seek ops, it_next = MergingIterator_next ops,
      it_internalKey = MergingIterator_internalKey ops, it_value = MergingIterator_value ops,
      it_status = mi_status\<rparr>"

subsection \<open>Positions\<close>

text \<open>
  Where an input with entries \<open>l\<close> stands when the merge stands at position \<open>i\<close> of \<open>es\<close>.
\<close>

definition merge_pos :: "entry list \<Rightarrow> nat \<Rightarrow> entry list \<Rightarrow> nat" where
  "merge_pos es i l = (if i < length es then lower_bound l (fst (es ! i)) else length l)"

definition merge_of :: "entry list list \<Rightarrow> entry list \<Rightarrow> bool" where
  "merge_of ess es \<longleftrightarrow> sorted_entries es \<and> (\<forall>l \<in> set ess. sorted_entries l) \<and>
     mset es = mset (concat ess)"

lemma sorted_nth_less: "sorted_entries es \<Longrightarrow> i < j \<Longrightarrow> j < length es \<Longrightarrow> InternalKeyLess (fst (es ! i)) (fst (es ! j))"
  by (auto simp: sorted_entries_def sorted_wrt_iff_nth_less entry_less_def)

lemma sorted_less_iff:
  assumes "sorted_entries es" "i < length es" "j < length es"
  shows "InternalKeyLess (fst (es ! i)) (fst (es ! j)) \<longleftrightarrow> i < j"
  using assms sorted_nth_less [OF assms(1)] wfkey.less_asym wfkey.less_irrefl
  by (metis (no_types, lifting) linorder_neqE_nat nth_mem sorted_entries_def)

lemma sorted_entries_distinct: "sorted_entries es \<Longrightarrow> distinct es"
  unfolding distinct_conv_nth by (metis nat_neq_iff sorted_nth_less wfkey.less_irrefl)

text \<open>The lower bound of a target in a sorted list.\<close>

lemma lower_bound_unique:
  assumes "sorted_entries l" "wf_ikey t" "n \<le> length l"
    and "\<And>j. j < length l \<Longrightarrow> InternalKeyLess (fst (l ! j)) t \<longleftrightarrow> j < n"
  shows "lower_bound l t = n"
proof -
  have "takeWhile (\<lambda>e. InternalKeyLess (fst e) t) l = take n l"
    by (rule takeWhile_eq_take_P_nth) (use assms(3,4) in auto)
  then show ?thesis using assms(3) by (simp add: lower_bound_def)
qed

lemma lower_bound_iff:
  assumes "sorted_entries l" "wf_ikey t" "j < length l"
  shows "InternalKeyLess (fst (l ! j)) t \<longleftrightarrow> j < lower_bound l t"
proof
  let ?P = "\<lambda>e. InternalKeyLess (fst e) t"
  assume "j < lower_bound l t"
  then show "?P (l ! j)"
    unfolding lower_bound_def by (metis nth_mem set_takeWhileD takeWhile_nth)
next
  let ?P = "\<lambda>e. InternalKeyLess (fst e) t"
  assume j: "?P (l ! j)"
  show "j < lower_bound l t"
  proof (rule ccontr)
    assume "\<not> j < lower_bound l t"
    then have k: "lower_bound l t \<le> j" by simp
    let ?k = "lower_bound l t"
    have "\<not> ?P (l ! ?k)"
      using k assms(3) nth_length_takeWhile [of ?P l] by (simp add: lower_bound_def)
    moreover have "?k = j \<or> InternalKeyLess (fst (l ! ?k)) (fst (l ! j))"
      using k assms(1,3) sorted_nth_less by (metis le_neq_implies_less)
    moreover have "wf_ikey (fst (l ! ?k))" "wf_ikey (fst (l ! j))"
      using k assms(1,3) by (auto simp: sorted_entries_def)
    ultimately show False using j assms(2) wfkey.less_trans by blast
  qed
qed

lemma merge_subset: "merge_of ess es \<Longrightarrow> l \<in> set ess \<Longrightarrow> set l \<subseteq> set es"
  unfolding merge_of_def by (metis UN_upper mset_eq_setD set_concat)

text \<open>Entries of an input against the entry at a position of the merge.\<close>

lemma input_before:
  assumes "sorted_entries es" "set l \<subseteq> set es" "j < length l"
  obtains k where "k < length es" "l ! j = es ! k"
    and "\<And>i. i < length es \<Longrightarrow> InternalKeyLess (fst (l ! j)) (fst (es ! i)) \<longleftrightarrow> k < i"
proof -
  obtain k where "k < length es" "l ! j = es ! k" using assms(2,3) by (metis in_set_conv_nth nth_mem subsetD)
  then show ?thesis using that sorted_less_iff [OF assms(1)] by simp
qed

lemma merge_pos_le: "merge_pos es i l \<le> length l"
  by (simp add: merge_pos_def lower_bound_le)

lemma merge_pos_iff:
  assumes "sorted_entries es" "sorted_entries l" "set l \<subseteq> set es" "j < length l" "i \<le> length es"
    and "k < length es" "l ! j = es ! k"
  shows "j < merge_pos es i l \<longleftrightarrow> k < i"
proof (cases "i < length es")
  case True
  have "wf_ikey (fst (es ! i))" using True assms(1) by (auto simp: sorted_entries_def)
  then show ?thesis
    using True lower_bound_iff [OF assms(2) _ assms(4)] assms(7) sorted_less_iff [OF assms(1,6) True]
    by (simp add: merge_pos_def)
next
  case False
  then show ?thesis using assms by (simp add: merge_pos_def)
qed

lemma merge_pos_eqI:
  assumes "sorted_entries es" "sorted_entries l" "set l \<subseteq> set es" "i \<le> length es" "n \<le> length l"
    and "\<And>j k. j < length l \<Longrightarrow> k < length es \<Longrightarrow> l ! j = es ! k \<Longrightarrow> j < n \<longleftrightarrow> k < i"
  shows "merge_pos es i l = n"
proof -
  have *: "j < merge_pos es i l \<longleftrightarrow> j < n" if j: "j < length l" for j
  proof -
    obtain k where k: "k < length es" "l ! j = es ! k" using input_before [OF assms(1,3) j] by blast
    show ?thesis using merge_pos_iff [OF assms(1-3) j assms(4) k] assms(6) [OF j k] by simp
  qed
  show ?thesis
    using * [of n] * [of "merge_pos es i l"] merge_pos_le [of es i l] assms(5)
    by (cases n "merge_pos es i l" rule: linorder_cases) auto
qed

lemma merge_pos_first: "merge_of ess es \<Longrightarrow> l \<in> set ess \<Longrightarrow> merge_pos es 0 l = 0"
  by (rule merge_pos_eqI) (use merge_subset in \<open>auto simp: merge_of_def\<close>)

lemma merge_pos_seek:
  assumes m: "merge_of ess es" "l \<in> set ess" and wf: "wf_ikey target"
  shows "merge_pos es (lower_bound es target) l = lower_bound l target"
proof (rule merge_pos_eqI)
  show s: "sorted_entries es" "sorted_entries l" using m by (auto simp: merge_of_def)
  show "set l \<subseteq> set es" by (rule merge_subset [OF m])
  show "lower_bound es target \<le> length es" "lower_bound l target \<le> length l" by (rule lower_bound_le)+
  fix j k assume "j < length l" "k < length es" "l ! j = es ! k"
  then show "j < lower_bound l target \<longleftrightarrow> k < lower_bound es target"
    using lower_bound_iff [OF s(1) wf] lower_bound_iff [OF s(2) wf] by metis
qed

lemma merge_pos_at:
  assumes "sorted_entries es" "sorted_entries l" "set l \<subseteq> set es" "i < length es" "es ! i \<in> set l"
  shows "merge_pos es i l < length l" "l ! merge_pos es i l = es ! i"
proof -
  obtain j where j: "j < length l" "l ! j = es ! i" using assms(5) by (metis in_set_conv_nth)
  have "\<not> j < merge_pos es i l"
    using merge_pos_iff [OF assms(1-3) j(1) _ assms(4) j(2)] assms(4) by simp
  moreover have "\<not> merge_pos es i l < j"
  proof
    assume lt: "merge_pos es i l < j"
    then have "merge_pos es i l < length l" using j(1) by simp
    then obtain k where k: "k < length es" "l ! merge_pos es i l = es ! k"
      using input_before [OF assms(1,3)] by blast
    have "InternalKeyLess (fst (es ! k)) (fst (es ! i))"
      using sorted_nth_less [OF assms(2) lt j(1)] j(2) k(2) by simp
    then have "k < i" using sorted_less_iff [OF assms(1) k(1) assms(4)] by simp
    then show False
      using merge_pos_iff [OF assms(1-3) \<open>merge_pos es i l < length l\<close> _ k, of i] assms(4) by simp
  qed
  ultimately have "j = merge_pos es i l" by simp
  then show "merge_pos es i l < length l" "l ! merge_pos es i l = es ! i" using j by auto
qed

lemma merge_pos_Suc:
  assumes m: "merge_of ess es" "l \<in> set ess" and i: "i < length es"
  shows "merge_pos es (Suc i) l = (if es ! i \<in> set l then Suc (merge_pos es i l) else merge_pos es i l)"
proof (rule merge_pos_eqI)
  show s: "sorted_entries es" "sorted_entries l" using m by (auto simp: merge_of_def)
  show sub: "set l \<subseteq> set es" by (rule merge_subset [OF m])
  show "Suc i \<le> length es" using i by simp
  note p = merge_pos_at [OF s sub i]
  show "(if es ! i \<in> set l then Suc (merge_pos es i l) else merge_pos es i l) \<le> length l"
    using p(1) merge_pos_le [of es i l] by auto
  fix j k assume jk: "j < length l" "k < length es" "l ! j = es ! k"
  have "k = i \<longleftrightarrow> es ! i \<in> set l \<and> j = merge_pos es i l"
    using p jk i sorted_entries_distinct [OF s(1)] sorted_entries_distinct [OF s(2)]
    by (metis nth_eq_iff_index_eq nth_mem)
  then show "j < (if es ! i \<in> set l then Suc (merge_pos es i l) else merge_pos es i l) \<longleftrightarrow> k < Suc i"
    using merge_pos_iff [OF s sub jk(1) _ jk(2,3), of i] i by auto
qed

lemma heap_top_least:
  assumes "c \<in> set heap"
    and "\<forall>d \<in> set heap. d \<noteq> c \<longrightarrow>
      InternalKeyLess (it_internalKey ops (children ! c)) (it_internalKey ops (children ! d)) \<and>
      \<not> InternalKeyLess (it_internalKey ops (children ! d)) (it_internalKey ops (children ! c))"
  shows "heap_top ops children heap = c"
proof -
  have mem: "heap \<noteq> [] \<Longrightarrow> heap_top ops children heap \<in> set heap" for heap
    by (induction heap rule: induct_list012) (auto simp: Let_def)
  show ?thesis
    using assms
  proof (induction heap rule: induct_list012)
    case (3 x y zs)
    let ?t = "heap_top ops children (y # zs)"
    have t: "?t \<in> set (y # zs)" by (rule mem) simp
    show ?case
    proof (cases "c = x")
      case True
      then have "\<not> Greater ops children x ?t"
        using t "3.prems"(2) by (cases "?t = c") (auto simp: Greater_def Let_def wfkey.less_irrefl)
      then show ?thesis using True by (simp add: Let_def)
    next
      case False
      then have "?t = c" using "3.IH"(2) "3.prems" by auto
      moreover have "Greater ops children x c" using "3.prems" False by (auto simp: Greater_def Let_def)
      ultimately show ?thesis by (simp add: Let_def)
    qed
  qed auto
qed

lemma distinct_concat_nth:
  assumes "distinct (concat xss)" "c < length xss" "d < length xss" "c \<noteq> d" "x \<in> set (xss ! c)"
  shows "x \<notin> set (xss ! d)"
proof -
  have *: "set (xss ! c) \<inter> set (xss ! d) = {}" if "c < d" "d < length xss" for c d
  proof -
    have "xss = take c xss @ xss ! c # drop (Suc c) xss" using that by (simp add: id_take_nth_drop)
    then have "distinct (concat (take c xss) @ xss ! c @ concat (drop (Suc c) xss))"
      using assms(1) by (metis concat.simps(2) concat_append)
    moreover have "xss ! d = drop (Suc c) xss ! (d - Suc c)" "d - Suc c < length (drop (Suc c) xss)"
      using that by auto
    then have "xss ! d \<in> set (drop (Suc c) xss)" using nth_mem by metis
    then have "set (xss ! d) \<subseteq> set (concat (drop (Suc c) xss))" by auto
    ultimately show ?thesis unfolding distinct_append by blast
  qed
  show ?thesis using * [of c d] * [of d c] assms(2-5) by (cases c d rule: linorder_cases) auto
qed

lemma merge_owner:
  assumes m: "merge_of ess es" and i: "i < length es"
  obtains c where "c < length ess" "es ! i \<in> set (ess ! c)"
    and "\<And>d. d < length ess \<Longrightarrow> es ! i \<in> set (ess ! d) \<Longrightarrow> d = c"
proof -
  have "distinct (concat ess)"
    using m sorted_entries_distinct by (metis merge_of_def mset_eq_imp_distinct_iff)
  moreover have "set es = set (concat ess)" using m mset_eq_setD unfolding merge_of_def by blast
  then have "es ! i \<in> set (concat ess)" using i nth_mem by blast
  then obtain c where "c < length ess" "es ! i \<in> set (ess ! c)" by (metis in_set_conv_nth UN_E set_concat)
  ultimately show ?thesis using that distinct_concat_nth by metis
qed

definition merge_at :: "('s \<Rightarrow> entry list \<Rightarrow> nat \<Rightarrow> bool) \<Rightarrow> 's MergingIterator \<Rightarrow> entry list \<Rightarrow> nat \<Rightarrow> bool" where
  "merge_at at it es i \<longleftrightarrow> status_ok (mi_status it) \<and> i \<le> length es \<and>
     (\<exists>ess. length ess = length (mi_children it) \<and> merge_of ess es \<and>
        (\<forall>c < length ess. \<exists>p. at (mi_children it ! c) (ess ! c) p) \<and>
        (if i < length es
         then (\<forall>c < length ess. at (mi_children it ! c) (ess ! c) (merge_pos es i (ess ! c))) \<and>
              distinct (mi_heap it) \<and>
              set (mi_heap it) = {c. c < length ess \<and> merge_pos es i (ess ! c) < length (ess ! c)}
         else mi_heap it = []))"

lemma check_children_ok:
  assumes "\<And>child. child \<in> set (mi_children it) \<Longrightarrow> status_ok (it_status ops child)"
  shows "MergingIterator_checkChildren ops it = (True, it)"
proof -
  have "find (\<lambda>child. \<not> status_ok (it_status ops child)) (mi_children it) = None"
    using assms by (simp add: find_None_iff)
  then show ?thesis by (simp add: MergingIterator_checkChildren_def)
qed

locale merging_input = internal_iterator ops at
  for ops :: "'s InternalIterator" and at :: "'s \<Rightarrow> entry list \<Rightarrow> nat \<Rightarrow> bool"
begin

lemma rebuild_at:
  assumes "status_ok (mi_status it)" "mi_heap it = []" "i \<le> length es" "merge_of ess es"
    and "length ess = length (mi_children it)"
    and "\<forall>c < length ess. at (mi_children it ! c) (ess ! c) (merge_pos es i (ess ! c))"
  shows "MergingIterator_checkChildren ops it = (True, it)"
    and "merge_at at (MergingIterator_rebuildHeap ops it) es i"
proof -
  have "status_ok (it_status ops child)" if "child \<in> set (mi_children it)" for child
    using that assms(5,6) status_at by (metis in_set_conv_nth)
  then show "MergingIterator_checkChildren ops it = (True, it)" by (rule check_children_ok)
  have fold: "fold (\<lambda>x h. if P x then x # h else h) xs h = rev (filter P xs) @ h" for P :: "nat \<Rightarrow> bool" and xs h
    by (induction xs arbitrary: h) auto
  let ?heap = "rev (filter (\<lambda>c. it_valid ops (mi_children it ! c)) [0..<length ess])"
  have heap: "MergingIterator_rebuildHeap ops it = it\<lparr>mi_heap := ?heap\<rparr>"
    using assms(2,5) by (simp add: MergingIterator_rebuildHeap_def fold)
  have v: "it_valid ops (mi_children it ! c) \<longleftrightarrow> merge_pos es i (ess ! c) < length (ess ! c)"
    if "c < length ess" for c using that assms(6) valid_at by blast
  have set: "set ?heap = {c. c < length ess \<and> merge_pos es i (ess ! c) < length (ess ! c)}"
    using v by auto
  have "?heap = []" if "\<not> i < length es"
    using that v by (simp add: merge_pos_def filter_empty_conv)
  then show "merge_at at (MergingIterator_rebuildHeap ops it) es i"
    unfolding merge_at_def heap using assms set by (intro conjI exI [of _ ess]) auto
qed

lemma merge_first:
  assumes "merge_at at it es i"
  shows "merge_at at (MergingIterator_seekToFirst ops it) es 0"
proof -
  obtain ess where ess: "status_ok (mi_status it)" "length ess = length (mi_children it)" "merge_of ess es"
    "\<forall>c < length ess. \<exists>p. at (mi_children it ! c) (ess ! c) p" using assms by (auto simp: merge_at_def)
  let ?it = "it\<lparr>mi_heap := [], mi_children := map (it_seekToFirst ops) (mi_children it)\<rparr>"
  have "\<forall>c < length ess. at (mi_children ?it ! c) (ess ! c) (merge_pos es 0 (ess ! c))"
    using ess first_at merge_pos_first [OF ess(3)] by fastforce
  note r = rebuild_at [of ?it 0 es ess, OF _ _ _ ess(3) _ this]
  then show ?thesis
    using ess(1,2) by (simp add: MergingIterator_seekToFirst_def MergingIterator_clearHeap_def Let_def)
qed

lemma merge_seek:
  assumes "merge_at at it es i" "wf_ikey target" "length target < 2 ^ 32"
  shows "merge_at at (MergingIterator_seek ops target it) es (lower_bound es target)"
proof -
  obtain ess where ess: "status_ok (mi_status it)" "length ess = length (mi_children it)" "merge_of ess es"
    "\<forall>c < length ess. \<exists>p. at (mi_children it ! c) (ess ! c) p" using assms by (auto simp: merge_at_def)
  let ?it = "it\<lparr>mi_heap := [], mi_children := map (it_seek ops target) (mi_children it)\<rparr>"
  have "\<forall>c < length ess. at (mi_children ?it ! c) (ess ! c) (merge_pos es (lower_bound es target) (ess ! c))"
    using ess seek_at [OF _ assms(2,3)] merge_pos_seek [OF ess(3) _ assms(2)] by fastforce
  note r = rebuild_at [of ?it "lower_bound es target" es ess, OF _ _ _ ess(3) _ this]
  then show ?thesis
    using ess(1,2) lower_bound_le
    by (simp add: MergingIterator_seek_def MergingIterator_clearHeap_def Let_def)
qed

text \<open>The top of the heap is the input that holds the current entry.\<close>

lemma top_at:
  assumes "merge_at at it es i" "i < length es"
  obtains ess c where "length ess = length (mi_children it)" "merge_of ess es" "c < length ess"
    "es ! i \<in> set (ess ! c)" "\<forall>d < length ess. es ! i \<in> set (ess ! d) \<longrightarrow> d = c"
    "\<forall>c < length ess. at (mi_children it ! c) (ess ! c) (merge_pos es i (ess ! c))"
    "distinct (mi_heap it)"
    "set (mi_heap it) = {c. c < length ess \<and> merge_pos es i (ess ! c) < length (ess ! c)}"
    "heap_top ops (mi_children it) (mi_heap it) = c"
    "merge_pos es i (ess ! c) < length (ess ! c)" "ess ! c ! merge_pos es i (ess ! c) = es ! i"
proof -
  obtain ess where ess: "length ess = length (mi_children it)" "merge_of ess es"
    "\<forall>c < length ess. at (mi_children it ! c) (ess ! c) (merge_pos es i (ess ! c))" "distinct (mi_heap it)"
    "set (mi_heap it) = {c. c < length ess \<and> merge_pos es i (ess ! c) < length (ess ! c)}"
    using assms by (auto simp: merge_at_def)
  obtain c where c: "c < length ess" "es ! i \<in> set (ess ! c)"
    "\<And>d. d < length ess \<Longrightarrow> es ! i \<in> set (ess ! d) \<Longrightarrow> d = c" using merge_owner [OF ess(2) assms(2)] by blast
  have s: "sorted_entries es" "\<And>d. d < length ess \<Longrightarrow> sorted_entries (ess ! d) \<and> set (ess ! d) \<subseteq> set es"
    using ess(2) merge_subset [OF ess(2)] by (auto simp: merge_of_def)
  have p: "merge_pos es i (ess ! c) < length (ess ! c)" "ess ! c ! merge_pos es i (ess ! c) = es ! i"
    using merge_pos_at [OF s(1) _ _ assms(2) c(2)] s(2) c(1) by auto
  have key: "it_internalKey ops (mi_children it ! d) = fst (ess ! d ! merge_pos es i (ess ! d))"
    if "d \<in> set (mi_heap it)" for d using that ess(3,5) key_at by blast
  have "InternalKeyLess (fst (es ! i)) (it_internalKey ops (mi_children it ! d)) \<and>
      \<not> InternalKeyLess (it_internalKey ops (mi_children it ! d)) (fst (es ! i))"
    if d: "d \<in> set (mi_heap it)" "d \<noteq> c" for d
  proof -
    have dl: "d < length ess" "merge_pos es i (ess ! d) < length (ess ! d)" using d(1) ess(5) by auto
    have sd: "sorted_entries (ess ! d)" "set (ess ! d) \<subseteq> set es" using s(2) [OF dl(1)] by auto
    obtain k where k: "k < length es" "ess ! d ! merge_pos es i (ess ! d) = es ! k"
      by (rule input_before [OF s(1) sd(2) dl(2)])
    have "\<not> k < i" using merge_pos_iff [OF s(1) sd dl(2) _ k, of i] assms(2) by simp
    moreover have "k \<noteq> i" using c(3) [OF dl(1)] d(2) dl(2) k(2) by (metis nth_mem)
    ultimately show ?thesis
      using key [OF d(1)] k sorted_less_iff [OF s(1)] assms(2) by auto
  qed
  moreover have cin: "c \<in> set (mi_heap it)" using c(1) p(1) ess(5) by simp
  ultimately have "heap_top ops (mi_children it) (mi_heap it) = c"
    using key [OF cin] p(2) by (intro heap_top_least) auto
  then show ?thesis using that ess c p by blast
qed

lemma merge_next:
  assumes "merge_at at it es i" "i < length es"
  shows "merge_at at (MergingIterator_next ops it) es (Suc i)"
proof -
  obtain ess c where t: "length ess = length (mi_children it)" "merge_of ess es" "c < length ess"
    "es ! i \<in> set (ess ! c)" "\<forall>d < length ess. es ! i \<in> set (ess ! d) \<longrightarrow> d = c"
    "\<forall>c < length ess. at (mi_children it ! c) (ess ! c) (merge_pos es i (ess ! c))"
    "distinct (mi_heap it)"
    "set (mi_heap it) = {c. c < length ess \<and> merge_pos es i (ess ! c) < length (ess ! c)}"
    "heap_top ops (mi_children it) (mi_heap it) = c"
    "merge_pos es i (ess ! c) < length (ess ! c)" "ess ! c ! merge_pos es i (ess ! c) = es ! i"
    by (rule top_at [OF assms])
  have ok: "status_ok (mi_status it)" using assms(1) by (simp add: merge_at_def)
  let ?cs = "(mi_children it)[c := it_next ops (mi_children it ! c)]"
  let ?it = "it\<lparr>mi_heap := remove1 c (mi_heap it), mi_children := ?cs\<rparr>"
  have pos: "merge_pos es (Suc i) (ess ! d) = (if d = c then Suc (merge_pos es i (ess ! d)) else merge_pos es i (ess ! d))"
    if "d < length ess" for d
  proof -
    have "es ! i \<in> set (ess ! d) \<longleftrightarrow> d = c" using that t(4,5) by blast
    then show ?thesis using merge_pos_Suc [OF t(2) nth_mem [OF that] assms(2)] by simp
  qed
  have at: "\<forall>d < length ess. at (?cs ! d) (ess ! d) (merge_pos es (Suc i) (ess ! d))"
  proof (intro allI impI)
    fix d assume d: "d < length ess"
    show "at (?cs ! d) (ess ! d) (merge_pos es (Suc i) (ess ! d))"
      using pos [OF d] t(1,6) d next_at [OF _ t(10)] by (cases "d = c") simp_all
  qed
  have "status_ok (it_status ops child)" if "child \<in> set ?cs" for child
    using that at t(1) status_at by (metis in_set_conv_nth length_list_update)
  then have chk: "MergingIterator_checkChildren ops ?it = (True, ?it)"
    by (intro check_children_ok) simp
  define heap where "heap = (if it_valid ops (?cs ! c) then c # remove1 c (mi_heap it) else remove1 c (mi_heap it))"
  have nx: "MergingIterator_next ops it = it\<lparr>mi_heap := heap, mi_children := ?cs\<rparr>"
    using ok t(9) chk by (simp add: MergingIterator_next_def Let_def heap_pop_def heap_def)
  have valid: "it_valid ops (?cs ! c) \<longleftrightarrow> merge_pos es (Suc i) (ess ! c) < length (ess ! c)"
    using at t(3) valid_at by blast
  have set: "set heap = {d. d < length ess \<and> merge_pos es (Suc i) (ess ! d) < length (ess ! d)}"
    using t(3,7,8) pos valid by (auto simp: heap_def set_remove1_eq split: if_splits)
  have dist: "distinct heap" using t(7) by (simp add: heap_def set_remove1_eq)
  have "heap = []" if "\<not> Suc i < length es"
    using set that by (simp add: merge_pos_def flip: set_empty)
  then show ?thesis
    unfolding merge_at_def nx using ok assms(2) t(1,2) at set dist
    by (intro conjI exI [of _ ess]) auto
qed

sublocale merged: internal_iterator "MergingIterator_ops ops" "merge_at at"
proof
  fix it :: "'s MergingIterator" and es i
  assume m: "merge_at at it es i"
  then show "sorted_entries es \<and> i \<le> length es" by (auto simp: merge_at_def merge_of_def)
  show "status_ok (it_status (MergingIterator_ops ops) it)"
    using m by (simp add: MergingIterator_ops_def merge_at_def)
  show "merge_at at (it_seekToFirst (MergingIterator_ops ops) it) es 0"
    using merge_first [OF m] by (simp add: MergingIterator_ops_def)
  show "merge_at at (it_seek (MergingIterator_ops ops) target it) es (lower_bound es target)"
    if "wf_ikey target" "length target < 2 ^ 32" for target
    using merge_seek [OF m that] by (simp add: MergingIterator_ops_def)
  have top: "it_valid (MergingIterator_ops ops) it \<and> it_internalKey (MergingIterator_ops ops) it = fst (es ! i) \<and>
      it_value (MergingIterator_ops ops) it = snd (es ! i)" if i: "i < length es"
  proof -
    obtain ess c where "c < length ess" "heap_top ops (mi_children it) (mi_heap it) = c"
      "at (mi_children it ! c) (ess ! c) (merge_pos es i (ess ! c))" "mi_heap it \<noteq> []"
      "merge_pos es i (ess ! c) < length (ess ! c)" "ess ! c ! merge_pos es i (ess ! c) = es ! i"
      using top_at [OF m i] by (metis (no_types, lifting) empty_iff list.set(1) mem_Collect_eq)
    then show ?thesis
      using valid_at key_at value_at m
      by (simp add: MergingIterator_ops_def MergingIterator_valid_def MergingIterator_internalKey_def
          MergingIterator_value_def merge_at_def)
  qed
  show "it_valid (MergingIterator_ops ops) it \<longleftrightarrow> i < length es"
    using top m by (cases "i < length es") (auto simp: merge_at_def MergingIterator_ops_def MergingIterator_valid_def)
  assume i: "i < length es"
  show "it_internalKey (MergingIterator_ops ops) it = fst (es ! i)"
    "it_value (MergingIterator_ops ops) it = snd (es ! i)" using top [OF i] by auto
  show "merge_at at (it_next (MergingIterator_ops ops) it) es (Suc i)"
    using merge_next [OF m i] by (simp add: MergingIterator_ops_def)
qed

text \<open>A merge that was just created.\<close>

lemma merge_new:
  assumes "length ess = length children" "\<forall>c < length ess. \<exists>p. at (children ! c) (ess ! c) p"
    and "merge_of ess es"
  shows "merge_at at (MergingIterator_new children) es (length es)"
  using assms unfolding merge_at_def by (intro conjI exI [of _ ess]) (auto simp: MergingIterator_new_def)

end

subsection \<open>The merge of lists\<close>

text \<open>Inputs with distinct keys have a merge: all their entries in order.\<close>

definition merge_all :: "entry list list \<Rightarrow> entry list" where
  "merge_all ess = foldr insert_entry (concat ess) []"

lemma mset_insert_entry [simp]: "mset (insert_entry e xs) = add_mset e (mset xs)"
  unfolding insert_entry_def by (metis mset.simps(2) mset_append takeWhile_dropWhile_id union_mset_add_mset_right)

lemma merge_all_of:
  assumes "\<forall>l \<in> set ess. sorted_entries l" "distinct (map fst (concat ess))"
  shows "merge_of ess (merge_all ess)"
proof -
  have "mset (foldr insert_entry xs []) = mset xs" for xs by (induction xs) simp_all
  moreover have "(\<forall>e \<in> set xs. wf_ikey (fst e)) \<Longrightarrow> distinct (map fst xs) \<Longrightarrow>
      sorted_entries (foldr insert_entry xs [])" for xs
  proof (induction xs)
    case (Cons x xs)
    have "mset (foldr insert_entry xs []) = mset xs" by (induction xs) simp_all
    then have "set (foldr insert_entry xs []) = set xs" by (metis mset_eq_setD)
    moreover have "\<forall>y \<in> set xs. fst y \<noteq> fst x" using Cons.prems(2) by (simp add: image_iff) metis
    ultimately show ?case using Cons by (simp add: sorted_insert_entry)
  qed (simp add: sorted_entries_def)
  moreover have "\<forall>e \<in> set (concat ess). wf_ikey (fst e)"
    using assms(1) by (auto simp: sorted_entries_def)
  ultimately show ?thesis using assms by (simp add: merge_of_def merge_all_def)
qed

end
