(* ===== verification/SSTableReader.thy ===== *)
theory SSTableReader
  imports SSTableBuilder Options
begin

text \<open>
  \<^verbatim>\<open>src/table/sstable_reader.h\<close> and \<^verbatim>\<open>sstable_reader.cc\<close>: opening a table file, point lookups and
  the two-level iterator over its index and data blocks.  The descriptor of a reader is the
  content of the (immutable) file.  An iterator keeps the environment that answers its reads.
  The theory shows that on a table written by the builder a lookup is a lookup in its list of
  entries, and that the iterator is an instance of the contract of the ordered inputs.
\<close>

record SSTableReader =
  sr_content :: bytes
  sr_file_size :: u64
  sr_filter_block :: bytes
  sr_index_block :: bytes

definition sstable_ioError :: "string \<Rightarrow> string \<Rightarrow> errno \<Rightarrow> Status" where
  "sstable_ioError operation path error_number =
     ioError (operation @ '' SSTable '' @ path @ '': '' @ error_message error_number)"

definition SSTableReader_open :: "string \<Rightarrow> Env \<Rightarrow> SSTableReader result \<times> Env" where
  "SSTableReader_open path env =
     (if path = [] then (Inl (invalidArgument ''SSTable path must not be empty''), env)
      else case sys_open path env of
        (Inl error_number, env) \<Rightarrow> (Inl (sstable_ioError ''open'' path error_number), env)
      | (Inr content, env) \<Rightarrow>
       (case sys_call env of
          (Some error_number, env) \<Rightarrow> (Inl (sstable_ioError ''stat'' path error_number), env)
        | (None, env) \<Rightarrow>
            let file_size = of_nat (length content) in
            case readSSTableFooter content file_size env of
              (Inl status, env) \<Rightarrow> (Inl status, env)
            | (Inr (filter_handle, index_handle), env) \<Rightarrow>
               (case readBlock content file_size filter_handle True env of
                  (Inl status, env) \<Rightarrow> (Inl status, env)
                | (Inr filter_block, env) \<Rightarrow>
                   (case readBlock content file_size index_handle True env of
                      (Inl status, env) \<Rightarrow> (Inl status, env)
                    | (Inr index_block, env) \<Rightarrow>
                        let index = BlockIterator_new index_block in
                        if \<not> status_ok (bi_status index) then (Inl (bi_status index), env)
                        else (Inr \<lparr>sr_content = content, sr_file_size = file_size,
                                   sr_filter_block = filter_block, sr_index_block = index_block\<rparr>,
                              env)))))"

definition SSTableReader_get ::
  "ReadOptions \<Rightarrow> bytes \<Rightarrow> SequenceNumber \<Rightarrow> SSTableReader \<Rightarrow> Env \<Rightarrow> LookupResult result \<times> Env" where
  "SSTableReader_get options user_key visible_sequence t env =
     (if \<not> bloomFilterMayContain user_key (sr_filter_block t) then (Inr Absent, env)
      else
        let lookup_key = encodeInternalKey user_key visible_sequence kValue;
            index = BlockIterator_new (sr_index_block t) in
        if \<not> status_ok (bi_status index) then (Inl (bi_status index), env)
        else let index = BlockIterator_seek lookup_key index in
        if \<not> status_ok (bi_status index) then (Inl (bi_status index), env)
        else if \<not> bi_valid index then (Inr Absent, env)
        else case getBlockHandle (bi_value index) of
          None \<Rightarrow> (Inl (corruption ''invalid data block handle in SSTable index''), env)
        | Some (data_handle, encoded_handle) \<Rightarrow>
            if encoded_handle \<noteq> []
            then (Inl (corruption ''invalid data block handle in SSTable index''), env)
            else case readBlock (sr_content t) (sr_file_size t) data_handle
                        (ro_verify_checksums options) env of
              (Inl status, env) \<Rightarrow> (Inl status, env)
            | (Inr data_block, env) \<Rightarrow>
                let data = BlockIterator_new data_block in
                if \<not> status_ok (bi_status data) then (Inl (bi_status data), env)
                else let data = BlockIterator_seek lookup_key data in
                if \<not> status_ok (bi_status data) then (Inl (bi_status data), env)
                else if \<not> bi_valid data
                then (Inl (corruption ''SSTable index does not cover its data block''), env)
                else case parseInternalKey (bi_key data) of
                  None \<Rightarrow> (Inl (corruption ''invalid internal key in SSTable data block''), env)
                | Some parsed \<Rightarrow>
                    if pk_user_key parsed \<noteq> user_key then (Inr Absent, env)
                    else if pk_type parsed = kDeletion then (Inr Deleted, env)
                    else (Inr (Found (bi_value data)), env))"

record SSTableIterator =
  si_table :: SSTableReader
  si_options :: ReadOptions
  si_index :: BlockIterator
  si_data_block :: bytes
  si_data :: "BlockIterator option"
  si_status :: Status
  si_env :: Env

definition SSTableReader_newIterator :: "ReadOptions \<Rightarrow> SSTableReader \<Rightarrow> Env \<Rightarrow> SSTableIterator" where
  "SSTableReader_newIterator options t env =
     (let index = BlockIterator_new (sr_index_block t)
      in \<lparr>si_table = t, si_options = options, si_index = index, si_data_block = [], si_data = None,
          si_status = (if \<not> status_ok (bi_status index) then bi_status index else success),
          si_env = env\<rparr>)"

definition SSTableIterator_valid :: "SSTableIterator \<Rightarrow> bool" where
  "SSTableIterator_valid it =
     (status_ok (si_status it) \<and> (case si_data it of None \<Rightarrow> False | Some data \<Rightarrow> bi_valid data))"

definition SSTableIterator_internalKey :: "SSTableIterator \<Rightarrow> bytes" where
  "SSTableIterator_internalKey it = (case si_data it of None \<Rightarrow> [] | Some data \<Rightarrow> bi_key data)"

definition SSTableIterator_value :: "SSTableIterator \<Rightarrow> bytes" where
  "SSTableIterator_value it = (case si_data it of None \<Rightarrow> [] | Some data \<Rightarrow> bi_value data)"

definition SSTableIterator_loadDataBlock :: "SSTableIterator \<Rightarrow> SSTableIterator" where
  "SSTableIterator_loadDataBlock it =
     (let bad_handle = it\<lparr>si_status := corruption ''invalid data block handle in SSTable index''\<rparr> in
      case getBlockHandle (bi_value (si_index it)) of
        None \<Rightarrow> bad_handle
      | Some (handle, encoded_handle) \<Rightarrow>
          if encoded_handle \<noteq> [] then bad_handle
          else case readBlock (sr_content (si_table it)) (sr_file_size (si_table it)) handle
                      (ro_verify_checksums (si_options it)) (si_env it) of
            (Inl status, env) \<Rightarrow> it\<lparr>si_status := status, si_env := env\<rparr>
          | (Inr data_block, env) \<Rightarrow>
              let it = it\<lparr>si_status := success, si_data_block := data_block, si_env := env\<rparr>;
                  data = BlockIterator_new data_block in
              if \<not> status_ok (bi_status data)
              then it\<lparr>si_status := bi_status data, si_data := None\<rparr>
              else let data = BlockIterator_seekToFirst data in
                if \<not> status_ok (bi_status data)
                then it\<lparr>si_status := bi_status data, si_data := None\<rparr>
                else if \<not> bi_valid data
                then it\<lparr>si_status := corruption ''SSTable index references an empty data block'',
                        si_data := None\<rparr>
                else it\<lparr>si_data := Some data\<rparr>)"

definition SSTableIterator_seekToFirst :: "SSTableIterator \<Rightarrow> SSTableIterator" where
  "SSTableIterator_seekToFirst it =
     (if \<not> status_ok (si_status it) then it
      else let index = BlockIterator_seekToFirst (si_index it);
               it = it\<lparr>si_data := None, si_data_block := [], si_index := index\<rparr> in
        if \<not> status_ok (bi_status index) then it\<lparr>si_status := bi_status index\<rparr>
        else if bi_valid index then SSTableIterator_loadDataBlock it
        else it)"

definition SSTableIterator_seek :: "bytes \<Rightarrow> SSTableIterator \<Rightarrow> SSTableIterator" where
  "SSTableIterator_seek target it =
     (if \<not> status_ok (si_status it) then it
      else if parseInternalKey target = None
      then it\<lparr>si_status := invalidArgument ''invalid InternalKey seek target'', si_data := None\<rparr>
      else let index = BlockIterator_seek target (si_index it);
               it = it\<lparr>si_data := None, si_data_block := [], si_index := index\<rparr> in
        if \<not> status_ok (bi_status index) then it\<lparr>si_status := bi_status index\<rparr>
        else if \<not> bi_valid index then it
        else let it = SSTableIterator_loadDataBlock it in
          if \<not> status_ok (si_status it) then it
          else case si_data it of
            None \<Rightarrow> it
          | Some data \<Rightarrow>
              let data = BlockIterator_seek target data in
              if \<not> status_ok (bi_status data)
              then it\<lparr>si_status := bi_status data, si_data := None\<rparr>
              else if \<not> bi_valid data
              then it\<lparr>si_status := corruption ''SSTable index does not cover seek target'',
                      si_data := None\<rparr>
              else it\<lparr>si_data := Some data\<rparr>)"

definition SSTableIterator_next :: "SSTableIterator \<Rightarrow> SSTableIterator" where
  "SSTableIterator_next it =
     (case si_data it of
        None \<Rightarrow> it
      | Some data \<Rightarrow>
          let data = BlockIterator_next data in
          if \<not> status_ok (bi_status data)
          then it\<lparr>si_status := bi_status data, si_data := None\<rparr>
          else if bi_valid data then it\<lparr>si_data := Some data\<rparr>
          else let index = BlockIterator_next (si_index it);
                   it = it\<lparr>si_index := index\<rparr> in
            if \<not> status_ok (bi_status index)
            then it\<lparr>si_status := bi_status index, si_data := None\<rparr>
            else let it = it\<lparr>si_data := None\<rparr> in
              if bi_valid index then SSTableIterator_loadDataBlock it else it)"

definition SSTableIterator_ops :: "SSTableIterator InternalIterator" where
  "SSTableIterator_ops =
     \<lparr>it_valid = SSTableIterator_valid, it_seekToFirst = SSTableIterator_seekToFirst,
      it_seek = SSTableIterator_seek, it_next = SSTableIterator_next,
      it_internalKey = SSTableIterator_internalKey, it_value = SSTableIterator_value,
      it_status = si_status\<rparr>"

subsection \<open>Tables the builder wrote\<close>

definition table_ok :: "nat \<Rightarrow> entry list list \<Rightarrow> bool" where
  "table_ok r ess \<longleftrightarrow> 0 < r \<and> [] \<notin> set ess \<and> sorted_entries (concat ess) \<and>
     (\<forall>e \<in> set (concat ess). fits e) \<and> length (table_bytes r ess) < 2 ^ 32"

definition reader_rep :: "nat \<Rightarrow> entry list list \<Rightarrow> SSTableReader \<Rightarrow> bool" where
  "reader_rep r ess t \<longleftrightarrow> table_ok r ess \<and>
     t = \<lparr>sr_content = table_bytes r ess, sr_file_size = of_nat (length (table_bytes r ess)),
          sr_filter_block = table_filter (concat ess), sr_index_block = table_index r ess\<rparr>"

lemma length_index_entries [simp]: "length (index_entries r n ess) = length ess"
  by (induction ess arbitrary: n) simp_all

lemma index_entries_nth:
  "j < length ess \<Longrightarrow> index_entries r n ess ! j = (fst (last (ess ! j)), putBlockHandle []
     \<lparr>bh_offset = of_nat (n + length (data_bytes r (take j ess))),
      bh_size = of_nat (length (block_bytes r (ess ! j)))\<rparr>)"
proof (induction ess arbitrary: n j)
  case (Cons es ess)
  then show ?case by (cases j) (simp_all add: data_bytes_def ac_simps)
qed simp

lemma data_bytes_split:
  "j < length ess \<Longrightarrow> data_bytes r ess = data_bytes r (take j ess) @
     table_block (block_bytes r (ess ! j)) @ data_bytes r (drop (Suc j) ess)"
  unfolding data_bytes_def by (subst id_take_nth_drop [of j ess]) simp_all

lemma map_fst_index_entries: "map fst (index_entries r n ess) = map (\<lambda>es. fst (last es)) ess"
  by (induction ess arbitrary: n) simp_all

lemma block_nonempty: "[] \<notin> set ess \<Longrightarrow> j < length ess \<Longrightarrow> ess ! j \<noteq> []"
  by (metis nth_mem)

lemma sorted_lasts:
  "[] \<notin> set ess \<Longrightarrow> sorted_entries (concat ess) \<Longrightarrow>
     sorted_wrt InternalKeyLess (map (\<lambda>es. fst (last es)) ess) \<and> (\<forall>es \<in> set ess. wf_ikey (fst (last es)))"
proof (induction ess)
  case (Cons es ess)
  have "last es \<in> set es" using Cons.prems(1) by auto
  moreover have "\<forall>xs \<in> set ess. last xs \<in> set (concat ess)"
    using Cons.prems(1) by (auto intro!: bexI last_in_set)
  moreover have "sorted_entries es" "sorted_entries (concat ess)"
    "\<forall>x \<in> set es. \<forall>y \<in> set (concat ess). entry_less x y"
    using Cons.prems(2) by (simp_all add: sorted_entries_append)
  ultimately show ?case
    using Cons.IH Cons.prems(1) by (auto simp: entry_less_def sorted_entries_def)
qed simp

lemma table_ok_index:
  assumes "table_ok r ess"
  shows "blk_ok r (index_entries r 0 ess)"
proof -
  note s = sorted_lasts [of ess]
  have w: "sorted_wrt InternalKeyLess (map fst (index_entries r 0 ess))"
    "\<forall>k \<in> set (map fst (index_entries r 0 ess)). wf_ikey k"
    unfolding map_fst_index_entries using s assms by (auto simp: table_ok_def)
  have "sorted_entries (index_entries r 0 ess)"
    using w by (simp add: sorted_entries_def entry_less_def [abs_def] sorted_wrt_map)
  moreover have "fits e" if "e \<in> set (index_entries r 0 ess)" for e
  proof -
    obtain j where j: "j < length ess" "e = index_entries r 0 ess ! j"
      using \<open>e \<in> _\<close> by (auto simp: in_set_conv_nth)
    have "last (ess ! j) \<in> set (concat ess)"
      using j(1) assms block_nonempty [OF _ j(1)]
      by (auto simp: table_ok_def intro!: bexI [of _ "ess ! j"] last_in_set)
    then show ?thesis using assms j by (auto simp: table_ok_def fits_def index_entries_nth)
  qed
  ultimately show ?thesis using assms by (auto simp: blk_ok_def table_ok_def table_bytes_def table_index_def Let_def)
qed

lemma table_ok_block:
  assumes "table_ok r ess" "j < length ess"
  shows "blk_ok r (ess ! j)"
proof -
  have c: "concat ess = concat (take j ess) @ ess ! j @ concat (drop (Suc j) ess)"
    using assms(2) by (metis concat.simps(2) concat_append id_take_nth_drop)
  have "sorted_entries (ess ! j)" "\<forall>e \<in> set (ess ! j). fits e"
    using assms(1) unfolding table_ok_def c by (auto simp: sorted_entries_append)
  moreover have "length (block_bytes r (ess ! j)) < 2 ^ 32"
    using assms data_bytes_split [OF assms(2), of r] by (auto simp: table_ok_def table_bytes_def Let_def)
  ultimately show ?thesis using assms(1) by (simp add: blk_ok_def table_ok_def)
qed

lemma reader_block:
  assumes "reader_rep r ess t" "j < length ess" "quiet_at F env"
  shows "\<exists>env'. quiet_at F env' \<and> readBlock (sr_content t) (sr_file_size t)
    \<lparr>bh_offset = of_nat (length (data_bytes r (take j ess))), bh_size = of_nat (length (block_bytes r (ess ! j)))\<rparr>
    verify env = (Inr (block_bytes r (ess ! j)), env')"
proof -
  have t: "sr_content t = table_bytes r ess" "sr_file_size t = of_nat (length (table_bytes r ess))"
    "length (table_bytes r ess) < 2 ^ 64"
    using assms(1) by (auto simp: reader_rep_def table_ok_def)
  obtain rest where "table_bytes r ess =
      data_bytes r (take j ess) @ table_block (block_bytes r (ess ! j)) @ rest" "48 \<le> length rest"
    unfolding table_bytes_def Let_def using data_bytes_split [OF assms(2), of r] by auto
  then show ?thesis using quiet_readBlock [OF assms(3) _ _ t(3)] t by metis
qed

lemma reader_block_any:
  assumes "reader_rep r ess t" "j < length ess"
    and "readBlock (sr_content t) (sr_file_size t)
      \<lparr>bh_offset = of_nat (length (data_bytes r (take j ess))), bh_size = of_nat (length (block_bytes r (ess ! j)))\<rparr>
      verify env = (res, env')"
  shows "res = Inr (block_bytes r (ess ! j)) \<or> (\<exists>s. res = Inl s \<and> \<not> status_ok s)"
proof -
  have t: "sr_content t = table_bytes r ess" "sr_file_size t = of_nat (length (table_bytes r ess))"
    "length (table_bytes r ess) < 2 ^ 64"
    using assms(1) by (auto simp: reader_rep_def table_ok_def)
  obtain rest where c: "table_bytes r ess =
      data_bytes r (take j ess) @ table_block (block_bytes r (ess ! j)) @ rest"
    unfolding table_bytes_def Let_def using data_bytes_split [OF assms(2), of r] by auto
  show ?thesis using readBlock_any [OF assms(3) [unfolded t(1,2)] c t(3)] .
qed

lemma open_reader:
  assumes "quiet_at F env" "F path = Some (table_bytes r ess)" "table_ok r ess" "path \<noteq> []"
  shows "\<exists>t env'. SSTableReader_open path env = (Inr t, env') \<and> reader_rep r ess t \<and> quiet_at F env'"
proof -
  let ?c = "table_bytes r ess" and ?n = "of_nat (length (table_bytes r ess)) :: u64"
  let ?d = "data_bytes r ess" and ?f = "table_filter (concat ess)" and ?i = "table_index r ess"
  let ?fh = "\<lparr>bh_offset = of_nat (length ?d), bh_size = of_nat (length ?f)\<rparr>"
  let ?ih = "\<lparr>bh_offset = of_nat (length (?d @ table_block ?f)), bh_size = of_nat (length ?i)\<rparr>"
  have len: "length ?c < 2 ^ 64" using assms(3) by (simp add: table_ok_def)
  have c: "?c = ?d @ table_block ?f @ table_block ?i @ putSSTableFooter [] ?fh ?ih"
    by (simp add: table_bytes_def Let_def add.assoc)
  have u: "unat (of_nat (length ?d) :: u64) = length ?d" "unat (of_nat (length ?f) :: u64) = length ?f"
    "unat (of_nat (length (?d @ table_block ?f)) :: u64) = length (?d @ table_block ?f)"
    "unat (of_nat (length ?i) :: u64) = length ?i" "unat ?n = length ?c"
    using len by (intro unat_u64; simp add: c)+
  have v: "status_ok (validateBlockHandle ?n ?fh)" "status_ok (validateBlockHandle ?n ?ih)"
    unfolding validate_iff BlockHandle.simps u by (simp_all add: c)
  obtain env1 where e1: "sys_open path env = (Inr ?c, env1)" "quiet_at F env1"
    using quiet_sys_open [OF assms(1), of path] assms(2) by auto
  obtain env2 where e2: "sys_call env1 = (None, env2)" "quiet_at F env2" using quiet_sys_call [OF e1(2)] by auto
  obtain env3 where e3: "readSSTableFooter ?c ?n env2 = (Inr (?fh, ?ih), env3)" "quiet_at F env3"
    using quiet_readSSTableFooter [OF e2(2) _ len v, of "?d @ table_block ?f @ table_block ?i"] c by auto
  obtain env4 where e4: "readBlock ?c ?n ?fh True env3 = (Inr ?f, env4)" "quiet_at F env4"
    using quiet_readBlock [OF e3(2) c _ len, of True] by auto
  obtain env5 where e5: "readBlock ?c ?n ?ih True env4 = (Inr ?i, env5)" "quiet_at F env5"
    using quiet_readBlock [OF e4(2) _ _ len, of "?d @ table_block ?f" ?i "putSSTableFooter [] ?fh ?ih" True] c
    by auto
  have "status_ok (bi_status (BlockIterator_new ?i))"
    using blk_iter.status_at [OF blk_new [OF table_ok_index [OF assms(3)]]]
    by (simp add: table_index_def BlockIterator_ops_def)
  then show ?thesis
    using assms(3,4) e1 e2 e3 e4 e5 by (simp add: SSTableReader_open_def Let_def reader_rep_def)
qed

subsection \<open>The size of a table\<close>

text \<open>A bound on the bytes an entry takes in a table.\<close>

definition entry_size :: "entry \<Rightarrow> nat" where
  "entry_size e = 2 * length (fst e) + length (snd e) + 60"

definition entries_size :: "entry list \<Rightarrow> nat" where
  "entries_size es = sum_list (map entry_size es)"

lemma entries_size_simps [simp]:
  "entries_size [] = 0" "entries_size (e # es) = entry_size e + entries_size es"
  "entries_size (es @ fs) = entries_size es + entries_size fs"
  by (simp_all add: entries_size_def)

lemma entry_size_le: "e \<in> set es \<Longrightarrow> entry_size e \<le> entries_size es"
  by (induction es) auto

lemma entries_size_length: "60 * length es \<le> entries_size es"
  by (induction es) (auto simp: entry_size_def)

lemma entry_offset_size:
  "n \<le> length es \<Longrightarrow> entry_offset r es n \<le> sum_list (map (\<lambda>e. 12 + length (fst e) + length (snd e)) (take n es))"
proof (induction n)
  case (Suc n)
  then show ?case by (simp add: entry_offset_Suc take_Suc_conv_app_nth)
qed simp

lemma block_bytes_size:
  assumes "es \<noteq> []"
  shows "length (block_bytes r es) \<le> sum_list (map (\<lambda>e. 16 + length (fst e) + length (snd e)) es) + 4"
proof -
  have "(length es - 1) div r \<le> length es - 1" by (rule div_le_dividend)
  then have "restart_number r (length es) \<le> length es"
    using assms by (cases es) (simp_all add: restart_number_def)
  moreover have "sum_list (map (\<lambda>e. 16 + length (fst e) + length (snd e)) es) =
      sum_list (map (\<lambda>e. 12 + length (fst e) + length (snd e)) es) + 4 * length es"
    by (induction es) auto
  ultimately show ?thesis
    using entry_offset_size [of "length es" es r] by (simp add: length_block_bytes)
qed

lemma data_bytes_size:
  "[] \<notin> set ess \<Longrightarrow> length (data_bytes r ess) \<le>
     sum_list (map (\<lambda>e. 25 + length (fst e) + length (snd e)) (concat ess))"
proof (induction ess)
  case (Cons es ess)
  then have ne: "es \<noteq> []" by auto
  have "sum_list (map (\<lambda>e. 25 + length (fst e) + length (snd e)) es) =
      sum_list (map (\<lambda>e. 16 + length (fst e) + length (snd e)) es) + 9 * length es"
    by (induction es) auto
  moreover have "9 \<le> 9 * length es" using ne by (cases es) auto
  ultimately show ?case
    using Cons block_bytes_size [OF ne, of r] by (simp add: data_bytes_def)
qed (simp add: data_bytes_def)

lemma index_entries_size:
  "[] \<notin> set ess \<Longrightarrow> sum_list (map (\<lambda>e. 16 + length (fst e) + length (snd e)) (index_entries r n ess)) \<le>
     sum_list (map (\<lambda>e. 32 + length (fst e)) (concat ess))"
proof (induction ess arbitrary: n)
  case (Cons es ess)
  then have ne: "es \<noteq> []" by auto
  then obtain ys y where "es = ys @ [y]" by (metis rev_exhaust)
  then show ?case using Cons.IH [of "n + length (block_bytes r es) + 5"] Cons.prems by simp
qed simp

lemma table_bytes_size:
  assumes "[] \<notin> set ess"
  shows "length (table_bytes r ess) \<le> entries_size (concat ess) + 100"
proof -
  let ?es = "concat ess" and ?ix = "index_entries r 0 ess"
  have f: "length (table_filter ?es) \<le> 2 * length ?es + 10"
    by (simp add: table_filter_def buildFilter_props(1) filter_bytes_def del: length_concat)
  have i: "length (table_index r ess) \<le> sum_list (map (\<lambda>e. 32 + length (fst e)) ?es) + 8"
  proof (cases "?ix = []")
    case True
    then show ?thesis by (simp add: table_index_def length_block_bytes restart_number_def)
  qed (use block_bytes_size [of ?ix r] index_entries_size [OF assms, of r 0] in \<open>simp add: table_index_def\<close>)
  have s: "entries_size es = sum_list (map (\<lambda>e. 25 + length (fst e) + length (snd e)) es) +
      sum_list (map (\<lambda>e. 32 + length (fst e)) es) + 3 * length es" for es
    by (induction es) (auto simp: entry_size_def)
  have "length (table_bytes r ess) = length (data_bytes r ess) + length (table_filter ?es) +
      length (table_index r ess) + 58"
    by (simp add: table_bytes_def Let_def)
  then show ?thesis
    using f i s [of ?es] data_bytes_size [OF assms, of r] by linarith
qed

lemma table_ok_sized:
  assumes "0 < r" "[] \<notin> set ess" "sorted_entries (concat ess)" "entries_size (concat ess) + 100 < 2 ^ 32"
  shows "table_ok r ess"
proof -
  have "fits e" if m: "e \<in> set (concat ess)" for e
    using entry_size_le [OF m] assms(4) by (simp add: fits_def entry_size_def)
  then show ?thesis using assms table_bytes_size [OF assms(2), of r] by (simp add: table_ok_def)
qed

subsection \<open>Opening in any environment\<close>

lemma readBlock_files: "readBlock content n h verify env = (res, env') \<Longrightarrow> env_files env' = env_files env"
  by (auto simp: readBlock_def readExactly_def env_read_def Let_def split: if_splits prod.splits sum.splits)

lemma readSSTableFooter_files:
  "readSSTableFooter content n env = (res, env') \<Longrightarrow> env_files env' = env_files env"
  by (auto simp: readSSTableFooter_def readExactly_def env_read_def Let_def split: if_splits prod.splits sum.splits)

lemma readSSTableFooter_any:
  assumes "readSSTableFooter content (of_nat (length content)) env = (Inr h, env')"
    and "content = a @ putSSTableFooter [] fh ih" "length content < 2 ^ 64"
  shows "h = (fh, ih)"
proof -
  define n where "n = length content"
  have n: "unat (of_nat n :: u64) = n" using assms(3) unfolding n_def by (rule unat_u64)
  have a: "n = length a + 48" using assms(2) by (simp add: n_def)
  have le: "(48 :: u64) \<le> of_nat n" using n a by (simp add: word_le_nat_alt del: of_nat_add)
  have sub: "unat (of_nat n - 48 :: u64) = length a" "\<not> (of_nat n :: u64) < 48"
    using unat_sub [OF le] le n a by simp_all
  obtain x env1 where x: "readExactly content (length a) 48 env = (x, env1)" by fastforce
  have "x = Inr (putSSTableFooter [] fh ih) \<or> (\<exists>s. x = Inl s \<and> \<not> status_ok s)"
    using readExactly_any [OF x] assms(2) by simp
  then show ?thesis
    using assms(1) sub x by (auto simp: readSSTableFooter_def n_def [symmetric] Let_def split: if_splits)
qed

lemma readBlock_Inl: "readBlock content n h verify env = (Inl s, env') \<Longrightarrow> \<not> status_ok s"
  by (auto simp: readBlock_def readExactly_def Let_def split: if_splits prod.splits sum.splits)

lemma readSSTableFooter_Inl: "readSSTableFooter content n env = (Inl s, env') \<Longrightarrow> \<not> status_ok s"
  by (auto simp: readSSTableFooter_def decodeSSTableFooter_def readExactly_def Let_def
      split: if_splits prod.splits sum.splits option.splits)

lemma open_files: "SSTableReader_open path env = (res, env') \<Longrightarrow> env_files env' = env_files env"
  by (auto simp: SSTableReader_open_def sys_open_def Let_def
      dest!: sys_call_files readBlock_files readSSTableFooter_files
      split: if_splits prod.splits sum.splits option.splits)

lemma open_Inl: "SSTableReader_open path env = (Inl s, env') \<Longrightarrow> \<not> status_ok s"
  by (auto simp: SSTableReader_open_def sys_open_def Let_def sstable_ioError_def
      dest!: readBlock_Inl readSSTableFooter_Inl split: if_splits prod.splits sum.splits option.splits)

lemma open_reader_any:
  assumes o: "SSTableReader_open path env = (Inr t, env')"
    and f: "env_files env path = Some (table_bytes r ess)" and ok: "table_ok r ess"
  shows "reader_rep r ess t"
proof -
  let ?c = "table_bytes r ess" and ?n = "of_nat (length (table_bytes r ess)) :: u64"
  let ?d = "data_bytes r ess" and ?f = "table_filter (concat ess)" and ?i = "table_index r ess"
  let ?fh = "\<lparr>bh_offset = of_nat (length ?d), bh_size = of_nat (length ?f)\<rparr>"
  let ?ih = "\<lparr>bh_offset = of_nat (length (?d @ table_block ?f)), bh_size = of_nat (length ?i)\<rparr>"
  have len: "length ?c < 2 ^ 64" using ok by (simp add: table_ok_def)
  have c: "?c = ?d @ table_block ?f @ table_block ?i @ putSSTableFooter [] ?fh ?ih"
    by (simp add: table_bytes_def Let_def add.assoc)
  obtain r1 env1 where e1: "sys_open path env = (r1, env1)" by fastforce
  then have r1: "r1 = Inr ?c"
    using o f sys_call_files by (fastforce simp: SSTableReader_open_def sys_open_def split: if_splits prod.splits option.splits)
  obtain r2 env2 where e2: "sys_call env1 = (r2, env2)" by fastforce
  obtain h env3 where e3: "readSSTableFooter ?c ?n env2 = (h, env3)" by fastforce
  obtain fh ih where h: "h = Inr (fh, ih)" "r2 = None"
    using o e1 e2 e3 r1 by (auto simp: SSTableReader_open_def Let_def split: if_splits sum.splits option.splits)
  then have hs: "fh = ?fh" "ih = ?ih"
    using readSSTableFooter_any [of ?c env2 "(fh, ih)" env3 "?d @ table_block ?f @ table_block ?i" ?fh ?ih] e3 len c by auto
  obtain r4 env4 where e4: "readBlock ?c ?n ?fh True env3 = (r4, env4)" by fastforce
  obtain r5 env5 where e5: "readBlock ?c ?n ?ih True env4 = (r5, env5)" by fastforce
  have "r4 = Inr ?f \<or> (\<exists>s. r4 = Inl s)" "r5 = Inr ?i \<or> (\<exists>s. r5 = Inl s)"
    using readBlock_any [OF e4 c len] readBlock_any [OF e5 _ len, of "putSSTableFooter [] ?fh ?ih"] c by auto
  then show ?thesis
    using o e1 e2 e3 e4 e5 r1 h ok unfolding hs by (auto simp: SSTableReader_open_def Let_def reader_rep_def split: if_splits)
qed

subsection \<open>Searching through the index\<close>

definition block_index :: "bytes \<Rightarrow> entry list list \<Rightarrow> nat" where
  "block_index target ess = length (takeWhile (\<lambda>es. InternalKeyLess (fst (last es)) target) ess)"

lemma block_index_le: "block_index target ess \<le> length ess"
  by (simp add: block_index_def takeWhile_length_le)

lemma lower_bound_index: "lower_bound (index_entries r n ess) target = block_index target ess"
  by (induction ess arbitrary: n) (simp_all add: lower_bound_def block_index_def)

lemma below_last:
  assumes "sorted_entries es" "wf_ikey target" "e \<in> set es" "InternalKeyLess (fst (last es)) target"
  shows "InternalKeyLess (fst e) target"
proof -
  have "e = last es \<or> entry_less e (last es)"
    using assms(1,3) by (induction es) (auto simp: sorted_entries_Cons split: if_splits)
  moreover have "last es \<in> set es" using assms(3) by (metis last_in_set length_pos_if_in_set length_greater_0_conv)
  then have "wf_ikey (fst e)" "wf_ikey (fst (last es))"
    using assms(1,3) by (auto simp: sorted_entries_def)
  ultimately show ?thesis
    using assms(2,4) wfkey.less_trans by (metis entry_less_def)
qed

lemma lower_bound_blocks:
  assumes "[] \<notin> set ess" "sorted_entries (concat ess)" "wf_ikey target"
  shows "(block_index target ess < length ess \<longrightarrow>
       lower_bound (ess ! block_index target ess) target < length (ess ! block_index target ess)) \<and>
    lower_bound (concat ess) target = length (concat (take (block_index target ess) ess)) +
      (if block_index target ess < length ess then lower_bound (ess ! block_index target ess) target else 0)"
  using assms(1,2)
proof (induction ess)
  case (Cons es ess)
  let ?P = "\<lambda>e. InternalKeyLess (fst e) target"
  have p: "es \<noteq> []" "[] \<notin> set ess" "sorted_entries es" "sorted_entries (concat ess)"
    using Cons.prems by (auto simp: sorted_entries_append)
  show ?case
  proof (cases "?P (last es)")
    case True
    then have "takeWhile ?P (es @ concat ess) = es @ takeWhile ?P (concat ess)"
      using below_last [OF p(3) assms(3)] by (simp add: takeWhile_append2)
    then show ?thesis
      using True Cons.IH [OF p(2,4)] by (auto simp: lower_bound_def block_index_def)
  next
    case False
    then have "takeWhile ?P (es @ concat ess) = takeWhile ?P es"
      using p(1) takeWhile_append1 [of "last es" es ?P] by simp
    moreover have "length (takeWhile ?P es) \<noteq> length es"
      using False p(1) takeWhile_eq_all_conv [of ?P es]
      by (metis append_eq_conv_conj last_in_set takeWhile_dropWhile_id take_all_iff order_refl)
    then have "length (takeWhile ?P es) < length es" using takeWhile_length_le [of ?P es] by simp
    ultimately show ?thesis using False by (simp add: lower_bound_def block_index_def)
  qed
qed (simp add: lower_bound_def block_index_def)

subsection \<open>Point lookups\<close>

lemma blk_atD:
  assumes "blk_at it es i"
  shows "status_ok (bi_status it)" "bi_valid it \<longleftrightarrow> i < length es"
    "i < length es \<Longrightarrow> bi_key it = fst (es ! i) \<and> bi_value it = snd (es ! i)"
  using assms by (auto simp: blk_at_def blk_frame_def split: if_splits)

lemma blk_new_seek:
  assumes "blk_ok r es" "wf_ikey target"
  shows "blk_at (BlockIterator_seek target (BlockIterator_new (block_bytes r es))) es (lower_bound es target)"
    and "status_ok (bi_status (BlockIterator_new (block_bytes r es)))"
  using blk_new [OF assms(1)] blk_at_frame blk_at_seek assms(2) blk_atD(1) by blast+

lemma getBlockHandle_put_Nil [simp]: "getBlockHandle (putBlockHandle [] h) = Some (h, [])"
  using getBlockHandle_put [of h "[]"] by simp

text \<open>A lookup is decided without reading, or by the one block that may hold the key.\<close>

definition block_handle :: "nat \<Rightarrow> entry list list \<Rightarrow> nat \<Rightarrow> BlockHandle" where
  "block_handle r ess j = \<lparr>bh_offset = of_nat (length (data_bytes r (take j ess))),
     bh_size = of_nat (length (block_bytes r (ess ! j)))\<rparr>"

lemma reader_get_cases:
  fixes key :: bytes and options :: ReadOptions
  assumes rep: "reader_rep r ess t" and seq: "sequence \<le> kMaxSequenceNumber"
  defines "res \<equiv> Inr (lookup_in (concat ess) key sequence)"
    and "get \<equiv> SSTableReader_get options key sequence t"
    and "rd \<equiv> \<lambda>j. readBlock (sr_content t) (sr_file_size t) (block_handle r ess j) (ro_verify_checksums options)"
  shows "(\<forall>env. get env = (res, env)) \<or>
    (\<exists>j < length ess. \<forall>env env'. (\<forall>s. rd j env = (Inl s, env') \<longrightarrow> get env = (Inl s, env')) \<and>
       (rd j env = (Inr (block_bytes r (ess ! j)), env') \<longrightarrow> get env = (res, env')))"
proof (cases "bloomFilterMayContain key (sr_filter_block t)")
  case False
  then have "key \<notin> set (map entry_user (concat ess))"
    using rep buildFilter_contains [of key "map entry_user (concat ess)"]
    by (auto simp: reader_rep_def table_filter_def comp_def)
  then have "lookup_in (concat ess) key sequence = Absent"
    unfolding lookup_in_Absent by (auto simp: visible_def)
  then show ?thesis using False by (simp add: SSTableReader_get_def res_def get_def)
next
  case True
  let ?k = "encodeInternalKey key sequence kValue" and ?ie = "index_entries r 0 ess"
  let ?j = "block_index ?k ess"
  have ok: "table_ok r ess" and t: "sr_index_block t = block_bytes r ?ie"
    using rep by (auto simp: reader_rep_def table_index_def)
  have wf: "wf_ikey ?k" using seq by (rule wf_ikey_encode)
  have s: "[] \<notin> set ess" "sorted_entries (concat ess)" using ok by (auto simp: table_ok_def)
  note lb = lower_bound_blocks [OF s wf] and at = lookup_at_lower_bound [OF s(2) seq, of key]
  define ix where "ix = BlockIterator_seek ?k (BlockIterator_new (block_bytes r ?ie))"
  have ix: "blk_at ix ?ie ?j" "status_ok (bi_status (BlockIterator_new (block_bytes r ?ie)))"
    using blk_new_seek [OF table_ok_index [OF ok] wf] by (simp_all add: ix_def lower_bound_index)
  note d = blk_atD [OF ix(1)]
  show ?thesis
  proof (cases "?j < length ess")
    case False
    have "?j = length ess" using False block_index_le [of ?k ess] by simp
    then have "lookup_in (concat ess) key sequence = Absent" using lb at by (simp add: Let_def)
    then show ?thesis
      using True ix d False by (simp add: SSTableReader_get_def t Let_def res_def get_def flip: ix_def)
  next
    case j: True
    let ?es = "ess ! ?j"
    have v: "bi_value ix = putBlockHandle [] (block_handle r ess ?j)"
      using d(3) j by (simp add: index_entries_nth block_handle_def)
    define da where "da = BlockIterator_seek ?k (BlockIterator_new (block_bytes r ?es))"
    have da: "blk_at da ?es (lower_bound ?es ?k)" "status_ok (bi_status (BlockIterator_new (block_bytes r ?es)))"
      using blk_new_seek [OF table_ok_block [OF ok j] wf] by (simp_all add: da_def)
    note e = blk_atD [OF da(1)]
    have l: "lower_bound ?es ?k < length ?es"
      "lower_bound (concat ess) ?k = length (concat (take ?j ess)) + lower_bound ?es ?k"
      using lb j by auto
    let ?e = "?es ! lower_bound ?es ?k"
    have ee: "concat ess ! lower_bound (concat ess) ?k = ?e"
      "lower_bound (concat ess) ?k < length (concat ess)"
      unfolding l(2) using concat_nth(1,2) [OF j l(1)] by simp_all
    have p: "parseInternalKey (fst ?e) =
        Some \<lparr>pk_user_key = entry_user ?e, pk_sequence = entry_seq ?e, pk_type = entry_type ?e\<rparr>"
      using entry_encode(3) blk_okD(2) [OF table_ok_block [OF ok j] l(1)] by blast
    have r: "res = Inr (if entry_user ?e \<noteq> key then Absent else entry_result ?e)"
      using ee at by (simp add: Let_def res_def)
    have "(\<forall>s. rd ?j env = (Inl s, env') \<longrightarrow> get env = (Inl s, env')) \<and>
       (rd ?j env = (Inr (block_bytes r ?es), env') \<longrightarrow> get env = (res, env'))" for env env'
      unfolding r using True ix(2) d(1,2) j v da(2) e l(1) p
      by (auto simp: SSTableReader_get_def t Let_def entry_result_def get_def rd_def simp flip: ix_def da_def)
    then show ?thesis using j by blast
  qed
qed

text \<open>
  So a lookup in the list of entries: always when reads are at most delayed, and otherwise
  unless a read fails.
\<close>

lemma reader_get:
  assumes rep: "reader_rep r ess t" and seq: "sequence \<le> kMaxSequenceNumber"
    and get: "SSTableReader_get options key sequence t env = (res, env')"
  shows "res = Inr (lookup_in (concat ess) key sequence) \<or> (\<exists>s. res = Inl s \<and> \<not> status_ok s)"
    and "quiet_at F env \<Longrightarrow> res = Inr (lookup_in (concat ess) key sequence) \<and> quiet_at F env'"
proof -
  let ?rd = "\<lambda>j. readBlock (sr_content t) (sr_file_size t) (block_handle r ess j) (ro_verify_checksums options)"
  note g = reader_get_cases [OF rep seq, of options key]
  from g show "res = Inr (lookup_in (concat ess) key sequence) \<or> (\<exists>s. res = Inl s \<and> \<not> status_ok s)"
  proof (elim disjE exE conjE)
    fix j assume j: "j < length ess" "\<forall>env env'. (\<forall>s. ?rd j env = (Inl s, env') \<longrightarrow>
        SSTableReader_get options key sequence t env = (Inl s, env')) \<and>
       (?rd j env = (Inr (block_bytes r (ess ! j)), env') \<longrightarrow>
        SSTableReader_get options key sequence t env = (Inr (lookup_in (concat ess) key sequence), env'))"
    obtain x env1 where x: "?rd j env = (x, env1)" by fastforce
    then show ?thesis
      using reader_block_any [OF rep j(1), folded block_handle_def, OF x] j(2) get by fastforce
  qed (use get in simp)
  assume q: "quiet_at F env"
  from g show "res = Inr (lookup_in (concat ess) key sequence) \<and> quiet_at F env'"
  proof (elim disjE exE conjE)
    fix j assume j: "j < length ess" "\<forall>env env'. (\<forall>s. ?rd j env = (Inl s, env') \<longrightarrow>
        SSTableReader_get options key sequence t env = (Inl s, env')) \<and>
       (?rd j env = (Inr (block_bytes r (ess ! j)), env') \<longrightarrow>
        SSTableReader_get options key sequence t env = (Inr (lookup_in (concat ess) key sequence), env'))"
    then show ?thesis
      using reader_block [OF rep j(1) q, folded block_handle_def, of "ro_verify_checksums options"] get by fastforce
  qed (use get q in simp)
qed

subsection \<open>The iterator\<close>

definition tab_frame :: "nat \<Rightarrow> entry list list \<Rightarrow> SSTableIterator \<Rightarrow> bool" where
  "tab_frame r ess it \<longleftrightarrow> reader_rep r ess (si_table it) \<and> status_ok (si_status it) \<and> quiet (si_env it)"

definition tab_at :: "SSTableIterator \<Rightarrow> entry list \<Rightarrow> nat \<Rightarrow> bool" where
  "tab_at it es i \<longleftrightarrow> (\<exists>r ess j. tab_frame r ess it \<and> es = concat ess \<and>
     blk_at (si_index it) (index_entries r 0 ess) j \<and>
     (case si_data it of
        None \<Rightarrow> i = length es
      | Some data \<Rightarrow> j < length ess \<and> (\<exists>k < length (ess ! j).
          blk_at data (ess ! j) k \<and> i = length (concat (take j ess)) + k)))"

lemma tab_frame_update [simp]:
  "tab_frame r ess (it\<lparr>si_index := ix\<rparr>) = tab_frame r ess it"
  "tab_frame r ess (it\<lparr>si_data := d\<rparr>) = tab_frame r ess it"
  "tab_frame r ess (it\<lparr>si_data_block := b\<rparr>) = tab_frame r ess it"
  by (simp_all add: tab_frame_def)

lemma tab_at_Some:
  assumes "tab_frame r ess it" "blk_at (si_index it) (index_entries r 0 ess) j" "si_data it = Some d"
    and "j < length ess" "k < length (ess ! j)" "blk_at d (ess ! j) k"
  shows "tab_at it (concat ess) (length (concat (take j ess)) + k)"
  unfolding tab_at_def using assms by fastforce

lemma tab_at_None:
  assumes "tab_frame r ess it" "blk_at (si_index it) (index_entries r 0 ess) j" "si_data it = None"
  shows "tab_at it (concat ess) (length (concat ess))"
  unfolding tab_at_def using assms by fastforce

lemma load_at:
  assumes fr: "tab_frame r ess it" and ix: "blk_at (si_index it) (index_entries r 0 ess) j"
    and j: "j < length ess"
  shows "\<exists>d. si_data (SSTableIterator_loadDataBlock it) = Some d \<and> blk_at d (ess ! j) 0 \<and>
    si_index (SSTableIterator_loadDataBlock it) = si_index it \<and>
    tab_frame r ess (SSTableIterator_loadDataBlock it) \<and> 0 < length (ess ! j)"
proof -
  let ?es = "ess ! j"
  let ?h = "\<lparr>bh_offset = of_nat (length (data_bytes r (take j ess))), bh_size = of_nat (length (block_bytes r ?es))\<rparr>"
  have rep: "reader_rep r ess (si_table it)" and ok: "table_ok r ess" and q: "quiet (si_env it)"
    using fr by (auto simp: tab_frame_def reader_rep_def)
  have ne: "0 < length ?es" using ok j block_nonempty by (auto simp: table_ok_def)
  have v: "bi_value (si_index it) = putBlockHandle [] ?h"
    using blk_atD(3) [OF ix] j by (simp add: index_entries_nth)
  obtain env' where rd: "readBlock (sr_content (si_table it)) (sr_file_size (si_table it)) ?h
      (ro_verify_checksums (si_options it)) (si_env it) = (Inr (block_bytes r ?es), env')" "quiet env'"
    using reader_block [OF rep j q [folded quiet_at_self]] unfolding quiet_at_def by blast
  let ?d = "BlockIterator_seekToFirst (BlockIterator_new (block_bytes r ?es))"
  note new = blk_new [OF table_ok_block [OF ok j]]
  have d: "blk_at ?d ?es 0" using blk_at_frame [OF new] blk_at_first by blast
  have "SSTableIterator_loadDataBlock it = it\<lparr>si_status := success, si_data_block := block_bytes r ?es,
      si_env := env', si_data := Some ?d\<rparr>"
    using v rd(1) blk_atD(1) [OF new] blk_atD(1,2) [OF d] ne
    by (simp add: SSTableIterator_loadDataBlock_def Let_def)
  then show ?thesis using d ne rd(2) rep by (simp add: tab_frame_def)
qed

lemma tab_at_load:
  assumes "tab_frame r ess it" "blk_at (si_index it) (index_entries r 0 ess) j" "j < length ess"
  shows "tab_at (SSTableIterator_loadDataBlock it) (concat ess) (length (concat (take j ess)))"
  using load_at [OF assms] tab_at_Some [of r ess "SSTableIterator_loadDataBlock it" j _ 0] assms by fastforce

lemma index_seek:
  assumes "tab_frame r ess it" "blk_at (si_index it) (index_entries r 0 ess) j"
  shows "blk_at (BlockIterator_seekToFirst (si_index it)) (index_entries r 0 ess) 0"
    and "wf_ikey target \<Longrightarrow> blk_at (BlockIterator_seek target (si_index it)) (index_entries r 0 ess) (block_index target ess)"
  using blk_at_frame [OF assms(2)] blk_at_first blk_at_seek lower_bound_index by metis+

lemma tab_at_first:
  assumes "tab_at it es i"
  shows "tab_at (SSTableIterator_seekToFirst it) es 0"
proof -
  obtain r ess j where fr: "tab_frame r ess it" and es: "es = concat ess"
    and ix: "blk_at (si_index it) (index_entries r 0 ess) j" using assms by (auto simp: tab_at_def)
  note ix' = index_seek(1) [OF fr ix]
  let ?it = "it\<lparr>si_data := None, si_data_block := [], si_index := BlockIterator_seekToFirst (si_index it)\<rparr>"
  have fr': "tab_frame r ess ?it" and "status_ok (si_status it)" using fr by (simp_all add: tab_frame_def)
  then show ?thesis
    using tab_at_load [OF fr', of 0] tab_at_None [OF fr', of 0] ix' blk_atD(1,2) [OF ix'] es
    by (cases "ess = []") (simp_all add: SSTableIterator_seekToFirst_def Let_def)
qed

lemma tab_at_seek:
  assumes at: "tab_at it es i" and wf: "wf_ikey target"
  shows "tab_at (SSTableIterator_seek target it) es (lower_bound es target)"
proof -
  obtain r ess j where fr: "tab_frame r ess it" and es: "es = concat ess"
    and ix: "blk_at (si_index it) (index_entries r 0 ess) j" using at by (auto simp: tab_at_def)
  let ?j = "block_index target ess"
  note ix' = index_seek(2) [OF fr ix wf]
  let ?it = "it\<lparr>si_data := None, si_data_block := [], si_index := BlockIterator_seek target (si_index it)\<rparr>"
  have fr': "tab_frame r ess ?it" and ok: "status_ok (si_status it)" "table_ok r ess"
    using fr by (auto simp: tab_frame_def reader_rep_def)
  have p: "parseInternalKey target \<noteq> None" using wf by (simp add: wf_ikey_def)
  have lb: "(?j < length ess \<longrightarrow> lower_bound (ess ! ?j) target < length (ess ! ?j)) \<and>
      lower_bound es target = length (concat (take ?j ess)) + (if ?j < length ess then lower_bound (ess ! ?j) target else 0)"
    using lower_bound_blocks [OF _ _ wf, of ess] ok(2) es by (simp add: table_ok_def)
  show ?thesis
  proof (cases "?j < length ess")
    case False
    then have "?j = length ess" using block_index_le [of target ess] by simp
    then have "SSTableIterator_seek target it = ?it" "lower_bound es target = length es"
      using ok p blk_atD(1,2) [OF ix'] lb es by (auto simp: SSTableIterator_seek_def Let_def)
    then show ?thesis using tab_at_None [OF fr', of ?j] ix' es by simp
  next
    case True
    let ?l = "SSTableIterator_loadDataBlock ?it"
    obtain d where d: "si_data ?l = Some d" "blk_at d (ess ! ?j) 0" "tab_frame r ess ?l"
      "si_index ?l = BlockIterator_seek target (si_index it)"
      using load_at [OF fr' _ True] ix' by auto
    have sk: "blk_at (BlockIterator_seek target d) (ess ! ?j) (lower_bound (ess ! ?j) target)"
      using blk_at_frame [OF d(2)] blk_at_seek wf by blast
    have "SSTableIterator_seek target it = ?l\<lparr>si_data := Some (BlockIterator_seek target d)\<rparr>"
      using ok p blk_atD(1,2) [OF ix'] blk_atD(1,2) [OF sk] lb True d(1,3)
      by (auto simp: SSTableIterator_seek_def Let_def tab_frame_def)
    then show ?thesis
      using tab_at_Some [of r ess "?l\<lparr>si_data := Some (BlockIterator_seek target d)\<rparr>" ?j _ "lower_bound (ess ! ?j) target"]
        d(3,4) ix' sk True lb es by simp
  qed
qed

lemma tab_at_next:
  assumes at: "tab_at it es i" and i: "i < length es"
  shows "tab_at (SSTableIterator_next it) es (Suc i)"
proof -
  obtain r ess j where fr: "tab_frame r ess it" and es: "es = concat ess"
    and ix: "blk_at (si_index it) (index_entries r 0 ess) j"
    and c: "case si_data it of None \<Rightarrow> i = length es
      | Some data \<Rightarrow> j < length ess \<and> (\<exists>k < length (ess ! j).
          blk_at data (ess ! j) k \<and> i = length (concat (take j ess)) + k)"
    using at by (auto simp: tab_at_def)
  obtain d k where d: "si_data it = Some d" "j < length ess" "k < length (ess ! j)" "blk_at d (ess ! j) k"
    "i = length (concat (take j ess)) + k"
    using c i by (auto split: option.splits)
  note nx = blk_at_next [OF d(4,3)]
  note len = concat_nth(3) [OF d(2,3)]
  show ?thesis
  proof (cases "Suc k < length (ess ! j)")
    case True
    then have "SSTableIterator_next it = it\<lparr>si_data := Some (BlockIterator_next d)\<rparr>"
      using d(1) blk_atD(1,2) [OF nx] by (simp add: SSTableIterator_next_def Let_def)
    then show ?thesis
      using tab_at_Some [of r ess "it\<lparr>si_data := Some (BlockIterator_next d)\<rparr>" j _ "Suc k"] fr ix d nx True es
      by simp
  next
    case False
    then have k: "Suc k = length (ess ! j)" using d(3) by simp
    have jx: "j < length (index_entries r 0 ess)" using d(2) by simp
    note ix' = blk_at_next [OF ix jx]
    let ?it = "it\<lparr>si_index := BlockIterator_next (si_index it), si_data := None\<rparr>"
    have fr': "tab_frame r ess ?it" using fr by simp
    have pos: "Suc i = length (concat (take (Suc j) ess))" using len d(5) k by simp
    have eq: "SSTableIterator_next it =
        (if Suc j < length ess then SSTableIterator_loadDataBlock ?it else ?it)"
      using d(1) blk_atD(1,2) [OF nx] blk_atD(1,2) [OF ix'] k by (simp add: SSTableIterator_next_def Let_def)
    show ?thesis
    proof (cases "Suc j < length ess")
      case True
      then show ?thesis using eq tab_at_load [OF fr' _ True] ix' pos es by simp
    next
      case False
      then have "concat (take (Suc j) ess) = es" using es by simp
      then show ?thesis using eq False tab_at_None [OF fr', of "Suc j"] ix' pos es by simp
    qed
  qed
qed

lemma tab_at_new:
  assumes "reader_rep r ess t" "quiet env"
  shows "tab_at (SSTableReader_newIterator options t env) (concat ess) (length (concat ess))"
proof -
  have ok: "table_ok r ess" "sr_index_block t = block_bytes r (index_entries r 0 ess)"
    using assms(1) by (auto simp: reader_rep_def table_index_def)
  note new = blk_new [OF table_ok_index [OF ok(1)]]
  show ?thesis
    using assms ok new blk_atD(1) [OF new]
    by (intro tab_at_None) (auto simp: SSTableReader_newIterator_def tab_frame_def)
qed

lemma tab_atD:
  assumes "tab_at it es i"
  shows "sorted_entries es" "i \<le> length es" "status_ok (si_status it)"
    and "SSTableIterator_valid it \<longleftrightarrow> i < length es"
    and "i < length es \<Longrightarrow> SSTableIterator_internalKey it = fst (es ! i) \<and> SSTableIterator_value it = snd (es ! i)"
proof -
  obtain r ess j where fr: "tab_frame r ess it" and es: "es = concat ess"
    and c: "case si_data it of None \<Rightarrow> i = length es
      | Some data \<Rightarrow> j < length ess \<and> (\<exists>k < length (ess ! j).
          blk_at data (ess ! j) k \<and> i = length (concat (take j ess)) + k)"
    using assms by (auto simp: tab_at_def)
  show "sorted_entries es" "status_ok (si_status it)"
    using fr es by (auto simp: tab_frame_def reader_rep_def table_ok_def)
  note ok = this
  show "i \<le> length es" "SSTableIterator_valid it \<longleftrightarrow> i < length es"
    "i < length es \<Longrightarrow> SSTableIterator_internalKey it = fst (es ! i) \<and> SSTableIterator_value it = snd (es ! i)"
  proof (atomize (full), cases "si_data it")
    case None
    then show "i \<le> length es \<and> SSTableIterator_valid it = (i < length es) \<and>
      (i < length es \<longrightarrow> SSTableIterator_internalKey it = fst (es ! i) \<and> SSTableIterator_value it = snd (es ! i))"
      using c by (simp add: SSTableIterator_valid_def)
  next
    case (Some d)
    then obtain k where k: "j < length ess" "k < length (ess ! j)" "blk_at d (ess ! j) k"
      "i = length (concat (take j ess)) + k" using c by auto
    then show "i \<le> length es \<and> SSTableIterator_valid it = (i < length es) \<and>
      (i < length es \<longrightarrow> SSTableIterator_internalKey it = fst (es ! i) \<and> SSTableIterator_value it = snd (es ! i))"
      using concat_nth(1,2) [OF k(1,2)] blk_atD(2,3) [OF k(3)] ok es Some
      by (simp add: SSTableIterator_valid_def SSTableIterator_internalKey_def SSTableIterator_value_def)
  qed
qed

interpretation tab_iter: internal_iterator SSTableIterator_ops tab_at
  by unfold_locales
    (simp_all add: SSTableIterator_ops_def tab_atD tab_at_first tab_at_seek tab_at_next)

subsection \<open>Written, then read\<close>

definition built :: "string \<Rightarrow> SSTableBuilderOptions \<Rightarrow> entry list \<Rightarrow> Env \<Rightarrow> Env \<Rightarrow> bool" where
  "built path options es env env' \<longleftrightarrow> (\<exists>b0 env0 status b1 env1 meta b2.
     SSTableBuilder_open path options env = (Inr b0, env0) \<and>
     add_all es b0 env0 = (status, b1, env1) \<and>
     SSTableBuilder_finish b1 env1 = (Inr meta, b2, env'))"

lemma built_table:
  assumes "built path options es env env'" "es \<noteq> []" "sorted_entries es" "\<forall>e \<in> set es. fits e"
    and "env_files env' path = Some content" "length content < 2 ^ 32" "length es < 2 ^ 32"
  shows "\<exists>ess. concat ess = es \<and> content = table_bytes (sbo_restart_interval options) ess \<and>
    table_ok (sbo_restart_interval options) ess \<and> path \<noteq> []"
proof -
  let ?r = "sbo_restart_interval options"
  obtain b0 env0 status b1 env1 meta b2 where b:
    "SSTableBuilder_open path options env = (Inr b0, env0)"
    "add_all es b0 env0 = (status, b1, env1)"
    "SSTableBuilder_finish b1 env1 = (Inr meta, b2, env')"
    using assms(1) by (auto simp: built_def)
  note o = open_outcome [OF b(1)]
  have p: "path \<noteq> []" using b(1) by (auto simp: SSTableBuilder_open_def split: if_splits)
  have wf: "\<forall>e \<in> set es. wf_ikey (fst e)" using assms(3) by (simp add: sorted_entries_def)
  have r: "0 < ?r" using o(1) by (auto simp: tb_rep_def builder_rep_def)
  have l: "length (concat [] @ ([] :: entry list)) + length es < 2 ^ 64" using assms(7) by simp
  note a = add_all_outcome [OF o(1) wf l b(2)]
  have "status_ok status"
    using a failed_stays(2) b(3) by fastforce
  then obtain ess cur where e: "concat ess @ cur = es" "tb_rep ?r ess cur path (env_files env) b1 env1"
    using a by auto
  obtain ess' where f: "concat ess' = es" "[] \<notin> set ess'"
    "env_files env' = (env_files env)(path \<mapsto> table_bytes ?r ess')"
    using finish_outcome [OF e(2) _ b(3)] e(1) assms(2) by blast
  have "content = table_bytes ?r ess'" using f(3) assms(5) by simp
  then show ?thesis using f assms(3,4,6) r p by (auto simp: table_ok_def)
qed

text \<open>A table of one small entry, for the examples.\<close>

lemma singleton_blocks: "concat ess = [e] \<Longrightarrow> [] \<notin> set ess \<Longrightarrow> ess = [[e]]"
  by (cases ess; cases "tl ess") (auto simp: append_eq_Cons_conv)

lemma small_table:
  assumes "wf_ikey k" "length k \<le> 1000" "length v \<le> 1000"
  shows "\<exists>env' content. built ''t'' \<lparr>sbo_block_size = 4096, sbo_restart_interval = 16\<rparr> [(k, v)]
      \<lparr>env_files = Map.empty, env_io = [], env_sync = [], env_call = []\<rparr> env' \<and>
    env_files env' ''t'' = Some content \<and> length content < 2 ^ 32"
proof -
  let ?env = "\<lparr>env_files = Map.empty, env_io = [], env_sync = [], env_call = []\<rparr>"
  let ?o = "\<lparr>sbo_block_size = 4096, sbo_restart_interval = 16\<rparr>"
  have wf: "\<forall>e \<in> set [(k, v)]. wf_ikey (fst e)" using assms(1) by simp
  obtain b0 env0 b1 env1 meta b2 env2 status where
    r: "SSTableBuilder_open ''t'' ?o ?env = (Inr b0, env0)" "add_all [(k, v)] b0 env0 = (status, b1, env1)"
    "SSTableBuilder_finish b1 env1 = (Inr meta, b2, env2)" "status_ok status"
    using build_runs [of ?env "''t''" ?o "[(k, v)]"] wf by (auto simp: quiet_def)
  note o = open_outcome(1) [OF r(1)]
  obtain ess cur where e: "concat ess @ cur = [(k, v)]" "tb_rep 16 ess cur ''t'' Map.empty b1 env1"
    using add_all_outcome [OF o wf _ r(2)] r(4) by auto
  obtain ess' where f: "concat ess' = [(k, v)]" "[] \<notin> set ess'"
    "env_files env2 = [''t'' \<mapsto> table_bytes 16 ess']"
    using finish_outcome [OF e(2) _ r(3)] e(1) by auto
  have "ess' = [[(k, v)]]" using f(1,2) by (rule singleton_blocks)
  moreover have "length (table_bytes 16 [[(k, v)]]) < 2 ^ 32"
    using assms(2,3)
    by (simp add: table_bytes_def Let_def data_bytes_def table_filter_def buildFilter_props(1)
        filter_bytes_def table_index_def length_block_bytes entry_offset_Suc restart_number_def)
  ultimately show ?thesis using r f(3) unfolding built_def by auto
qed

subsection \<open>Properties\<close>

text \<open>
  C4. Whatever happened while a table was built, once the builder reported success the table
  opens and every point lookup answers with the newest version of the key that is not newer than
  the sequence number, a tombstone included, exactly as a lookup in the list of entries.  Read
  errors can only turn an answer into an error status, never into a wrong answer.
\<close>

theorem sstable_lookup_roundtrip:
  assumes "built path options es env0 env1" and "es \<noteq> []" and "sorted_entries es"
    and "\<forall>e \<in> set es. fits e" and "length es < 2 ^ 32"
    and "env_files env1 path = Some content" and "length content < 2 ^ 32"
    and "quiet env2" and "env_files env2 path = Some content" and "sequence \<le> kMaxSequenceNumber"
  shows "\<exists>t env3. SSTableReader_open path env2 = (Inr t, env3) \<and>
    fst (SSTableReader_get ropts key sequence t env3) = Inr (lookup_in es key sequence) \<and>
    (\<forall>env4 res. fst (SSTableReader_get ropts key sequence t env4) = Inr res \<longrightarrow>
       res = lookup_in es key sequence)"
proof -
  let ?r = "sbo_restart_interval options"
  obtain ess where e: "concat ess = es" "content = table_bytes ?r ess" "table_ok ?r ess" "path \<noteq> []"
    using built_table [OF assms(1-4,6,7,5)] by blast
  obtain t env3 where o: "SSTableReader_open path env2 = (Inr t, env3)" "reader_rep ?r ess t"
    "quiet_at (env_files env2) env3"
    using open_reader [OF assms(8) [folded quiet_at_self] _ e(3,4)] assms(9) e(2) by blast
  have any: "res = lookup_in es key sequence"
    if "fst (SSTableReader_get ropts key sequence t env4) = Inr res" for env4 res
    using reader_get(1) [OF o(2) assms(10), of ropts key env4] that e(1) by (metis Inl_Inr_False Inr_inject prod.collapse)
  have "fst (SSTableReader_get ropts key sequence t env3) = Inr (lookup_in es key sequence)"
    using reader_get(2) [OF o(2) assms(10) _ o(3), of ropts key] e(1) by (metis prod.collapse)
  then show ?thesis using o(1) any by blast
qed

theorem sstable_lookup_roundtrip_witness:
  "\<exists>content t env3. SSTableReader_open ''t''
      \<lparr>env_files = [''t'' \<mapsto> content], env_io = [Count 3], env_sync = [], env_call = []\<rparr> = (Inr t, env3) \<and>
    fst (SSTableReader_get \<lparr>ro_snapshot = None, ro_verify_checksums = True, ro_cache_mode = kFill\<rparr>
      [1] 5 t env3) = Inr (Found [2])"
proof -
  let ?k = "encodeInternalKey [1] 3 kValue"
  have wf: "wf_ikey ?k" by (simp add: wf_ikey_encode kMaxSequenceNumber_def)
  obtain env1 content where b: "built ''t'' \<lparr>sbo_block_size = 4096, sbo_restart_interval = 16\<rparr> [(?k, [2])]
      \<lparr>env_files = Map.empty, env_io = [], env_sync = [], env_call = []\<rparr> env1"
    "env_files env1 ''t'' = Some content" "length content < 2 ^ 32"
    using small_table [OF wf, of "[2]"] by auto
  have "lookup_in [(?k, [2])] [1] 5 = Found [2]"
    by (simp add: lookup_in_def visible_def entry_result_def kMaxSequenceNumber_def)
  then show ?thesis
    using sstable_lookup_roundtrip [OF b(1) _ _ _ _ b(2,3), of
        "\<lparr>env_files = [''t'' \<mapsto> content], env_io = [Count 3], env_sync = [], env_call = []\<rparr>" 5
        "\<lparr>ro_snapshot = None, ro_verify_checksums = True, ro_cache_mode = kFill\<rparr>" "[1]"] wf
    by (auto simp: sorted_entries_def fits_def quiet_def kMaxSequenceNumber_def)
qed

text \<open>
  C10. Iterating such a table yields exactly the entries it was built from, in order, and seeking
  yields exactly the entries that are not before the target.
\<close>

theorem sstable_scan_roundtrip:
  assumes "built path options es env0 env1" and "es \<noteq> []" and "sorted_entries es"
    and "\<forall>e \<in> set es. fits e" and "length es < 2 ^ 32"
    and "env_files env1 path = Some content" and "length content < 2 ^ 32"
    and "quiet env2" and "env_files env2 path = Some content"
    and "wf_ikey target" and "length target < 2 ^ 32"
  shows "\<exists>t env3. SSTableReader_open path env2 = (Inr t, env3) \<and>
    (let it = SSTableReader_newIterator ropts t env3 in
     iter_scan SSTableIterator_ops (length es) (SSTableIterator_seekToFirst it) = es \<and>
     iter_scan SSTableIterator_ops (length es) (SSTableIterator_seek target it) =
       dropWhile (\<lambda>e. InternalKeyLess (fst e) target) es)"
proof -
  let ?r = "sbo_restart_interval options"
  obtain ess where e: "concat ess = es" "content = table_bytes ?r ess" "table_ok ?r ess" "path \<noteq> []"
    using built_table [OF assms(1-4,6,7,5)] by blast
  obtain t env3 where o: "SSTableReader_open path env2 = (Inr t, env3)" "reader_rep ?r ess t"
    "quiet env3"
    using open_reader [OF assms(8) [folded quiet_at_self] _ e(3,4)] assms(9) e(2)
    unfolding quiet_at_def by blast
  note at = tab_at_new [OF o(2,3), of ropts, unfolded e(1)]
  show ?thesis
    using o(1) tab_iter.scan_first [OF at order_refl] tab_iter.scan_seek [OF at order_refl assms(10,11)]
    by (auto simp: SSTableIterator_ops_def Let_def)
qed

theorem sstable_scan_roundtrip_witness:
  "\<exists>content t env3. SSTableReader_open ''t''
      \<lparr>env_files = [''t'' \<mapsto> content], env_io = [Count 3], env_sync = [], env_call = []\<rparr> = (Inr t, env3) \<and>
    iter_scan SSTableIterator_ops 1 (SSTableIterator_seekToFirst
      (SSTableReader_newIterator \<lparr>ro_snapshot = None, ro_verify_checksums = True, ro_cache_mode = kFill\<rparr> t env3)) =
    [(encodeInternalKey [1] 3 kValue, [2])]"
proof -
  let ?k = "encodeInternalKey [1] 3 kValue"
  have wf: "wf_ikey ?k" by (simp add: wf_ikey_encode kMaxSequenceNumber_def)
  obtain env1 content where b: "built ''t'' \<lparr>sbo_block_size = 4096, sbo_restart_interval = 16\<rparr> [(?k, [2])]
      \<lparr>env_files = Map.empty, env_io = [], env_sync = [], env_call = []\<rparr> env1"
    "env_files env1 ''t'' = Some content" "length content < 2 ^ 32"
    using small_table [OF wf, of "[2]"] by auto
  let ?e = "\<lparr>env_files = [''t'' \<mapsto> content], env_io = [Count 3], env_sync = [], env_call = []\<rparr>"
  have c: "[(?k, [2])] \<noteq> []" "sorted_entries [(?k, [2])]" "\<forall>e \<in> set [(?k, [2])]. fits e"
    "length [(?k, [2])] < 2 ^ 32" "quiet ?e" "env_files ?e ''t'' = Some content" "length ?k < 2 ^ 32"
    using wf by (simp_all add: sorted_entries_def fits_def quiet_def)
  have one: "length [(?k, [2])] = 1" by simp
  note r = sstable_scan_roundtrip [OF b(1) c(1-4) b(2,3) c(5,6) wf c(7), unfolded one Let_def]
  show ?thesis using r [of "\<lparr>ro_snapshot = None, ro_verify_checksums = True, ro_cache_mode = kFill\<rparr>"] by blast
qed

end
