(* ===== verification/DBIterator.thy ===== *)
theory DBIterator
  imports MergingIterator MemTable SSTableReader
begin

text \<open>
  \<^verbatim>\<open>src/db/db_iterator.h\<close> and \<^verbatim>\<open>db_iterator.cc\<close>: the iterator of the public interface, which turns
  an ordered stream of versions into the user keys visible at a sequence number.  Its loop runs
  as long as the input goes on, so its operations are partial: \<open>None\<close> is a run that does not
  return.  The references to memtables and version, which only keep the inputs alive, are left
  out.  \<open>db_view\<close> is what a reader should see; the theory shows that the iterator walks
  through it, and joins the inputs of the engine, memtable and table iterators, to one type of
  inputs that is merged.
\<close>

record 's DBIterator =
  dbi_input :: 's
  dbi_visible_sequence :: SequenceNumber
  dbi_skip_key :: bytes
  dbi_status :: Status
  dbi_valid :: bool

definition DBIterator_new :: "'s \<Rightarrow> SequenceNumber \<Rightarrow> 's DBIterator" where
  "DBIterator_new input visible_sequence =
     \<lparr>dbi_input = input, dbi_visible_sequence = visible_sequence, dbi_skip_key = [],
      dbi_status = success, dbi_valid = False\<rparr>"

definition DBIterator_valid :: "'s InternalIterator \<Rightarrow> 's DBIterator \<Rightarrow> bool" where
  "DBIterator_valid ops it =
     (dbi_valid it \<and> status_ok (dbi_status it) \<and> status_ok (it_status ops (dbi_input it)) \<and>
      it_valid ops (dbi_input it))"

definition DBIterator_parseCurrent ::
  "'s InternalIterator \<Rightarrow> 's DBIterator \<Rightarrow> ParsedInternalKey option \<times> 's DBIterator" where
  "DBIterator_parseCurrent ops it =
     (case parseInternalKey (it_internalKey ops (dbi_input it)) of
        Some parsed \<Rightarrow> (Some parsed, it)
      | None \<Rightarrow>
          (None, it\<lparr>dbi_status := corruption ''invalid internal key in DB iterator'',
                    dbi_valid := False, dbi_skip_key := []\<rparr>))"

partial_function (option) find_entry ::
  "'s InternalIterator \<Rightarrow> bool \<Rightarrow> 's DBIterator \<Rightarrow> 's DBIterator option" where
  "find_entry ops skipping it =
     (if \<not> it_valid ops (dbi_input it) then Some (it\<lparr>dbi_skip_key := []\<rparr>)
      else case DBIterator_parseCurrent ops it of
        (None, it) \<Rightarrow> Some it
      | (Some current, it) \<Rightarrow>
          if skipping \<and> pk_user_key current = dbi_skip_key it
          then let it = it\<lparr>dbi_input := it_next ops (dbi_input it)\<rparr> in
            if \<not> status_ok (it_status ops (dbi_input it)) then Some it else find_entry ops True it
          else let it = (if skipping then it\<lparr>dbi_skip_key := []\<rparr> else it) in
            if pk_sequence current > dbi_visible_sequence it
            then let it = it\<lparr>dbi_input := it_next ops (dbi_input it)\<rparr> in
              if \<not> status_ok (it_status ops (dbi_input it)) then Some it else find_entry ops False it
            else if pk_type current = kDeletion
            then let it = it\<lparr>dbi_skip_key := pk_user_key current,
                            dbi_input := it_next ops (dbi_input it)\<rparr> in
              if \<not> status_ok (it_status ops (dbi_input it)) then Some it else find_entry ops True it
            else Some (it\<lparr>dbi_valid := True\<rparr>))"

definition DBIterator_findNextUserEntry ::
  "'s InternalIterator \<Rightarrow> bool \<Rightarrow> 's DBIterator \<Rightarrow> 's DBIterator option" where
  "DBIterator_findNextUserEntry ops skipping it =
     (let it = it\<lparr>dbi_valid := False\<rparr> in
      if \<not> status_ok (it_status ops (dbi_input it)) then Some it
      else find_entry ops skipping it)"

definition DBIterator_seekToFirst :: "'s InternalIterator \<Rightarrow> 's DBIterator \<Rightarrow> 's DBIterator option" where
  "DBIterator_seekToFirst ops it =
     (if \<not> status_ok (dbi_status it) then Some it
      else DBIterator_findNextUserEntry ops False
        (it\<lparr>dbi_valid := False, dbi_skip_key := [], dbi_input := it_seekToFirst ops (dbi_input it)\<rparr>))"

definition DBIterator_seek :: "'s InternalIterator \<Rightarrow> bytes \<Rightarrow> 's DBIterator \<Rightarrow> 's DBIterator option" where
  "DBIterator_seek ops target it =
     (if \<not> status_ok (dbi_status it) then Some it
      else let internal_target = encodeInternalKey target (dbi_visible_sequence it) kValue in
        DBIterator_findNextUserEntry ops False
          (it\<lparr>dbi_valid := False, dbi_skip_key := [],
              dbi_input := it_seek ops internal_target (dbi_input it)\<rparr>))"

definition DBIterator_key :: "'s InternalIterator \<Rightarrow> 's DBIterator \<Rightarrow> bytes" where
  "DBIterator_key ops it =
     (case parseInternalKey (it_internalKey ops (dbi_input it)) of
        Some current \<Rightarrow> pk_user_key current | None \<Rightarrow> [])"

definition DBIterator_value :: "'s InternalIterator \<Rightarrow> 's DBIterator \<Rightarrow> bytes" where
  "DBIterator_value ops it = it_value ops (dbi_input it)"

definition DBIterator_next :: "'s InternalIterator \<Rightarrow> 's DBIterator \<Rightarrow> 's DBIterator option" where
  "DBIterator_next ops it =
     DBIterator_findNextUserEntry ops True
       (it\<lparr>dbi_skip_key := DBIterator_key ops it, dbi_valid := False,
           dbi_input := it_next ops (dbi_input it)\<rparr>)"

definition DBIterator_status :: "'s InternalIterator \<Rightarrow> 's DBIterator \<Rightarrow> Status" where
  "DBIterator_status ops it =
     (if \<not> status_ok (dbi_status it) then dbi_status it else it_status ops (dbi_input it))"

subsection \<open>The inputs\<close>

text \<open>The classes that implement the iterator interface and can be merged, and their dispatch.\<close>

datatype Input = MemInput MemIter | TableInput SSTableIterator

fun Input_valid :: "Input \<Rightarrow> bool" where
  "Input_valid (MemInput it) = it_valid MemIter_ops it"
| "Input_valid (TableInput it) = it_valid SSTableIterator_ops it"

fun Input_seekToFirst :: "Input \<Rightarrow> Input" where
  "Input_seekToFirst (MemInput it) = MemInput (it_seekToFirst MemIter_ops it)"
| "Input_seekToFirst (TableInput it) = TableInput (it_seekToFirst SSTableIterator_ops it)"

fun Input_seek :: "bytes \<Rightarrow> Input \<Rightarrow> Input" where
  "Input_seek target (MemInput it) = MemInput (it_seek MemIter_ops target it)"
| "Input_seek target (TableInput it) = TableInput (it_seek SSTableIterator_ops target it)"

fun Input_next :: "Input \<Rightarrow> Input" where
  "Input_next (MemInput it) = MemInput (it_next MemIter_ops it)"
| "Input_next (TableInput it) = TableInput (it_next SSTableIterator_ops it)"

fun Input_internalKey :: "Input \<Rightarrow> bytes" where
  "Input_internalKey (MemInput it) = it_internalKey MemIter_ops it"
| "Input_internalKey (TableInput it) = it_internalKey SSTableIterator_ops it"

fun Input_value :: "Input \<Rightarrow> bytes" where
  "Input_value (MemInput it) = it_value MemIter_ops it"
| "Input_value (TableInput it) = it_value SSTableIterator_ops it"

fun Input_status :: "Input \<Rightarrow> Status" where
  "Input_status (MemInput it) = it_status MemIter_ops it"
| "Input_status (TableInput it) = it_status SSTableIterator_ops it"

definition Input_ops :: "Input InternalIterator" where
  "Input_ops =
     \<lparr>it_valid = Input_valid, it_seekToFirst = Input_seekToFirst, it_seek = Input_seek,
      it_next = Input_next, it_internalKey = Input_internalKey, it_value = Input_value,
      it_status = Input_status\<rparr>"

abbreviation merged_ops :: "Input MergingIterator InternalIterator" where
  "merged_ops \<equiv> MergingIterator_ops Input_ops"

subsection \<open>What a reader sees\<close>

text \<open>The newest visible version of its user key, if it is not a deletion.\<close>

definition live :: "entry list \<Rightarrow> SequenceNumber \<Rightarrow> entry \<Rightarrow> bool" where
  "live es sequence e \<longleftrightarrow> entry_type e = kValue \<and>
     (case filter (visible (entry_user e) sequence) es of [] \<Rightarrow> False | x # _ \<Rightarrow> x = e)"

definition db_view :: "entry list \<Rightarrow> SequenceNumber \<Rightarrow> (bytes \<times> bytes) list" where
  "db_view es sequence = map (\<lambda>e. (entry_user e, snd e)) (filter (live es sequence) es)"

text \<open>What a client reads that steps at most \<open>n\<close> times.\<close>

fun db_scan :: "'s InternalIterator \<Rightarrow> nat \<Rightarrow> 's DBIterator \<Rightarrow> (bytes \<times> bytes) list option" where
  "db_scan ops 0 it = Some []"
| "db_scan ops (Suc n) it =
     (if DBIterator_valid ops it
      then (case DBIterator_next ops it of
              None \<Rightarrow> None
            | Some it' \<Rightarrow>
               (case db_scan ops n it' of
                  None \<Rightarrow> None
                | Some rest \<Rightarrow> Some ((DBIterator_key ops it, DBIterator_value ops it) # rest)))
      else Some [])"

lemma live_first:
  assumes "i < length es" "entry_type (es ! i) = kValue" "entry_seq (es ! i) \<le> s"
    and "\<And>l. l < i \<Longrightarrow> entry_user (es ! l) = entry_user (es ! i) \<Longrightarrow> s < entry_seq (es ! l)"
  shows "live es s (es ! i)"
proof -
  let ?P = "visible (entry_user (es ! i)) s"
  have "filter ?P (take i es) = []"
    using assms(1,4) by (force simp: filter_empty_conv visible_def in_set_conv_nth)
  moreover have "es = take i es @ es ! i # drop (Suc i) es" using assms(1) by (rule id_take_nth_drop)
  then have "filter ?P es = filter ?P (take i es) @ filter ?P (es ! i # drop (Suc i) es)"
    by (metis filter_append)
  ultimately show ?thesis using assms(2,3) by (simp add: live_def visible_def)
qed

lemma not_live_later:
  assumes "sorted_entries es" "l < i" "i < length es" "visible (entry_user (es ! i)) s (es ! l)"
  shows "\<not> live es s (es ! i)"
proof
  let ?P = "visible (entry_user (es ! i)) s"
  assume "live es s (es ! i)"
  then obtain ys where f: "filter ?P es = es ! i # ys" by (auto simp: live_def split: list.splits)
  have "es = take i es @ drop i es" by simp
  then have "filter ?P es = filter ?P (take i es) @ filter ?P (drop i es)" by (metis filter_append)
  moreover have "es ! l \<in> set (filter ?P (take i es))"
    using assms(2,3,4) by (auto simp: in_set_conv_nth)
  ultimately have "es ! i \<in> set (take i es)"
    using f by (cases "filter ?P (take i es)") (auto, metis filter_is_subset list.set_intros(1) subsetD)
  then show False
    using sorted_entries_distinct [OF assms(1)] assms(3)
    by (metis (no_types, lifting) in_set_conv_nth length_take less_irrefl min_less_iff_conj nth_eq_iff_index_eq nth_take)
qed

lemma not_visible_not_live: "s < entry_seq e \<Longrightarrow> \<not> live es s e"
proof
  assume "s < entry_seq e" "live es s e"
  then obtain ys where "filter (visible (entry_user e) s) es = e # ys"
    by (auto simp: live_def split: list.splits)
  then have "e \<in> set (filter (visible (entry_user e) s) es)" by (metis list.set_intros(1))
  with \<open>s < entry_seq e\<close> show False by (auto simp: visible_def)
qed

lemma filter_live_drop:
  "i < length es \<Longrightarrow> filter P (drop i es) =
     (if P (es ! i) then es ! i # filter P (drop (Suc i) es) else filter P (drop (Suc i) es))"
  by (simp flip: Cons_nth_drop_Suc)

subsection \<open>The search\<close>

text \<open>
  At position \<open>i\<close> no version before it is visible of any key from \<open>i\<close> on, apart from the key
  that is being skipped, of which one is.
\<close>

definition skip_inv :: "entry list \<Rightarrow> SequenceNumber \<Rightarrow> nat \<Rightarrow> bytes option \<Rightarrow> bool" where
  "skip_inv es s i skip \<longleftrightarrow>
     (\<forall>j < length es. i \<le> j \<longrightarrow> skip \<noteq> Some (entry_user (es ! j)) \<longrightarrow>
        (\<forall>l < i. entry_user (es ! l) = entry_user (es ! j) \<longrightarrow> s < entry_seq (es ! l))) \<and>
     (\<forall>k. skip = Some k \<longrightarrow> (\<exists>l < i. visible k s (es ! l)))"

lemma skip_start: "skip_inv es s 0 None"
  by (simp add: skip_inv_def)

lemma skip_over:
  assumes "sorted_entries es" "skip_inv es s i (Some k)" "i < length es" "entry_user (es ! i) \<noteq> k"
  shows "skip_inv es s i None"
proof -
  obtain l where l: "l < i" "entry_user (es ! l) = k" using assms(2) by (auto simp: skip_inv_def visible_def)
  have "entry_user (es ! j) \<noteq> k" if "i \<le> j" "j < length es" for j
    using sorted_user_mono [OF assms(1) that] sorted_user_mono [OF assms(1), of l i] l assms(3,4) by force
  then show ?thesis using assms(2) by (auto simp: skip_inv_def)
qed

lemma skip_same:
  assumes "sorted_entries es" "skip_inv es s i (Some k)" "i < length es" "entry_user (es ! i) = k"
  shows "skip_inv es s (Suc i) (Some k)" "\<not> live es s (es ! i)"
proof -
  show "skip_inv es s (Suc i) (Some k)"
    using assms(2,4) unfolding skip_inv_def by (auto simp: less_Suc_eq)
  show "\<not> live es s (es ! i)"
    using assms not_live_later by (auto simp: skip_inv_def)
qed

lemma skip_hidden:
  assumes "skip_inv es s i None" "s < entry_seq (es ! i)"
  shows "skip_inv es s (Suc i) None" "\<not> live es s (es ! i)"
  using assms not_visible_not_live unfolding skip_inv_def by (auto simp: less_Suc_eq)

lemma skip_deleted:
  assumes "skip_inv es s i None" "entry_seq (es ! i) \<le> s" "entry_type (es ! i) = kDeletion"
  shows "skip_inv es s (Suc i) (Some (entry_user (es ! i)))" "\<not> live es s (es ! i)"
  using assms unfolding skip_inv_def by (auto simp: less_Suc_eq visible_def live_def)

lemma skip_found:
  assumes "skip_inv es s i None" "i < length es" "entry_seq (es ! i) \<le> s" "entry_type (es ! i) \<noteq> kDeletion"
  shows "live es s (es ! i)"
  using assms by (intro live_first) (auto simp: skip_inv_def, metis ValueType.exhaust)

lemma skip_next:
  assumes "sorted_entries es" "i < length es" "live es s (es ! i)"
  shows "skip_inv es s (Suc i) (Some (entry_user (es ! i)))"
proof -
  have "entry_user (es ! l) = entry_user (es ! i)"
    if "l \<le> i" "i \<le> j" "j < length es" "entry_user (es ! l) = entry_user (es ! j)" for l j
    using sorted_user_mono [OF assms(1) that(1) assms(2)] sorted_user_mono [OF assms(1) that(2,3)] that(4) by simp
  then have "\<forall>j < length es. Suc i \<le> j \<longrightarrow> entry_user (es ! i) \<noteq> entry_user (es ! j) \<longrightarrow>
      (\<forall>l < Suc i. entry_user (es ! l) \<noteq> entry_user (es ! j))"
    by (metis Suc_leD less_Suc_eq_le)
  moreover have "visible (entry_user (es ! i)) s (es ! i)"
    using assms(3) not_visible_not_live by (meson not_le visible_def)
  ultimately show ?thesis unfolding skip_inv_def by auto
qed

lemma skip_seek:
  fixes target
  assumes "sorted_entries es" "s \<le> kMaxSequenceNumber"
  defines "i \<equiv> lower_bound es (encodeInternalKey target s kValue)"
  shows "skip_inv es s i None"
    and "filter (live es s) (drop i es) = filter (\<lambda>e. target \<le> entry_user e) (filter (live es s) es)"
proof -
  have b: "entry_user (es ! l) < target \<or> entry_user (es ! l) = target \<and> s < entry_seq (es ! l) \<longleftrightarrow> l < i"
    if "l < length es" for l
    using lower_bound_iff [OF assms(1), of "encodeInternalKey target s kValue" l] that assms
      before_seek_key [of "es ! l" s target] by (simp add: sorted_entries_def)
  have il: "i \<le> length es" by (simp add: i_def lower_bound_le)
  show "skip_inv es s i None"
    unfolding skip_inv_def
  proof (intro conjI allI impI)
    fix j l assume h: "j < length es" "i \<le> j" "l < i" "entry_user (es ! l) = entry_user (es ! j)"
    then have "\<not> entry_user (es ! j) < target" using b [of j] by simp
    moreover have "entry_user (es ! l) < target \<or> entry_user (es ! l) = target \<and> s < entry_seq (es ! l)"
      using b [of l] h by simp
    ultimately show "s < entry_seq (es ! l)" using h(4) by auto
  qed simp
  let ?Q = "\<lambda>e. live es s e \<and> target \<le> entry_user e"
  have "\<not> ?Q (es ! l)" if "l < i" for l
    using b [of l] that il not_visible_not_live [of s "es ! l" es] by auto
  then have "filter ?Q (take i es) = []" using il
    unfolding filter_empty_conv by (metis (no_types, lifting) in_set_conv_nth length_take min.absorb2 nth_take)
  moreover have "filter ?Q (drop i es) = filter (live es s) (drop i es)"
  proof (rule filter_cong [OF refl])
    fix e assume "e \<in> set (drop i es)"
    then obtain l where "l < length es" "i \<le> l" "e = es ! l"
      using il by (auto simp: in_set_conv_nth) (metis add.commute le_add2 less_diff_conv)
    then show "?Q e \<longleftrightarrow> live es s e" using b [of l] by (auto simp: not_less)
  qed
  moreover have "filter ?Q es = filter ?Q (take i es) @ filter ?Q (drop i es)"
    by (simp flip: filter_append)
  ultimately show "filter (live es s) (drop i es) = filter (\<lambda>e. target \<le> entry_user e) (filter (live es s) es)"
    unfolding filter_filter by simp
qed

text \<open>The iterator stands before the entries \<open>rest\<close> of the view.\<close>

definition db_at :: "('s \<Rightarrow> entry list \<Rightarrow> nat \<Rightarrow> bool) \<Rightarrow> 's DBIterator \<Rightarrow> entry list \<Rightarrow> SequenceNumber \<Rightarrow>
    entry list \<Rightarrow> bool" where
  "db_at at it es s rest \<longleftrightarrow> status_ok (dbi_status it) \<and> dbi_visible_sequence it = s \<and>
     (\<exists>i. at (dbi_input it) es i \<and>
        (if rest = [] then \<not> dbi_valid it
         else dbi_valid it \<and> i < length es \<and> live es s (es ! i) \<and> rest = filter (live es s) (drop i es)))"

context internal_iterator
begin

lemma find_at:
  assumes "at (dbi_input it) es i" "status_ok (dbi_status it)" "dbi_visible_sequence it = s"
    "\<not> dbi_valid it" "skip_inv es s i (if skipping then Some (dbi_skip_key it) else None)"
  shows "\<exists>it'. find_entry ops skipping it = Some it' \<and> db_at at it' es s (filter (live es s) (drop i es))"
  using assms
proof (induction "length es - i" arbitrary: i it skipping rule: less_induct)
  case less
  show ?case
  proof (cases "i < length es")
    case False
    then show ?thesis
      using less.prems valid_at [OF less.prems(1)] by (subst find_entry.simps) (auto simp: db_at_def)
  next
    case True
    have sorted: "sorted_entries es" using at_sorted [OF less.prems(1)] by simp
    then have "wf_ikey (fst (es ! i))" using True by (simp add: sorted_entries_def)
    then have parse: "DBIterator_parseCurrent ops it = (Some \<lparr>pk_user_key = entry_user (es ! i),
        pk_sequence = entry_seq (es ! i), pk_type = entry_type (es ! i)\<rparr>, it)"
      using key_at [OF less.prems(1) True] entry_encode(3) by (simp add: DBIterator_parseCurrent_def)
    have valid: "it_valid ops (dbi_input it)" using valid_at [OF less.prems(1)] True by simp
    note nx = next_at [OF less.prems(1) True]
    note ok = status_at [OF nx]
    have step: "\<exists>it'. find_entry ops b (it\<lparr>dbi_skip_key := k, dbi_input := it_next ops (dbi_input it)\<rparr>) = Some it' \<and>
        db_at at it' es s (filter (live es s) (drop i es))"
      if "skip_inv es s (Suc i) (if b then Some k else None)" "\<not> live es s (es ! i)" for b k
      using less.hyps [of "Suc i" "it\<lparr>dbi_skip_key := k, dbi_input := it_next ops (dbi_input it)\<rparr>" b]
        diff_less_mono2 [OF lessI True] that nx less.prems(2,3,4)
      by (cases b) (simp_all add: filter_live_drop [OF True])
    show ?thesis
    proof (cases "skipping \<and> entry_user (es ! i) = dbi_skip_key it")
      case same: True
      then show ?thesis
        using step [of True "dbi_skip_key it"] skip_same [OF sorted _ True] less.prems(5) valid parse ok
        by (subst find_entry.simps) simp
    next
      case False
      then have inv: "skip_inv es s i None"
        using skip_over [OF sorted _ True] less.prems(5) by (auto split: if_splits)
      define k where "k = (if skipping then [] else dbi_skip_key it)"
      have upd: "(if skipping then it\<lparr>dbi_skip_key := []\<rparr> else it) = it\<lparr>dbi_skip_key := k\<rparr>" by (simp add: k_def)
      have loop: "find_entry ops skipping it =
          (if s < entry_seq (es ! i) then find_entry ops False (it\<lparr>dbi_skip_key := k, dbi_input := it_next ops (dbi_input it)\<rparr>)
           else if entry_type (es ! i) = kDeletion
           then find_entry ops True (it\<lparr>dbi_skip_key := entry_user (es ! i), dbi_input := it_next ops (dbi_input it)\<rparr>)
           else Some (it\<lparr>dbi_skip_key := k, dbi_valid := True\<rparr>))"
        using False valid ok less.prems(3) by (subst find_entry.simps) (simp add: parse upd Let_def, blast)
      have "db_at at (it\<lparr>dbi_skip_key := k, dbi_valid := True\<rparr>) es s (filter (live es s) (drop i es))"
        if "live es s (es ! i)"
        using that less.prems(1,2,3) True filter_live_drop [OF True, of "live es s"]
        by (simp add: db_at_def exI [of _ i])
      then show ?thesis
        unfolding loop using step [of False k] step [of True "entry_user (es ! i)"] skip_hidden [OF inv]
          skip_deleted [OF inv] skip_found [OF inv True] by simp
    qed
  qed
qed

lemma findNext_at:
  assumes "at (dbi_input it) es i" "status_ok (dbi_status it)" "dbi_visible_sequence it = s"
    "skip_inv es s i (if skipping then Some (dbi_skip_key it) else None)"
  shows "\<exists>it'. DBIterator_findNextUserEntry ops skipping it = Some it' \<and>
    db_at at it' es s (filter (live es s) (drop i es))"
  using find_at [of "it\<lparr>dbi_valid := False\<rparr>" es i s skipping] assms status_at [OF assms(1)]
  by (cases skipping) (simp_all add: DBIterator_findNextUserEntry_def Let_def)

lemma db_first:
  assumes "db_at at it es s rest"
  shows "\<exists>it'. DBIterator_seekToFirst ops it = Some it' \<and> db_at at it' es s (filter (live es s) es)"
proof -
  obtain i where i: "at (dbi_input it) es i" and it: "status_ok (dbi_status it)" "dbi_visible_sequence it = s"
    using assms by (auto simp: db_at_def)
  show ?thesis
    using findNext_at [of "it\<lparr>dbi_valid := False, dbi_skip_key := [], dbi_input := it_seekToFirst ops (dbi_input it)\<rparr>"
        es 0 s False] first_at [OF i] it skip_start
    by (simp add: DBIterator_seekToFirst_def)
qed

lemma db_seek:
  assumes "db_at at it es s rest" "s \<le> kMaxSequenceNumber" "length target + 8 < 2 ^ 32"
  shows "\<exists>it'. DBIterator_seek ops target it = Some it' \<and>
    db_at at it' es s (filter (\<lambda>e. target \<le> entry_user e) (filter (live es s) es))"
proof -
  obtain i where i: "at (dbi_input it) es i" and it: "status_ok (dbi_status it)" "dbi_visible_sequence it = s"
    using assms by (auto simp: db_at_def)
  let ?t = "encodeInternalKey target s kValue"
  have sorted: "sorted_entries es" using at_sorted [OF i] by simp
  have "at (it_seek ops ?t (dbi_input it)) es (lower_bound es ?t)"
    using seek_at [OF i, of ?t] assms(2,3) by simp
  then show ?thesis
    using findNext_at [of "it\<lparr>dbi_valid := False, dbi_skip_key := [], dbi_input := it_seek ops ?t (dbi_input it)\<rparr>"
        es "lower_bound es ?t" s False] it skip_seek [OF sorted assms(2), of target]
    by (simp add: DBIterator_seek_def Let_def)
qed

lemma db_current:
  assumes "db_at at it es s rest"
  shows "DBIterator_valid ops it \<longleftrightarrow> rest \<noteq> []" "status_ok (DBIterator_status ops it)"
    and "rest = e # es' \<Longrightarrow> DBIterator_key ops it = entry_user e"
    and "rest = e # es' \<Longrightarrow> DBIterator_value ops it = snd e"
    and "rest = e # es' \<Longrightarrow> \<exists>it'. DBIterator_next ops it = Some it' \<and> db_at at it' es s es'"
proof -
  obtain i where i: "at (dbi_input it) es i" and it: "status_ok (dbi_status it)" "dbi_visible_sequence it = s"
    and r: "if rest = [] then \<not> dbi_valid it
      else dbi_valid it \<and> i < length es \<and> live es s (es ! i) \<and> rest = filter (live es s) (drop i es)"
    using assms by (auto simp: db_at_def)
  show "DBIterator_valid ops it \<longleftrightarrow> rest \<noteq> []" "status_ok (DBIterator_status ops it)"
    using r it valid_at [OF i] status_at [OF i]
    by (auto simp: DBIterator_valid_def DBIterator_status_def split: if_splits)
  assume "rest = e # es'"
  then have l: "i < length es" "live es s (es ! i)" "e = es ! i" "es' = filter (live es s) (drop (Suc i) es)"
    using r filter_live_drop [of i es "live es s"] by (auto split: if_splits)
  have sorted: "sorted_entries es" "wf_ikey (fst e)"
    using at_sorted [OF i] l(1,3) by (auto simp: sorted_entries_def)
  show key: "DBIterator_key ops it = entry_user e" "DBIterator_value ops it = snd e"
    using key_at [OF i l(1)] value_at [OF i l(1)] l(3) entry_encode(3) [OF sorted(2)]
    by (simp_all add: DBIterator_key_def DBIterator_value_def)
  show "\<exists>it'. DBIterator_next ops it = Some it' \<and> db_at at it' es s es'"
    using findNext_at [of "it\<lparr>dbi_skip_key := DBIterator_key ops it, dbi_valid := False, dbi_input := it_next ops (dbi_input it)\<rparr>"
        es "Suc i" s True] next_at [OF i l(1)] it skip_next [OF sorted(1) l(1,2)]
    by (simp add: DBIterator_next_def key l(3,4))
qed

lemma db_scan_at:
  "db_at at it es s rest \<Longrightarrow> length rest \<le> n \<Longrightarrow>
     db_scan ops n it = Some (map (\<lambda>e. (entry_user e, snd e)) rest)"
proof (induction n arbitrary: it rest)
  case (Suc n)
  show ?case
  proof (cases rest)
    case Nil
    then show ?thesis using db_current(1) [OF Suc.prems(1)] by simp
  next
    case (Cons e es')
    then obtain it' where "DBIterator_next ops it = Some it'" "db_at at it' es s es'"
      using db_current(5) [OF Suc.prems(1)] by blast
    then show ?thesis
      using Suc Cons db_current(1,3,4) [OF Suc.prems(1)] by simp
  qed
qed simp

lemma db_at_new: "at input es i \<Longrightarrow> db_at at (DBIterator_new input s) es s []"
  by (auto simp: db_at_def DBIterator_new_def)

end

subsection \<open>The view\<close>

lemma view_lookup: "(k, v) \<in> set (db_view es s) \<longleftrightarrow> lookup_in es k s = Found v"
proof
  assume "(k, v) \<in> set (db_view es s)"
  then obtain e where e: "live es s e" "entry_user e = k" "snd e = v" by (auto simp: db_view_def)
  then obtain ys where "filter (visible k s) es = e # ys" by (auto simp: live_def split: list.splits)
  then show "lookup_in es k s = Found v" using e by (simp add: lookup_in_def entry_result_def live_def)
next
  assume found: "lookup_in es k s = Found v"
  then obtain e ys where f: "filter (visible k s) es = e # ys" by (auto simp: lookup_in_def split: list.splits)
  then have "e \<in> set (filter (visible k s) es)" by (metis list.set_intros(1))
  then have e: "e \<in> set es" "entry_user e = k" by (auto simp: visible_def)
  moreover have "entry_type e \<noteq> kDeletion" "snd e = v"
    using found f by (auto simp: lookup_in_def entry_result_def split: if_splits)
  moreover have "live es s e"
    using f e calculation(3) by (metis (mono_tags, lifting) ValueType.exhaust list.simps(5) live_def)
  ultimately show "(k, v) \<in> set (db_view es s)" by (force simp: db_view_def)
qed

lemma view_sorted:
  assumes "sorted_entries es"
  shows "sorted_wrt (\<lambda>a b. fst a < fst b) (db_view es s)"
proof -
  have less: "entry_user a < entry_user b"
    if h: "a \<in> set (filter (live es s) es)" "b \<in> set (filter (live es s) es)" "entry_less a b" for a b
  proof -
    have wf: "wf_ikey (fst a)" "wf_ikey (fst b)" using h(1,2) assms by (auto simp: sorted_entries_def)
    have "a = b" if "entry_user a = entry_user b"
      using that h(1,2) by (auto simp: live_def split: list.splits)
    then show ?thesis using h(3) entry_less_iff [OF wf] by auto
  qed
  have "sorted_wrt entry_less (filter (live es s) es)"
    using assms by (simp add: sorted_entries_def sorted_wrt_filter)
  then have "sorted_wrt (\<lambda>a b. entry_user a < entry_user b) (filter (live es s) es)"
    by (rule sorted_wrt_mono_rel [rotated]) (rule less)
  then show ?thesis by (simp add: db_view_def sorted_wrt_map)
qed

subsection \<open>The merged inputs\<close>

fun input_at :: "Input \<Rightarrow> entry list \<Rightarrow> nat \<Rightarrow> bool" where
  "input_at (MemInput it) es i = mem_at it es i"
| "input_at (TableInput it) es i = tab_at it es i"

interpretation inputs: merging_input Input_ops input_at
proof
  fix it es i assume at: "input_at it es i"
  show "sorted_entries es \<and> i \<le> length es"
    using at mem_iter.at_sorted tab_iter.at_sorted by (cases it) auto
  show "it_valid Input_ops it \<longleftrightarrow> i < length es"
    using at mem_iter.valid_at tab_iter.valid_at by (cases it) (auto simp: Input_ops_def)
  show "input_at (it_seekToFirst Input_ops it) es 0"
    using at mem_iter.first_at tab_iter.first_at by (cases it) (auto simp: Input_ops_def)
  show "input_at (it_seek Input_ops target it) es (lower_bound es target)"
    if "wf_ikey target" "length target < 2 ^ 32" for target
    using at that mem_iter.seek_at tab_iter.seek_at by (cases it) (auto simp: Input_ops_def)
  show "status_ok (it_status Input_ops it)"
    using at mem_iter.status_at tab_iter.status_at by (cases it) (auto simp: Input_ops_def)
  assume i: "i < length es"
  show "input_at (it_next Input_ops it) es (Suc i)"
    using at i mem_iter.next_at tab_iter.next_at by (cases it) (auto simp: Input_ops_def)
  show "it_internalKey Input_ops it = fst (es ! i)"
    using at i mem_iter.key_at tab_iter.key_at by (cases it) (auto simp: Input_ops_def)
  show "it_value Input_ops it = snd (es ! i)"
    using at i mem_iter.value_at tab_iter.value_at by (cases it) (auto simp: Input_ops_def)
qed

lemma merged_new:
  assumes "list_all2 (\<lambda>c l. \<exists>p. input_at c l p) children ess" "distinct (map fst (concat ess))"
  shows "merge_at input_at (MergingIterator_new children) (merge_all ess) (length (merge_all ess))"
proof -
  have at: "length ess = length children" "\<forall>c < length ess. \<exists>p. input_at (children ! c) (ess ! c) p"
    using assms(1) by (auto simp: list_all2_conv_all_nth)
  moreover have "\<forall>l \<in> set ess. sorted_entries l"
    using at(2) inputs.at_sorted by (metis in_set_conv_nth)
  ultimately show ?thesis using merge_all_of [OF _ assms(2)] inputs.merge_new by blast
qed

lemma length_view: "length (filter (live es s) es) \<le> length es"
  by simp

lemma sorted_keys_distinct: "sorted_entries es \<Longrightarrow> distinct (map fst es)"
  unfolding distinct_conv_nth
  by (metis length_map nat_neq_iff nth_map sorted_nth_less wfkey.less_irrefl)

text \<open>A memtable filled by a history is an input with its entries.\<close>

lemma memtable_input:
  assumes "\<forall>op \<in> set ops. ok_op op" "sorted_wrt (<) (map fst ops)"
  obtains mt es where "memtable_adds next_block ops (MemTable_new next_block) = Some mt"
    "input_at (MemInput (MemTable_newIterator mt)) es (length es)" "sorted_entries es"
    "set es = op_entry ` set ops" "distinct (map fst es)"
proof -
  obtain mt es where m: "memtable_adds next_block ops (MemTable_new next_block) = Some mt"
    "memtable_rep mt es" "set es = op_entry ` set ops"
    using history_rep [OF good_next_block assms] by blast
  then have "input_at (MemInput (MemTable_newIterator mt)) es (length es)" using mem_at_new by simp
  moreover from this have "sorted_entries es" using inputs.at_sorted by blast
  ultimately show ?thesis using that m sorted_keys_distinct by blast
qed

text \<open>An iterator over the layers walks what a reader at its sequence number sees.\<close>

lemma db_iterator_views:
  assumes "list_all2 (\<lambda>c l. \<exists>p. input_at c l p) children ess"
    and "distinct (map fst (concat ess))" and "s \<le> kMaxSequenceNumber" and "length target + 8 < 2 ^ 32"
  shows "let es = merge_all ess; it = DBIterator_new (MergingIterator_new children) s; n = length es in
    (\<exists>it'. DBIterator_seekToFirst merged_ops it = Some it' \<and>
       db_scan merged_ops n it' = Some (db_view es s)) \<and>
    (\<exists>it'. DBIterator_seek merged_ops target it = Some it' \<and>
       db_scan merged_ops n it' = Some (filter (\<lambda>(k, v). target \<le> k) (db_view es s))) \<and>
    sorted_wrt (\<lambda>a b. fst a < fst b) (db_view es s) \<and>
    (\<forall>k v. (k, v) \<in> set (db_view es s) \<longleftrightarrow> lookup_in es k s = Found v)"
proof -
  let ?es = "merge_all ess" and ?it = "DBIterator_new (MergingIterator_new children) s"
  let ?l = "filter (live ?es s) ?es"
  note at = merged_new [OF assms(1,2)]
  note new = inputs.merged.db_at_new [OF at, of s]
  have sorted: "sorted_entries ?es" using inputs.merged.at_sorted [OF at] by simp
  obtain it1 where 1: "DBIterator_seekToFirst merged_ops ?it = Some it1" "db_at (merge_at input_at) it1 ?es s ?l"
    using inputs.merged.db_first [OF new] by blast
  obtain it2 where 2: "DBIterator_seek merged_ops target ?it = Some it2"
    "db_at (merge_at input_at) it2 ?es s (filter (\<lambda>e. target \<le> entry_user e) ?l)"
    using inputs.merged.db_seek [OF new assms(3,4)] by blast
  have n: "length (filter P ?l) \<le> length ?es" for P
    using length_filter_le [of P ?l] length_view [of ?es s] by linarith
  have "db_scan merged_ops (length ?es) it1 = Some (db_view ?es s)"
    using inputs.merged.db_scan_at [OF 1(2) length_view] by (simp add: db_view_def)
  moreover have "db_scan merged_ops (length ?es) it2 = Some (filter (\<lambda>(k, v). target \<le> k) (db_view ?es s))"
    using inputs.merged.db_scan_at [OF 2(2) n] by (simp add: db_view_def filter_map o_def)
  ultimately show ?thesis
    using 1(1) 2(1) view_sorted [OF sorted] view_lookup by (simp add: Let_def)
qed

subsection \<open>Properties\<close>

text \<open>
  C11. A merging iterator over memtable and table iterators whose internal keys differ yields,
  from the first position, all their entries in the order of internal keys, and from a seek
  those at or after the target.
\<close>

theorem merging_iterates_all:
  assumes "list_all2 (\<lambda>c l. \<exists>p. input_at c l p) children ess"
    and "distinct (map fst (concat ess))" and "wf_ikey target" and "length target < 2 ^ 32"
  shows "let es = merge_all ess; it = MergingIterator_new children in
    sorted_entries es \<and> mset es = mset (concat ess) \<and>
    iter_scan merged_ops (length es) (MergingIterator_seekToFirst Input_ops it) = es \<and>
    iter_scan merged_ops (length es) (MergingIterator_seek Input_ops target it) =
      dropWhile (\<lambda>e. InternalKeyLess (fst e) target) es"
proof -
  note at = merged_new [OF assms(1,2)]
  have "merge_of ess (merge_all ess)"
    using assms(1) inputs.at_sorted
    by (intro merge_all_of [OF _ assms(2)]) (auto simp: list_all2_conv_all_nth in_set_conv_nth, metis)
  then show ?thesis
    using inputs.merged.scan_first [OF at order_refl]
      inputs.merged.scan_seek [OF at order_refl assms(3,4)]
    by (simp add: Let_def merge_of_def MergingIterator_ops_def)
qed

theorem merging_iterates_all_witness:
  "\<exists>m1 m2 es. memtable_adds next_block [(1, kValue, [0x62], [1])] (MemTable_new next_block) = Some m1 \<and>
    memtable_adds next_block [(2, kValue, [0x61], [2])] (MemTable_new next_block) = Some m2 \<and>
    sorted_entries es \<and> mset es = {#(encodeInternalKey [0x62] 1 kValue, [1]), (encodeInternalKey [0x61] 2 kValue, [2])#} \<and>
    iter_scan merged_ops (length es) (MergingIterator_seekToFirst Input_ops (MergingIterator_new
      [MemInput (MemTable_newIterator m1), MemInput (MemTable_newIterator m2)])) = es"
proof -
  let ?e1 = "(encodeInternalKey [0x62] 1 kValue, [1]) :: entry"
  let ?e2 = "(encodeInternalKey [0x61] 2 kValue, [2]) :: entry"
  have "entry_user ?e1 \<noteq> entry_user ?e2" by (simp add: kMaxSequenceNumber_def)
  then have "fst ?e1 \<noteq> fst ?e2" by (metis entry_user_def)
  then have k: "wf_ikey (fst ?e1)" "length (fst ?e1) < 2 ^ 32" "fst ?e1 \<noteq> fst ?e2"
    by (simp_all add: kMaxSequenceNumber_def)
  have single: "l = [e]" if "set l = {e}" "distinct (map fst l)" for l and e :: entry
    using that by (cases l; cases "tl l") auto
  obtain m1 l1 where 1: "memtable_adds next_block [(1, kValue, [0x62], [1])] (MemTable_new next_block) = Some m1"
    "input_at (MemInput (MemTable_newIterator m1)) l1 (length l1)" "set l1 = {?e1}" "distinct (map fst l1)"
    by (rule memtable_input [of "[(1, kValue, [0x62], [1])]"]) (auto simp: ok_op_def kMaxSequenceNumber_def op_entry_def)
  obtain m2 l2 where 2: "memtable_adds next_block [(2, kValue, [0x61], [2])] (MemTable_new next_block) = Some m2"
    "input_at (MemInput (MemTable_newIterator m2)) l2 (length l2)" "set l2 = {?e2}" "distinct (map fst l2)"
    by (rule memtable_input [of "[(2, kValue, [0x61], [2])]"]) (auto simp: ok_op_def kMaxSequenceNumber_def op_entry_def)
  have "list_all2 (\<lambda>c l. \<exists>p. input_at c l p) [MemInput (MemTable_newIterator m1), MemInput (MemTable_newIterator m2)] [[?e1], [?e2]]"
    using 1(2) 2(2) single [OF 1(3,4)] single [OF 2(3,4)] by auto
  from merging_iterates_all [OF this _ k(1,2)] show ?thesis using 1(1) 2(1) k(3) unfolding Let_def by auto
qed

end
