(* ===== verification/Version.thy ===== *)
theory Version
  imports SSTableReader DbFiles
begin

text \<open>
  \<^verbatim>\<open>src/db/version.h\<close> and \<^verbatim>\<open>version.cc\<close>: the tables on disk in three levels.  A version is immutable;
  the operations build a new one.  \<open>version_rep\<close> relates it to the entries of its tables,
  \<open>layers\<close> are these entries from the newest layer to the oldest one, and \<open>newest_first\<close> with
  \<open>disjoint_levels\<close> is the invariant under which the first layer that knows a key decides a lookup.
\<close>

record IndexRange =
  ir_begin :: nat
  ir_end :: nat

record VTable =
  vt_meta :: TableMeta
  vt_reader :: SSTableReader

record Version =
  ver_levels :: "VTable list list"

definition table_userKey :: "bytes \<Rightarrow> bytes" where
  "table_userKey internal_key =
     (case parseInternalKey internal_key of Some parsed \<Rightarrow> pk_user_key parsed | None \<Rightarrow> [])"

definition openTable :: "string \<Rightarrow> TableMeta \<Rightarrow> Env \<Rightarrow> VTable result \<times> Env" where
  "openTable directory meta env =
     (let path = sstableFileName directory (tm_number meta) in
      case sys_exists path env of
        (Inl error, env) \<Rightarrow> (Inl (filesystemError ''stat'' path error), env)
      | (Inr exists, env) \<Rightarrow>
          if \<not> exists
          then (Inl (corruption (''manifest references a missing SSTable: '' @ path)), env)
          else case sys_file_size path env of
            (Inl error, env) \<Rightarrow> (Inl (filesystemError ''stat'' path error), env)
          | (Inr file_size, env) \<Rightarrow>
              if file_size \<noteq> unat (tm_file_size meta)
              then (Inl (corruption (''SSTable size does not match manifest: '' @ path)), env)
              else case SSTableReader_open path env of
                (Inl status, env) \<Rightarrow> (Inl status, env)
              | (Inr reader, env) \<Rightarrow> (Inr \<lparr>vt_meta = meta, vt_reader = reader\<rparr>, env))"

fun openLevel :: "string \<Rightarrow> TableMeta list \<Rightarrow> VTable list \<Rightarrow> Env \<Rightarrow> VTable list result \<times> Env" where
  "openLevel directory [] tables env = (Inr tables, env)"
| "openLevel directory (descriptor # descriptors) tables env =
     (case openTable directory descriptor env of
        (Inl status, env) \<Rightarrow> (Inl status, env)
      | (Inr table, env) \<Rightarrow> openLevel directory descriptors (tables @ [table]) env)"

fun open_levels :: "string \<Rightarrow> TableMeta list list \<Rightarrow> VTable list list \<Rightarrow> Env \<Rightarrow> VTable list list result \<times> Env" where
  "open_levels directory [] opened env = (Inr opened, env)"
| "open_levels directory (descriptors # levels) opened env =
     (case openLevel directory descriptors [] env of
        (Inl status, env) \<Rightarrow> (Inl status, env)
      | (Inr tables, env) \<Rightarrow> open_levels directory levels (opened @ [tables]) env)"

definition Version_open :: "string \<Rightarrow> ManifestState \<Rightarrow> Env \<Rightarrow> Version result \<times> Env" where
  "Version_open directory manifest env =
     (case open_levels directory (ms_levels manifest) [] env of
        (Inl status, env) \<Rightarrow> (Inl status, env)
      | (Inr opened, env) \<Rightarrow> (Inr \<lparr>ver_levels = opened\<rparr>, env))"

definition Version_level :: "nat \<Rightarrow> Version \<Rightarrow> VTable list" where
  "Version_level level v = ver_levels v ! level"

text \<open>The search in a list of tables from the newest to the oldest, and in one table per level.\<close>

fun get_level0 ::
  "ReadOptions \<Rightarrow> bytes \<Rightarrow> SequenceNumber \<Rightarrow> VTable list \<Rightarrow> Env \<Rightarrow> LookupResult result \<times> Env" where
  "get_level0 options user_key visible_sequence [] env = (Inr Absent, env)"
| "get_level0 options user_key visible_sequence (table # tables) env =
     (case SSTableReader_get options user_key visible_sequence (vt_reader table) env of
        (Inr Absent, env) \<Rightarrow> get_level0 options user_key visible_sequence tables env
      | (result, env) \<Rightarrow> (result, env))"

definition level_candidate :: "bytes \<Rightarrow> VTable list \<Rightarrow> VTable option" where
  "level_candidate user_key tables =
     (let candidate = std_lower_bound
            (\<lambda>table. table_userKey (tm_largest_key (vt_meta table)) < user_key) tables 0 (length tables)
      in if candidate = length tables \<or>
            table_userKey (tm_smallest_key (vt_meta (tables ! candidate))) > user_key
         then None else Some (tables ! candidate))"

fun get_levels ::
  "ReadOptions \<Rightarrow> bytes \<Rightarrow> SequenceNumber \<Rightarrow> VTable list list \<Rightarrow> Env \<Rightarrow> LookupResult result \<times> Env" where
  "get_levels options user_key visible_sequence [] env = (Inr Absent, env)"
| "get_levels options user_key visible_sequence (tables # levels) env =
     (case level_candidate user_key tables of
        None \<Rightarrow> get_levels options user_key visible_sequence levels env
      | Some candidate \<Rightarrow>
         (case SSTableReader_get options user_key visible_sequence (vt_reader candidate) env of
            (Inr Absent, env) \<Rightarrow> get_levels options user_key visible_sequence levels env
          | (result, env) \<Rightarrow> (result, env)))"

definition Version_get ::
  "ReadOptions \<Rightarrow> bytes \<Rightarrow> SequenceNumber \<Rightarrow> Version \<Rightarrow> Env \<Rightarrow> LookupResult result \<times> Env" where
  "Version_get options user_key visible_sequence v env =
     (case get_level0 options user_key visible_sequence (ver_levels v ! kLevel0) env of
        (Inr Absent, env) \<Rightarrow>
          get_levels options user_key visible_sequence (drop kLevel1 (ver_levels v)) env
      | (result, env) \<Rightarrow> (result, env))"

definition Version_withLevel0Table :: "TableMeta \<Rightarrow> SSTableReader \<Rightarrow> Version \<Rightarrow> Version" where
  "Version_withLevel0Table meta reader v =
     v\<lparr>ver_levels := (ver_levels v)
        [kLevel0 := \<lparr>vt_meta = meta, vt_reader = reader\<rparr> # ver_levels v ! kLevel0]\<rparr>"

text \<open>\<^verbatim>\<open>erase\<close> of a range of a vector, and \<^verbatim>\<open>insert\<close> of a range at a position.\<close>

definition erase_range :: "IndexRange \<Rightarrow> 'a list \<Rightarrow> 'a list" where
  "erase_range r xs = take (ir_begin r) xs @ drop (ir_end r) xs"

definition insert_at :: "nat \<Rightarrow> 'a list \<Rightarrow> 'a list \<Rightarrow> 'a list" where
  "insert_at i ys xs = take i xs @ ys @ drop i xs"

definition Version_withCompaction ::
  "nat \<Rightarrow> IndexRange \<Rightarrow> IndexRange \<Rightarrow> VTable list \<Rightarrow> Version \<Rightarrow> Version" where
  "Version_withCompaction input_level inputs overlaps outputs v =
     (let levels = ver_levels v;
          levels = levels[input_level := erase_range inputs (levels ! input_level)];
          target = erase_range overlaps (levels ! (input_level + 1));
          target = insert_at (ir_begin overlaps) outputs target
      in v\<lparr>ver_levels := levels[input_level + 1 := target]\<rparr>)"

subsection \<open>Layers\<close>

fun lookup_layers :: "entry list list \<Rightarrow> bytes \<Rightarrow> SequenceNumber \<Rightarrow> LookupResult" where
  "lookup_layers [] key sequence = Absent"
| "lookup_layers (l # ls) key sequence =
     (case lookup_in l key sequence of Absent \<Rightarrow> lookup_layers ls key sequence | r \<Rightarrow> r)"

definition newer :: "entry list \<Rightarrow> entry list \<Rightarrow> bool" where
  "newer a b \<longleftrightarrow> (\<forall>x \<in> set a. \<forall>y \<in> set b. entry_user x = entry_user y \<longrightarrow> entry_seq y < entry_seq x)"

definition newest_first :: "entry list list \<Rightarrow> bool" where
  "newest_first ls \<longleftrightarrow> sorted_wrt newer ls"

definition user_disjoint :: "entry list list \<Rightarrow> bool" where
  "user_disjoint ls \<longleftrightarrow> sorted_wrt (\<lambda>a b. \<forall>x \<in> set a. \<forall>y \<in> set b. entry_user x < entry_user y) ls"

fun layers :: "entry list list list \<Rightarrow> entry list list" where
  "layers [] = []"
| "layers (level0 # levels) = level0 @ map concat levels"

definition table_rep :: "VTable \<Rightarrow> entry list \<Rightarrow> bool" where
  "table_rep t es \<longleftrightarrow> (\<exists>r ess. reader_rep r ess (vt_reader t) \<and> concat ess = es) \<and> es \<noteq> [] \<and>
     tm_smallest_key (vt_meta t) = fst (hd es) \<and> tm_largest_key (vt_meta t) = fst (last es)"

definition version_rep :: "Version \<Rightarrow> entry list list list \<Rightarrow> bool" where
  "version_rep v lls \<longleftrightarrow> length lls = kNumLevels \<and> list_all2 (list_all2 table_rep) (ver_levels v) lls"

definition version_inv :: "entry list list list \<Rightarrow> bool" where
  "version_inv lls \<longleftrightarrow> newest_first (layers lls) \<and> (\<forall>ls \<in> set (tl lls). user_disjoint ls)"

lemma lookup_layers_Absent:
  "lookup_layers ls k s = Absent \<longleftrightarrow> (\<forall>l \<in> set ls. \<forall>e \<in> set l. \<not> visible k s e)"
proof (induction ls)
  case (Cons l ls)
  then show ?case using lookup_in_Absent [of l k s] by (cases "lookup_in l k s") auto
qed simp

lemma lookup_layers_append:
  "lookup_layers (ls @ ms) k s = (case lookup_layers ls k s of Absent \<Rightarrow> lookup_layers ms k s | r \<Rightarrow> r)"
  by (induction ls) (auto split: LookupResult.splits)

lemma table_repD:
  assumes "table_rep t es"
  shows "sorted_entries es" "es \<noteq> []"
    and "table_userKey (tm_smallest_key (vt_meta t)) = entry_user (hd es)"
    and "table_userKey (tm_largest_key (vt_meta t)) = entry_user (last es)"
    and "e \<in> set es \<Longrightarrow> entry_user (hd es) \<le> entry_user e \<and> entry_user e \<le> entry_user (last es)"
proof -
  show s: "sorted_entries es" "es \<noteq> []" using assms by (auto simp: table_rep_def reader_rep_def table_ok_def)
  have wf: "wf_ikey (fst (hd es))" "wf_ikey (fst (last es))" using s by (auto simp: sorted_entries_def)
  show "table_userKey (tm_smallest_key (vt_meta t)) = entry_user (hd es)"
    "table_userKey (tm_largest_key (vt_meta t)) = entry_user (last es)"
    using assms entry_encode(3) [OF wf(1)] entry_encode(3) [OF wf(2)] by (auto simp: table_userKey_def table_rep_def)
  assume "e \<in> set es"
  then obtain i where "i < length es" "e = es ! i" by (auto simp: in_set_conv_nth)
  then show "entry_user (hd es) \<le> entry_user e \<and> entry_user e \<le> entry_user (last es)"
    using sorted_user_mono [OF s(1), of 0 i] sorted_user_mono [OF s(1), of i "length es - 1"] s(2)
    by (simp add: hd_conv_nth last_conv_nth)
qed

lemma table_get:
  assumes "table_rep t es" "s \<le> kMaxSequenceNumber"
    and "SSTableReader_get options key s (vt_reader t) env = (res, env')"
  shows "res = Inr (lookup_in es key s) \<or> (\<exists>st. res = Inl st \<and> \<not> status_ok st)"
    and "quiet_at F env \<Longrightarrow> res = Inr (lookup_in es key s) \<and> quiet_at F env'"
proof -
  obtain r ess where "reader_rep r ess (vt_reader t)" "es = concat ess" using assms(1) by (auto simp: table_rep_def)
  then show "res = Inr (lookup_in es key s) \<or> (\<exists>st. res = Inl st \<and> \<not> status_ok st)"
    "quiet_at F env \<Longrightarrow> res = Inr (lookup_in es key s) \<and> quiet_at F env'"
    using reader_get [OF _ assms(2,3)] by blast+
qed

subsection \<open>Lookups in a version\<close>

lemma filter_concat_single:
  "i < length ls \<Longrightarrow> \<forall>j < length ls. j \<noteq> i \<longrightarrow> filter P (ls ! j) = [] \<Longrightarrow>
     filter P (concat ls) = filter P (ls ! i)"
proof (induction ls arbitrary: i)
  case (Cons l ls)
  show ?case
  proof (cases i)
    case 0
    then have "\<forall>j < length ls. filter P (ls ! j) = []" using Cons.prems(2) by fastforce
    then have "filter P (concat ls) = []" by (fastforce simp: filter_empty_conv in_set_conv_nth)
    then show ?thesis using 0 by simp
  next
    case (Suc k)
    then have "filter P l = []" "\<forall>j < length ls. j \<noteq> k \<longrightarrow> filter P (ls ! j) = []" "k < length ls"
      using Cons.prems by fastforce+
    then show ?thesis using Cons.IH Suc by simp
  qed
qed simp

text \<open>The table that the binary search finds is the only one of its level that can hold the key.\<close>

lemma level_candidate_lookup:
  assumes rep: "list_all2 table_rep tables ls" and dis: "user_disjoint ls"
  shows "(level_candidate key tables = None \<longrightarrow> lookup_in (concat ls) key s = Absent) \<and>
    (\<forall>t. level_candidate key tables = Some t \<longrightarrow>
       (\<exists>l. table_rep t l \<and> lookup_in (concat ls) key s = lookup_in l key s))"
proof -
  let ?P = "\<lambda>t. table_userKey (tm_largest_key (vt_meta t)) < key"
  have len: "length tables = length ls" and t: "table_rep (tables ! j) (ls ! j)" if "j < length ls" for j
    using rep that by (auto simp: list_all2_conv_all_nth)
  have len: "length tables = length ls" using rep list_all2_lengthD by auto
  note td = table_repD [OF t]
  have lt: "entry_user x < entry_user y" if "i < j" "j < length ls" "x \<in> set (ls ! i)" "y \<in> set (ls ! j)" for i j x y
    using dis that by (auto simp: user_disjoint_def sorted_wrt_iff_nth_less)
  have part: "?P (tables ! i)" if "i < j" "j < length ls" "?P (tables ! j)" for i j
    using lt [OF that(1,2), of "last (ls ! i)" "last (ls ! j)"] td(2,4) [of i] td(2,4) [of j] that by force
  define i where "i = std_lower_bound ?P tables 0 (length tables)"
  have i: "i = length (takeWhile ?P tables)"
    unfolding i_def by (rule std_lower_bound_partition) (use part len in auto)
  have before: "filter (visible key s) (ls ! j) = []" if "j < i" for j
  proof -
    have j: "j < length (takeWhile ?P tables)" using that i by simp
    then have "?P (tables ! j)" using nth_mem [OF j] by (metis set_takeWhileD takeWhile_nth)
    moreover have jl: "j < length ls" using j length_takeWhile_le [of ?P tables] len by linarith
    ultimately have "entry_user (last (ls ! j)) < key" using td(4) by simp
    then have "entry_user e \<noteq> key" if "e \<in> set (ls ! j)" for e using td(5) [OF jl that] by auto
    then show ?thesis by (simp add: filter_empty_conv visible_def)
  qed
  have after: "filter (visible key s) (ls ! j) = []" if "i < j" "j < length ls" for j
  proof -
    have "\<not> ?P (tables ! i)" using nth_length_takeWhile [of ?P tables] that len i by simp
    moreover have il: "i < length ls" using that by simp
    ultimately have "key \<le> entry_user (last (ls ! i))" "last (ls ! i) \<in> set (ls ! i)"
      using td(2) [OF il] td(4) [OF il] by (simp_all add: not_less)
    then have "entry_user e \<noteq> key" if "e \<in> set (ls ! j)" for e
      using lt [OF \<open>i < j\<close> \<open>j < length ls\<close> _ that, of "last (ls ! i)"] by (metis leD)
    then show ?thesis by (simp add: filter_empty_conv visible_def)
  qed
  show ?thesis
  proof (cases "i < length ls")
    case False
    have "filter (visible key s) l = []" if l: "l \<in> set ls" for l
    proof -
      obtain j where "j < length ls" "l = ls ! j" using l by (auto simp: in_set_conv_nth)
      then show ?thesis using before [of j] False by simp
    qed
    then have "lookup_in (concat ls) key s = Absent" by (auto simp: lookup_in_Absent filter_empty_conv)
    moreover have "i = length tables" using False i len length_takeWhile_le [of ?P tables] by simp
    ultimately show ?thesis unfolding level_candidate_def i_def [symmetric] by simp
  next
    case True
    have l: "filter (visible key s) (concat ls) = filter (visible key s) (ls ! i)"
    proof (rule filter_concat_single [OF True], intro allI impI)
      fix j assume "j < length ls" "j \<noteq> i"
      then show "filter (visible key s) (ls ! j) = []" using before [of j] after [of j] by (cases "j < i") simp_all
    qed
    have none: "filter (visible key s) (ls ! i) = []" if "key < entry_user (hd (ls ! i))"
    proof -
      have "entry_user e \<noteq> key" if "e \<in> set (ls ! i)" for e
        using \<open>key < entry_user (hd (ls ! i))\<close> td(5) [OF True that] by auto
      then show ?thesis by (simp add: filter_empty_conv visible_def)
    qed
    show ?thesis
      unfolding level_candidate_def i_def [symmetric] Let_def
      using True len l none t [OF True] td(3) [OF True] by (auto simp: lookup_in_def)
  qed
qed

lemma get_level0_rep:
  assumes "list_all2 table_rep tables ls" "s \<le> kMaxSequenceNumber"
    and "get_level0 options key s tables env = (res, env')"
  shows "res = Inr (lookup_layers ls key s) \<or> (\<exists>st. res = Inl st \<and> \<not> status_ok st)"
    and "quiet_at F env \<Longrightarrow> res = Inr (lookup_layers ls key s) \<and> quiet_at F env'"
proof -
  have "(res = Inr (lookup_layers ls key s) \<or> (\<exists>st. res = Inl st \<and> \<not> status_ok st)) \<and>
    (quiet_at F env \<longrightarrow> res = Inr (lookup_layers ls key s) \<and> quiet_at F env')"
    using assms
  proof (induction tables ls arbitrary: env rule: list_all2_induct)
    case (Cons t tables l ls)
    obtain r env1 where g: "SSTableReader_get options key s (vt_reader t) env = (r, env1)" by fastforce
    note tg = table_get [OF Cons.hyps(1) Cons.prems(1) g]
    show ?case
    proof (cases "r = Inr Absent")
      case True
      then have "get_level0 options key s tables env1 = (res, env')" using Cons.prems(2) g by simp
      from Cons.IH [OF Cons.prems(1) this] show ?thesis using tg True by auto
    next
      case False
      then have "(res, env') = (r, env1)"
        using Cons.prems(2) g by (auto split: sum.splits LookupResult.splits)
      then show ?thesis using tg False by (auto split: LookupResult.splits)
    qed
  qed simp
  then show "res = Inr (lookup_layers ls key s) \<or> (\<exists>st. res = Inl st \<and> \<not> status_ok st)"
    "quiet_at F env \<Longrightarrow> res = Inr (lookup_layers ls key s) \<and> quiet_at F env'" by blast+
qed

lemma get_levels_rep:
  assumes "list_all2 (list_all2 table_rep) levels lls" "\<forall>ls \<in> set lls. user_disjoint ls"
    and "s \<le> kMaxSequenceNumber" "get_levels options key s levels env = (res, env')"
  shows "res = Inr (lookup_layers (map concat lls) key s) \<or> (\<exists>st. res = Inl st \<and> \<not> status_ok st)"
    and "quiet_at F env \<Longrightarrow> res = Inr (lookup_layers (map concat lls) key s) \<and> quiet_at F env'"
proof -
  have "(res = Inr (lookup_layers (map concat lls) key s) \<or> (\<exists>st. res = Inl st \<and> \<not> status_ok st)) \<and>
    (quiet_at F env \<longrightarrow> res = Inr (lookup_layers (map concat lls) key s) \<and> quiet_at F env')"
    using assms
  proof (induction levels lls arbitrary: env rule: list_all2_induct)
    case (Cons tables levels ls lls)
    note c = level_candidate_lookup [OF Cons.hyps(1), of key s]
    show ?case
    proof (cases "level_candidate key tables")
      case None
      then show ?thesis using c Cons by simp
    next
      case (Some t)
      then obtain l where l: "table_rep t l" "lookup_in (concat ls) key s = lookup_in l key s"
        using c Cons.prems(1) by auto
      obtain r env1 where g: "SSTableReader_get options key s (vt_reader t) env = (r, env1)" by fastforce
      note tg = table_get [OF l(1) Cons.prems(2) g]
      show ?thesis
      proof (cases "r = Inr Absent")
        case True
        then have "get_levels options key s levels env1 = (res, env')" using Cons.prems(3) g Some by simp
        then show ?thesis using Cons.IH [of env1] Cons.prems(1,2) tg True l(2) by auto
      next
        case False
        then have "(res, env') = (r, env1)"
          using Cons.prems(3) g Some by (auto split: sum.splits LookupResult.splits)
        then show ?thesis using tg False l(2) by (auto split: LookupResult.splits)
      qed
    qed
  qed simp
  then show "res = Inr (lookup_layers (map concat lls) key s) \<or> (\<exists>st. res = Inl st \<and> \<not> status_ok st)"
    "quiet_at F env \<Longrightarrow> res = Inr (lookup_layers (map concat lls) key s) \<and> quiet_at F env'" by blast+
qed

lemmas level_consts = kLevel0_def kLevel1_def kLevel2_def kNumLevels_def

lemma version_repE:
  assumes "version_rep v lls"
  obtains t0 t1 t2 l0 l1 l2 where "ver_levels v = [t0, t1, t2]" "lls = [l0, l1, l2]"
    "list_all2 table_rep t0 l0" "list_all2 table_rep t1 l1" "list_all2 table_rep t2 l2"
proof -
  have "length lls = 3" "list_all2 (list_all2 table_rep) (ver_levels v) lls"
    using assms by (simp_all add: version_rep_def level_consts)
  then show ?thesis using that by (auto simp: numeral_3_eq_3 length_Suc_conv list_all2_Cons2)
qed

lemma version_get_layers:
  assumes rep: "version_rep v lls" and inv: "version_inv lls" and seq: "s \<le> kMaxSequenceNumber"
    and get: "Version_get options key s v env = (res, env')"
  shows "res = Inr (lookup_layers (layers lls) key s) \<or> (\<exists>st. res = Inl st \<and> \<not> status_ok st)"
    and "quiet_at F env \<Longrightarrow> res = Inr (lookup_layers (layers lls) key s) \<and> quiet_at F env'"
proof -
  obtain t0 t1 t2 l0 l1 l2 where v: "ver_levels v = [t0, t1, t2]" "lls = [l0, l1, l2]"
    "list_all2 table_rep t0 l0" "list_all2 table_rep t1 l1" "list_all2 table_rep t2 l2"
    by (rule version_repE [OF rep])
  obtain r env1 where g: "get_level0 options key s t0 env = (r, env1)" by fastforce
  note g0 = get_level0_rep [OF v(3) seq g]
  have lay: "layers lls = l0 @ map concat [l1, l2]" by (simp add: v)
  have dis: "\<forall>ls \<in> set [l1, l2]. user_disjoint ls" using inv by (simp add: version_inv_def v)
  have "(res = Inr (lookup_layers (layers lls) key s) \<or> (\<exists>st. res = Inl st \<and> \<not> status_ok st)) \<and>
    (quiet_at F env \<longrightarrow> res = Inr (lookup_layers (layers lls) key s) \<and> quiet_at F env')"
  proof (cases "r = Inr Absent")
    case True
    then have "get_levels options key s [t1, t2] env1 = (res, env')"
      using get g by (simp add: Version_get_def v level_consts)
    from get_levels_rep [OF _ dis seq this] v(4,5) show ?thesis
      unfolding lay lookup_layers_append using g0 True by auto
  next
    case False
    then have "(res, env') = (r, env1)"
      using get g by (auto simp: Version_get_def v level_consts split: sum.splits LookupResult.splits)
    then show ?thesis unfolding lay lookup_layers_append using g0 False by (auto split: LookupResult.splits)
  qed
  then show "res = Inr (lookup_layers (layers lls) key s) \<or> (\<exists>st. res = Inl st \<and> \<not> status_ok st)"
    "quiet_at F env \<Longrightarrow> res = Inr (lookup_layers (layers lls) key s) \<and> quiet_at F env'" by blast+
qed

text \<open>When the layers are ordered by age, they answer like all their entries together.\<close>

lemma lookup_layers_least:
  assumes "newest_first ls" "\<forall>l \<in> set ls. sorted_entries l" "lookup_layers ls k s \<noteq> Absent"
  shows "\<exists>l \<in> set ls. \<exists>e \<in> set l. visible k s e \<and> lookup_layers ls k s = entry_result e \<and>
    (\<forall>m \<in> set ls. \<forall>x \<in> set m. visible k s x \<longrightarrow> x = e \<or> entry_less e x)"
  using assms
proof (induction ls)
  case (Cons l ls)
  have l: "sorted_entries l" using Cons.prems(2) by simp
  show ?case
  proof (cases "lookup_in l k s = Absent")
    case True
    then obtain m e where "m \<in> set ls" "e \<in> set m" "visible k s e" "lookup_layers ls k s = entry_result e"
      "\<forall>m \<in> set ls. \<forall>x \<in> set m. visible k s x \<longrightarrow> x = e \<or> entry_less e x"
      using Cons by (auto simp: newest_first_def)
    then show ?thesis using True lookup_in_Absent [of l k s] by auto
  next
    case False
    then obtain e ys where f: "filter (visible k s) l = e # ys" by (auto simp: lookup_in_def split: list.splits)
    then have "e \<in> set (filter (visible k s) l)" by simp
    then have e: "e \<in> set l" "visible k s e" by simp_all
    have "x = e \<or> entry_less e x" if x: "x \<in> set l" "visible k s x" for x
    proof -
      have "x \<in> set (e # ys)" unfolding f [symmetric] using x by simp
      moreover have "sorted_entries (e # ys)" using sorted_entries_filter [OF l] f by metis
      ultimately show ?thesis by (auto simp: sorted_entries_Cons)
    qed
    moreover have "entry_less e x" if x: "m \<in> set ls" "x \<in> set m" "visible k s x" for m x
    proof -
      have "entry_user e = entry_user x" using e x by (simp add: visible_def)
      then have "entry_seq x < entry_seq e"
        using Cons.prems(1) x(1,2) e(1) by (simp add: newest_first_def newer_def)
      moreover have "wf_ikey (fst e)" "wf_ikey (fst x)"
        using Cons.prems(2) e(1) x(1,2) by (auto simp: sorted_entries_def)
      ultimately show ?thesis using \<open>entry_user e = entry_user x\<close> by (simp add: entry_less_iff)
    qed
    moreover have "lookup_layers (l # ls) k s = entry_result e"
      using f False by (auto simp: lookup_in_def entry_result_def split: if_splits)
    ultimately have "lookup_layers (l # ls) k s = entry_result e"
      "\<forall>m \<in> set (l # ls). \<forall>x \<in> set m. visible k s x \<longrightarrow> x = e \<or> entry_less e x"
      unfolding set_simps by blast+
    then show ?thesis using e by (intro bexI [of _ l] bexI [of _ e] conjI) (simp_all only: list.set_intros)
  qed
qed simp

lemma lookup_in_least:
  assumes "sorted_entries es" "e \<in> set es" "visible k s e"
    and "\<And>x. x \<in> set es \<Longrightarrow> visible k s x \<Longrightarrow> x = e \<or> entry_less e x"
  shows "lookup_in es k s = entry_result e"
proof -
  have "e \<in> set (filter (visible k s) es)" using assms(2,3) by simp
  then obtain y ys where f: "filter (visible k s) es = y # ys" by (cases "filter (visible k s) es") auto
  have s: "sorted_entries (y # ys)" using sorted_entries_filter [OF assms(1)] f by metis
  have "y \<in> set (filter (visible k s) es)" unfolding f by simp
  then have y: "y = e \<or> entry_less e y" using assms(4) by simp
  have "e = y \<or> entry_less y e" using s \<open>e \<in> set (filter _ _)\<close> f by (auto simp: sorted_entries_Cons)
  moreover have "wf_ikey (fst e)" "wf_ikey (fst y)" using s \<open>e \<in> set (filter _ _)\<close> f by (auto simp: sorted_entries_def)
  ultimately have "y = e" using y wfkey.less_asym unfolding entry_less_def by blast
  then show ?thesis by (simp add: lookup_in_def f)
qed

lemma lookup_layers_merged:
  assumes "newest_first ls" "\<forall>l \<in> set ls. sorted_entries l" "sorted_entries es" "set es = \<Union> (set ` set ls)"
  shows "lookup_layers ls k s = lookup_in es k s"
proof (cases "lookup_layers ls k s = Absent")
  case True
  then have "lookup_in es k s = Absent" using assms(4) by (auto simp: lookup_layers_Absent lookup_in_Absent)
  then show ?thesis using True by simp
next
  case False
  from lookup_layers_least [OF assms(1,2) False] obtain l e where l: "l \<in> set ls" "e \<in> set l" "visible k s e"
    "lookup_layers ls k s = entry_result e"
    "\<forall>m \<in> set ls. \<forall>x \<in> set m. visible k s x \<longrightarrow> x = e \<or> entry_less e x" by blast
  have "lookup_in es k s = entry_result e"
    by (rule lookup_in_least [OF assms(3) _ l(3)]) (use l(1,2,5) assms(4) in blast)+
  then show ?thesis using l(4) by simp
qed

subsection \<open>Opening a version\<close>

text \<open>The file of a table is in the directory, with the size the manifest gives.\<close>

definition table_stored :: "string \<Rightarrow> fs \<Rightarrow> VTable \<Rightarrow> bool" where
  "table_stored d F t \<longleftrightarrow>
     F (sstableFileName d (tm_number (vt_meta t))) = Some (sr_content (vt_reader t)) \<and>
     tm_file_size (vt_meta t) = sr_file_size (vt_reader t)"

definition version_metas :: "Version \<Rightarrow> TableMeta list list" where
  "version_metas v = map (map vt_meta) (ver_levels v)"

lemma numbered_path_nonempty: "sstableFileName d n \<noteq> []"
  using padded_props(3) [of n] by (simp add: names_def path_join_def padded_props(4))

lemma quiet_openTable:
  assumes "quiet_at F env" "table_rep t es" "table_stored d F t"
  shows "\<exists>env'. openTable d (vt_meta t) env = (Inr t, env') \<and> quiet_at F env'"
proof -
  let ?p = "sstableFileName d (tm_number (vt_meta t))"
  obtain r ess where r: "reader_rep r ess (vt_reader t)" using assms(2) by (auto simp: table_rep_def)
  let ?c = "table_bytes r ess"
  have c: "table_ok r ess" "F ?p = Some ?c" "tm_file_size (vt_meta t) = of_nat (length ?c)" "length ?c < 2 ^ 32"
    using r assms(3) by (auto simp: reader_rep_def table_stored_def table_ok_def)
  have size: "unat (tm_file_size (vt_meta t)) = length ?c" unfolding c(3) using c(4) by (intro unat_u64) simp
  obtain e1 where e1: "sys_exists ?p env = (Inr True, e1)" "quiet_at F e1"
    using quiet_sys_exists [OF assms(1), of ?p] c(2) by auto
  obtain e2 where e2: "sys_file_size ?p e1 = (Inr (length ?c), e2)" "quiet_at F e2"
    using quiet_sys_file_size [OF e1(2) c(2)] by auto
  obtain t' e3 where e3: "SSTableReader_open ?p e2 = (Inr t', e3)" "reader_rep r ess t'" "quiet_at F e3"
    using open_reader [OF e2(2) c(2,1) numbered_path_nonempty] by blast
  have "t' = vt_reader t" using e3(2) r by (simp add: reader_rep_def)
  then show ?thesis using e1 e2 e3 size by (simp add: openTable_def)
qed

lemma quiet_openLevel:
  assumes "list_all2 table_rep ts ls" "\<forall>t \<in> set ts. table_stored d F t" "quiet_at F env"
  shows "\<exists>env'. openLevel d (map vt_meta ts) acc env = (Inr (acc @ ts), env') \<and> quiet_at F env'"
  using assms
proof (induction ts ls arbitrary: env acc rule: list_all2_induct)
  case (Cons t ts l ls)
  obtain e1 where "openTable d (vt_meta t) env = (Inr t, e1)" "quiet_at F e1"
    using quiet_openTable [OF Cons.prems(2) Cons.hyps(1)] Cons.prems(1) by auto
  then show ?case using Cons.IH [of e1 "acc @ [t]"] Cons.prems(1) by auto
qed simp

lemma quiet_open_levels:
  assumes "list_all2 (list_all2 table_rep) tss lls" "\<forall>ts \<in> set tss. \<forall>t \<in> set ts. table_stored d F t"
    and "quiet_at F env"
  shows "\<exists>env'. open_levels d (map (map vt_meta) tss) acc env = (Inr (acc @ tss), env') \<and> quiet_at F env'"
  using assms
proof (induction tss lls arbitrary: env acc rule: list_all2_induct)
  case (Cons ts tss ls lls)
  obtain e1 where "openLevel d (map vt_meta ts) [] env = (Inr ts, e1)" "quiet_at F e1"
    using quiet_openLevel [OF Cons.hyps(1) _ Cons.prems(2), of d "[]"] Cons.prems(1) by auto
  then show ?case using Cons.IH [of e1 "acc @ [ts]"] Cons.prems(1) by auto
qed simp

lemma quiet_version_open:
  assumes "version_rep v lls" "\<forall>ts \<in> set (ver_levels v). \<forall>t \<in> set ts. table_stored d F t"
    and "ms_levels m = version_metas v" "quiet_at F env"
  shows "\<exists>env'. Version_open d m env = (Inr v, env') \<and> quiet_at F env'"
  using quiet_open_levels [OF _ assms(2,4), of lls "[]"] assms(1,3)
  by (auto simp: Version_open_def version_metas_def version_rep_def)

subsection \<open>New versions\<close>

lemma version_metas_level0:
  assumes "version_rep v lls"
  shows "version_metas (Version_withLevel0Table meta reader v) =
    (version_metas v)[kLevel0 := meta # version_metas v ! kLevel0]"
  by (rule version_repE [OF assms])
    (auto simp: version_metas_def Version_withLevel0Table_def level_consts)

lemma version_rep_level0:
  assumes "version_rep v lls" "table_rep \<lparr>vt_meta = meta, vt_reader = reader\<rparr> es"
  shows "version_rep (Version_withLevel0Table meta reader v) (lls[kLevel0 := es # lls ! kLevel0])"
  by (rule version_repE [OF assms(1)])
    (use assms(2) in \<open>auto simp: version_rep_def Version_withLevel0Table_def level_consts\<close>)

lemma layers_level0:
  assumes "version_rep v lls"
  shows "layers (lls[kLevel0 := es # lls ! kLevel0]) = es # layers lls"
  by (rule version_repE [OF assms]) (auto simp: level_consts)

lemma version_inv_level0:
  assumes "version_rep v lls" "version_inv lls" "\<forall>l \<in> set (layers lls). newer es l"
  shows "version_inv (lls[kLevel0 := es # lls ! kLevel0])"
proof -
  have "tl (lls[kLevel0 := es # lls ! kLevel0]) = tl lls"
    by (rule version_repE [OF assms(1)]) (auto simp: level_consts)
  then show ?thesis
    using assms(2,3) unfolding version_inv_def newest_first_def layers_level0 [OF assms(1)] by simp
qed

lemma list_all2_erase: "list_all2 P xs ys \<Longrightarrow> list_all2 P (erase_range r xs) (erase_range r ys)"
  by (simp add: erase_range_def list_all2_appendI list_all2_takeI list_all2_dropI)

lemma list_all2_insert: "list_all2 P xs ys \<Longrightarrow> list_all2 P us ws \<Longrightarrow> list_all2 P (insert_at i us xs) (insert_at i ws ys)"
  by (simp add: insert_at_def list_all2_appendI list_all2_takeI list_all2_dropI)

lemma map_erase: "map f (erase_range r xs) = erase_range r (map f xs)"
  by (simp add: erase_range_def take_map drop_map)

lemma map_insert_at: "map f (insert_at i ys xs) = insert_at i (map f ys) (map f xs)"
  by (simp add: insert_at_def take_map drop_map)

text \<open>The replacement of a range of one level and of a range of the next one, on any data.\<close>

definition compact_levels :: "nat \<Rightarrow> IndexRange \<Rightarrow> IndexRange \<Rightarrow> 'a list \<Rightarrow> 'a list list \<Rightarrow> 'a list list" where
  "compact_levels i inputs overlaps outputs ls =
     ls[i := erase_range inputs (ls ! i),
        Suc i := insert_at (ir_begin overlaps) outputs (erase_range overlaps (ls ! Suc i))]"

lemma withCompaction_levels:
  "ver_levels (Version_withCompaction i inputs overlaps outputs v) =
     compact_levels i inputs overlaps outputs (ver_levels v)"
  by (simp add: Version_withCompaction_def compact_levels_def Let_def)

lemma version_rep_compaction:
  assumes "version_rep v lls" "list_all2 table_rep outputs ls" "Suc i < kNumLevels"
  shows "version_rep (Version_withCompaction i inputs overlaps outputs v)
    (compact_levels i inputs overlaps ls lls)"
proof -
  have l: "list_all2 (list_all2 table_rep) (ver_levels v) lls" "length lls = kNumLevels"
    using assms(1) by (simp_all add: version_rep_def)
  then have "list_all2 table_rep (ver_levels v ! j) (lls ! j)" if "j \<le> Suc i" for j
    using that assms(3) by (intro list_all2_nthD2 [OF l(1)]) simp
  then show ?thesis
    using assms(2,3) l unfolding version_rep_def withCompaction_levels compact_levels_def
    by (auto intro!: list_all2_update_cong list_all2_erase list_all2_insert)
qed

lemma version_metas_compaction:
  assumes "Suc i < length (ver_levels v)"
  shows "version_metas (Version_withCompaction i inputs overlaps outputs v) =
    compact_levels i inputs overlaps (map vt_meta outputs) (version_metas v)"
  using assms unfolding version_metas_def withCompaction_levels compact_levels_def
  by (simp add: map_update map_erase map_insert_at)

end
