(* ===== verification/Compaction.thy ===== *)
theory Compaction
  imports DBIterator Version
begin

text \<open>
  \<^verbatim>\<open>src/db/compaction.h\<close> and \<^verbatim>\<open>compaction.cc\<close>: when a compaction is due, which tables it replaces, and
  how their entries are merged, filtered and written to new tables.  The allocator of file
  numbers is an argument with its own state.  The iterators read with the answers of \<open>renv\<close>, the
  writer with those of the environment that is threaded through.  The writer goes out of scope on
  every way out; \<open>OutputWriter_destroy\<close> is its destructor.
\<close>

definition kLevel0CompactionTrigger :: nat where
  "kLevel0CompactionTrigger = 4"

definition kLevel1CompactionBytes :: u64 where
  "kLevel1CompactionBytes = 10 * 1024 * 1024"

definition kCompactionOutputBytes :: nat where
  "kCompactionOutputBytes = 2 * 1024 * 1024"

record CompactionOptions =
  co_level1_bytes :: u64
  co_output_bytes :: nat

definition CompactionOptions_default :: CompactionOptions where
  "CompactionOptions_default =
     \<lparr>co_level1_bytes = kLevel1CompactionBytes, co_output_bytes = kCompactionOutputBytes\<rparr>"

record CompactionPlan =
  cp_input_version :: "Version option"
  cp_oldest_snapshot :: SequenceNumber
  cp_input_level :: nat
  cp_inputs :: IndexRange
  cp_overlaps :: IndexRange

definition outputLevel :: "CompactionPlan \<Rightarrow> nat" where
  "outputLevel plan = cp_input_level plan + 1"

record CompactionOutput =
  out_meta :: TableMeta
  out_reader :: SSTableReader

type_synonym 'n allocator = "'n \<Rightarrow> u64 result \<times> 'n"

definition builder_defaults :: SSTableBuilderOptions where
  "builder_defaults = \<lparr>sbo_block_size = 4096, sbo_restart_interval = 16\<rparr>"

fun at_limit :: "VTable list \<Rightarrow> u64 \<Rightarrow> bool" where
  "at_limit [] remaining = False"
| "at_limit (table # tables) remaining =
     (if tm_file_size (vt_meta table) \<ge> remaining then True
      else at_limit tables (remaining - tm_file_size (vt_meta table)))"

definition levelAtLimit :: "VTable list \<Rightarrow> u64 \<Rightarrow> bool" where
  "levelAtLimit tables limit =
     (if tables = [] then False else if limit = 0 then True else at_limit tables limit)"

fun user_range :: "VTable list \<Rightarrow> bytes \<Rightarrow> bytes \<Rightarrow> bytes \<times> bytes" where
  "user_range [] smallest largest = (smallest, largest)"
| "user_range (table # tables) smallest largest =
     (let table_smallest = table_userKey (tm_smallest_key (vt_meta table));
          table_largest = table_userKey (tm_largest_key (vt_meta table))
      in user_range tables (if table_smallest < smallest then table_smallest else smallest)
           (if largest < table_largest then table_largest else largest))"

definition userRange :: "VTable list \<Rightarrow> IndexRange \<Rightarrow> bytes \<times> bytes" where
  "userRange tables range1 =
     (let first = vt_meta (tables ! ir_begin range1)
      in user_range (drop (ir_begin range1 + 1) (take (ir_end range1) tables))
           (table_userKey (tm_smallest_key first)) (table_userKey (tm_largest_key first)))"

definition overlappingRange :: "VTable list \<Rightarrow> bytes \<Rightarrow> bytes \<Rightarrow> IndexRange" where
  "overlappingRange tables smallest largest =
     (let first = std_lower_bound (\<lambda>table. table_userKey (tm_largest_key (vt_meta table)) < smallest)
                    tables 0 (length tables);
          last = first + length (takeWhile
                    (\<lambda>table. \<not> largest < table_userKey (tm_smallest_key (vt_meta table))) (drop first tables))
      in \<lparr>ir_begin = first, ir_end = last\<rparr>)"

definition needsCompaction :: "Version \<Rightarrow> CompactionOptions \<Rightarrow> bool" where
  "needsCompaction version options \<longleftrightarrow>
     length (Version_level kLevel0 version) \<ge> kLevel0CompactionTrigger \<or>
     levelAtLimit (Version_level kLevel1 version) (co_level1_bytes options)"

definition pickCompaction ::
  "Version option \<Rightarrow> SequenceNumber \<Rightarrow> CompactionOptions \<Rightarrow> CompactionPlan option" where
  "pickCompaction version oldest_snapshot options =
     (case version of
        None \<Rightarrow> None
      | Some v \<Rightarrow>
         (case (if length (Version_level kLevel0 v) \<ge> kLevel0CompactionTrigger
                then Some (kLevel0, \<lparr>ir_begin = 0, ir_end = length (Version_level kLevel0 v)\<rparr>)
                else if levelAtLimit (Version_level kLevel1 v) (co_level1_bytes options)
                then Some (kLevel1, \<lparr>ir_begin = 0, ir_end = 1\<rparr>)
                else None) of
            None \<Rightarrow> None
          | Some (input_level, inputs) \<Rightarrow>
              let (smallest, largest) = userRange (Version_level input_level v) inputs;
                  overlaps = overlappingRange (Version_level (input_level + 1) v) smallest largest
              in Some \<lparr>cp_input_version = version, cp_oldest_snapshot = oldest_snapshot,
                       cp_input_level = input_level, cp_inputs = inputs, cp_overlaps = overlaps\<rparr>))"

subsection \<open>The output writer\<close>

record OutputWriter =
  ow_directory :: string
  ow_target_file_size :: nat
  ow_builder :: "SSTableBuilder option"
  ow_completed_outputs :: "CompactionOutput list"
  ow_current_number :: u64
  ow_last_user_key :: bytes
  ow_released :: bool

definition OutputWriter_new :: "string \<Rightarrow> nat \<Rightarrow> OutputWriter" where
  "OutputWriter_new directory target_file_size =
     \<lparr>ow_directory = directory, ow_target_file_size = target_file_size, ow_builder = None,
      ow_completed_outputs = [], ow_current_number = 0, ow_last_user_key = [], ow_released = False\<rparr>"

definition renameTable :: "string \<Rightarrow> string \<Rightarrow> Env \<Rightarrow> Status \<times> Env" where
  "renameTable temporary_path final_path env =
     (case sys_rename temporary_path final_path env of
        (None, env) \<Rightarrow> (success, env)
      | (Some error, env) \<Rightarrow>
          (filesystemError ''rename'' temporary_path error, removeFileBestEffort temporary_path env))"

fun removeOutputs :: "string \<Rightarrow> CompactionOutput list \<Rightarrow> Env \<Rightarrow> Env" where
  "removeOutputs directory [] env = env"
| "removeOutputs directory (output # outputs) env =
     removeOutputs directory outputs
       (removeFileBestEffort (sstableFileName directory (tm_number (out_meta output))) env)"

definition OutputWriter_destroy :: "OutputWriter \<Rightarrow> Env \<Rightarrow> Env" where
  "OutputWriter_destroy w env =
     (let env = (case ow_builder w of None \<Rightarrow> env | Some b \<Rightarrow> snd (SSTableBuilder_abandon b env))
      in if \<not> ow_released w then removeOutputs (ow_directory w) (ow_completed_outputs w) env else env)"

definition OutputWriter_openOutput ::
  "'n allocator \<Rightarrow> OutputWriter \<Rightarrow> 'n \<Rightarrow> Env \<Rightarrow> Status \<times> OutputWriter \<times> 'n \<times> Env" where
  "OutputWriter_openOutput allocate_file_number w n env =
     (case allocate_file_number n of
        (Inl status, n) \<Rightarrow> (status, w, n, env)
      | (Inr number, n) \<Rightarrow>
          let w = w\<lparr>ow_current_number := number\<rparr> in
          if number = 0
          then (invalidArgument ''compaction file number must be positive'', w, n, env)
          else let final_path = sstableFileName (ow_directory w) number in
            case sys_exists final_path env of
              (Inl error, env) \<Rightarrow> (filesystemError ''stat'' final_path error, w, n, env)
            | (Inr True, env) \<Rightarrow>
                (alreadyExists (''compaction output already exists: '' @ final_path), w, n, env)
            | (Inr False, env) \<Rightarrow>
               (case SSTableBuilder_open (sstableTemporaryFileName (ow_directory w) number)
                       builder_defaults env of
                  (Inl status, env) \<Rightarrow> (status, w, n, env)
                | (Inr builder, env) \<Rightarrow> (success, w\<lparr>ow_builder := Some builder\<rparr>, n, env)))"

text \<open>Called with a builder only, as the assertion says.\<close>

definition OutputWriter_finishOutput ::
  "SSTableBuilder \<Rightarrow> OutputWriter \<Rightarrow> Env \<Rightarrow> Status \<times> OutputWriter \<times> Env" where
  "OutputWriter_finishOutput builder w env =
     (case SSTableBuilder_finish builder env of
        (Inl status, builder, env) \<Rightarrow> (status, w\<lparr>ow_builder := Some builder\<rparr>, env)
      | (Inr completed, builder, env) \<Rightarrow>
          let env = snd (SSTableBuilder_abandon builder env);
              w = w\<lparr>ow_builder := None\<rparr>;
              temporary_path = sstableTemporaryFileName (ow_directory w) (ow_current_number w);
              final_path = sstableFileName (ow_directory w) (ow_current_number w);
              (status, env) = renameTable temporary_path final_path env
          in if \<not> status_ok status then (status, w, env)
             else case SSTableReader_open final_path env of
               (Inl status, env) \<Rightarrow> (status, w, removeFileBestEffort final_path env)
             | (Inr opened, env) \<Rightarrow>
                 (success,
                  w\<lparr>ow_completed_outputs := ow_completed_outputs w @
                      [\<lparr>out_meta = \<lparr>tm_number = ow_current_number w, tm_file_size = sm_file_size completed,
                                    tm_smallest_key = sm_smallest_key completed,
                                    tm_largest_key = sm_largest_key completed\<rparr>,
                        out_reader = opened\<rparr>],
                    ow_current_number := 0, ow_last_user_key := []\<rparr>, env))"

definition OutputWriter_add ::
  "'n allocator \<Rightarrow> bytes \<Rightarrow> bytes \<Rightarrow> bytes \<Rightarrow> OutputWriter \<Rightarrow> 'n \<Rightarrow> Env \<Rightarrow>
   Status \<times> OutputWriter \<times> 'n \<times> Env" where
  "OutputWriter_add allocate_file_number internal_key user_key value w n env =
     (case (case ow_builder w of
              Some builder \<Rightarrow>
                if ow_last_user_key w \<noteq> user_key \<and>
                   unat (SSTableBuilder_estimatedFileSize builder) \<ge> ow_target_file_size w
                then OutputWriter_finishOutput builder w env else (success, w, env)
            | None \<Rightarrow> (success, w, env)) of
        (status, w, env) \<Rightarrow>
          if \<not> status_ok status then (status, w, n, env)
          else case (if ow_builder w = None
                     then OutputWriter_openOutput allocate_file_number w n env
                     else (success, w, n, env)) of
            (status, w, n, env) \<Rightarrow>
              if \<not> status_ok status then (status, w, n, env)
              else case ow_builder w of
                None \<Rightarrow> (success, w, n, env)
              | Some builder \<Rightarrow>
                 (case SSTableBuilder_add internal_key value builder env of
                    (status, builder, env) \<Rightarrow>
                      let w = w\<lparr>ow_builder := Some builder\<rparr> in
                      if \<not> status_ok status then (status, w, n, env)
                      else (success, w\<lparr>ow_last_user_key := user_key\<rparr>, n, env)))"

definition OutputWriter_finish ::
  "OutputWriter \<Rightarrow> Env \<Rightarrow> CompactionOutput list result \<times> OutputWriter \<times> Env" where
  "OutputWriter_finish w env =
     (case (case ow_builder w of
              Some builder \<Rightarrow> OutputWriter_finishOutput builder w env
            | None \<Rightarrow> (success, w, env)) of
        (status, w, env) \<Rightarrow>
          if \<not> status_ok status then (Inl status, w, env)
          else (Inr (ow_completed_outputs w),
                w\<lparr>ow_completed_outputs := [], ow_released := True\<rparr>, env))"

subsection \<open>Levels below the output\<close>

record BaseLevelChecker =
  bl_version :: Version
  bl_first_level :: nat
  bl_indices :: "nat list"

definition BaseLevelChecker_new :: "Version \<Rightarrow> nat \<Rightarrow> BaseLevelChecker" where
  "BaseLevelChecker_new version output_level =
     \<lparr>bl_version = version, bl_first_level = output_level + 1, bl_indices = replicate kNumLevels 0\<rparr>"

function advance_index :: "VTable list \<Rightarrow> bytes \<Rightarrow> nat \<Rightarrow> nat" where
  "advance_index tables user_key index =
     (if index < length tables \<and> table_userKey (tm_largest_key (vt_meta (tables ! index))) < user_key
      then advance_index tables user_key (index + 1) else index)"
  by pat_completeness auto
termination
  by (relation "measure (\<lambda>(tables, user_key, index). length tables - index)") auto

declare advance_index.simps [simp del]

fun check_levels :: "nat list \<Rightarrow> bytes \<Rightarrow> Version \<Rightarrow> nat list \<Rightarrow> bool \<times> nat list" where
  "check_levels [] user_key version indices = (True, indices)"
| "check_levels (level # levels) user_key version indices =
     (let tables = Version_level level version;
          index = advance_index tables user_key (indices ! level);
          indices = indices[level := index]
      in if index < length tables \<and>
            table_userKey (tm_smallest_key (vt_meta (tables ! index))) \<le> user_key
         then (False, indices)
         else check_levels levels user_key version indices)"

definition isBaseLevelForKey :: "bytes \<Rightarrow> BaseLevelChecker \<Rightarrow> bool \<times> BaseLevelChecker" where
  "isBaseLevelForKey user_key c =
     (let (base, indices) = check_levels [bl_first_level c..<kNumLevels] user_key (bl_version c) (bl_indices c)
      in (base, c\<lparr>bl_indices := indices\<rparr>))"

subsection \<open>The merge\<close>

text \<open>What the loop carries from one entry to the next, apart from iterator and writer.\<close>

record DropState =
  ds_previous_key :: bytes
  ds_current_user_key :: bytes
  ds_last_sequence_for_key :: SequenceNumber
  ds_base_level :: BaseLevelChecker

text \<open>Whether an entry is dropped.\<close>

definition drop_entry ::
  "SequenceNumber \<Rightarrow> bytes \<Rightarrow> ParsedInternalKey \<Rightarrow> DropState \<Rightarrow> bool \<times> DropState" where
  "drop_entry oldest_snapshot key parsed st =
     (let st = (if ds_current_user_key st \<noteq> pk_user_key parsed
                then st\<lparr>ds_current_user_key := pk_user_key parsed,
                        ds_last_sequence_for_key := kMaxSequenceNumber\<rparr>
                else st);
          dropped = (ds_last_sequence_for_key st \<le> oldest_snapshot);
          (dropped, base_level) =
            (if \<not> dropped \<and> pk_type parsed = kDeletion \<and> pk_sequence parsed \<le> oldest_snapshot
             then isBaseLevelForKey (pk_user_key parsed) (ds_base_level st)
             else (dropped, ds_base_level st))
      in (dropped, st\<lparr>ds_base_level := base_level, ds_last_sequence_for_key := pk_sequence parsed,
                   ds_previous_key := key\<rparr>))"

partial_function (option) compact_loop ::
  "'n allocator \<Rightarrow> SequenceNumber \<Rightarrow> Input MergingIterator \<Rightarrow> DropState \<Rightarrow> OutputWriter \<Rightarrow> 'n \<Rightarrow> Env \<Rightarrow>
   (Status \<times> OutputWriter \<times> 'n \<times> Env) option" where
  "compact_loop allocate_file_number oldest_snapshot iterator st w n env =
     (if \<not> it_valid merged_ops iterator then Some (success, w, n, env)
      else let key = it_internalKey merged_ops iterator in
        if ds_previous_key st \<noteq> [] \<and> \<not> InternalKeyLess (ds_previous_key st) key
        then Some (corruption ''compaction inputs contain duplicate internal keys'', w, n, env)
        else case parseInternalKey key of
          None \<Rightarrow> Some (corruption ''compaction input contains invalid internal key'', w, n, env)
        | Some parsed \<Rightarrow>
           (case drop_entry oldest_snapshot key parsed st of
              (dropped, st) \<Rightarrow>
               (case (if \<not> dropped
                      then OutputWriter_add allocate_file_number key (pk_user_key parsed)
                             (it_value merged_ops iterator) w n env
                      else (success, w, n, env)) of
                  (status, w, n, env) \<Rightarrow>
                    if \<not> status_ok status then Some (status, w, n, env)
                    else let iterator = it_next merged_ops iterator in
                      if \<not> status_ok (it_status merged_ops iterator)
                      then Some (it_status merged_ops iterator, w, n, env)
                      else compact_loop allocate_file_number oldest_snapshot iterator st w n env)))"

definition compaction_read_options :: ReadOptions where
  "compaction_read_options = \<lparr>ro_snapshot = None, ro_verify_checksums = True, ro_cache_mode = kFill\<rparr>"

fun add_iterators :: "Env \<Rightarrow> VTable list \<Rightarrow> Input list \<Rightarrow> Input list result" where
  "add_iterators renv [] iterators = Inr iterators"
| "add_iterators renv (table # tables) iterators =
     (let iterator = SSTableIterator_seekToFirst
            (SSTableReader_newIterator compaction_read_options (vt_reader table) renv)
      in if \<not> status_ok (si_status iterator) then Inl (si_status iterator)
         else if \<not> SSTableIterator_valid iterator
         then Inl (corruption ''compaction input SSTable is empty'')
         else add_iterators renv tables (iterators @ [TableInput iterator]))"

definition index_range :: "IndexRange \<Rightarrow> 'a list \<Rightarrow> 'a list" where
  "index_range r xs = drop (ir_begin r) (take (ir_end r) xs)"

definition buildCompactionTables ::
  "CompactionPlan \<Rightarrow> string \<Rightarrow> 'n allocator \<Rightarrow> CompactionOptions \<Rightarrow> Env \<Rightarrow> 'n \<Rightarrow> Env \<Rightarrow>
   (CompactionOutput list result \<times> 'n \<times> Env) option" where
  "buildCompactionTables plan directory allocate_file_number options renv n env =
     (case cp_input_version plan of
        None \<Rightarrow> Some (Inl (invalidArgument ''compaction plan has no input version''), n, env)
      | Some version \<Rightarrow>
          if cp_input_level plan + 1 \<ge> kNumLevels \<or>
             ir_begin (cp_inputs plan) \<ge> ir_end (cp_inputs plan) \<or> co_output_bytes options = 0
          then Some (Inl (invalidArgument ''invalid compaction plan or options''), n, env)
          else
            let source = Version_level (cp_input_level plan) version;
                target = Version_level (outputLevel plan) version
            in if ir_end (cp_inputs plan) > length source \<or>
                  ir_begin (cp_overlaps plan) > ir_end (cp_overlaps plan) \<or>
                  ir_end (cp_overlaps plan) > length target
               then Some (Inl (invalidArgument ''invalid compaction input range''), n, env)
               else case add_iterators renv
                      (index_range (cp_inputs plan) source @ index_range (cp_overlaps plan) target) [] of
                 Inl status \<Rightarrow> Some (Inl status, n, env)
               | Inr iterators \<Rightarrow>
                   let st = \<lparr>ds_previous_key = [], ds_current_user_key = [],
                             ds_last_sequence_for_key = kMaxSequenceNumber,
                             ds_base_level = BaseLevelChecker_new version (outputLevel plan)\<rparr>;
                       w = OutputWriter_new directory (co_output_bytes options);
                       iterator = it_seekToFirst merged_ops (MergingIterator_new iterators)
                   in if \<not> status_ok (it_status merged_ops iterator)
                      then Some (Inl (it_status merged_ops iterator), n, OutputWriter_destroy w env)
                      else case compact_loop allocate_file_number (cp_oldest_snapshot plan) iterator st w n env of
                        None \<Rightarrow> None
                      | Some (status, w, n, env) \<Rightarrow>
                          if \<not> status_ok status then Some (Inl status, n, OutputWriter_destroy w env)
                          else case OutputWriter_finish w env of
                            (result, w, env) \<Rightarrow> Some (result, n, OutputWriter_destroy w env))"

end
