(* ===== verification/CompactionDrop.thy ===== *)
theory CompactionDrop
  imports Compaction
begin

text \<open>
  Which versions a compaction may drop.  \<open>reads_as\<close> says what a reader finds in a set of entries;
  \<open>drops\<close> is the condition under which an entry can go without any reader at or above the
  oldest snapshot noticing, and \<open>kept\<close> is what the loop of \<^verbatim>\<open>buildCompactionTables\<close> keeps, shown to be
  the filter that drops exactly such entries.
\<close>

definition reads_as :: "entry set \<Rightarrow> bytes \<Rightarrow> SequenceNumber \<Rightarrow> bytes \<Rightarrow> bool" where
  "reads_as A k s v \<longleftrightarrow> (\<exists>e \<in> A. visible k s e \<and> entry_type e = kValue \<and> snd e = v \<and>
     (\<forall>x \<in> A. visible k s x \<longrightarrow> x = e \<or> entry_less e x))"

text \<open>
  The versions among \<open>E\<close> that the loop drops: those below another version that the oldest snapshot
  already sees, and the tombstones it sees of keys that no deeper level can hold.
\<close>

definition drops :: "SequenceNumber \<Rightarrow> (bytes \<Rightarrow> bool) \<Rightarrow> entry set \<Rightarrow> entry \<Rightarrow> bool" where
  "drops oldest base E e \<longleftrightarrow>
     (\<exists>x \<in> E. entry_user x = entry_user e \<and> entry_less x e \<and> entry_seq x \<le> oldest) \<or>
     (entry_type e = kDeletion \<and> entry_seq e \<le> oldest \<and> base (entry_user e))"

text \<open>The older versions of the keys in \<open>base\<close> are all among \<open>E\<close>.\<close>

definition bottom :: "(bytes \<Rightarrow> bool) \<Rightarrow> entry set \<Rightarrow> entry set \<Rightarrow> bool" where
  "bottom base A E \<longleftrightarrow> (\<forall>e \<in> E. base (entry_user e) \<longrightarrow>
     (\<forall>y \<in> A. entry_user y = entry_user e \<and> entry_less e y \<longrightarrow> y \<in> E))"

text \<open>The entries of a database: well-formed keys, no key twice.\<close>

definition entry_set :: "entry set \<Rightarrow> bool" where
  "entry_set A \<longleftrightarrow> finite A \<and> (\<forall>e \<in> A. wf_ikey (fst e)) \<and> inj_on fst A"

lemma entry_set_total:
  assumes "entry_set A" "a \<in> A" "b \<in> A" "a \<noteq> b"
  shows "entry_less a b \<or> entry_less b a"
proof -
  have "fst a \<noteq> fst b" using assms by (auto simp: entry_set_def inj_on_def)
  then show ?thesis
    using assms wfkey.less_total [of "fst a" "fst b"] by (auto simp: entry_set_def entry_less_def)
qed

lemma entry_set_trans:
  assumes "entry_set A" "a \<in> A" "b \<in> A" "c \<in> A" "entry_less a b" "entry_less b c"
  shows "entry_less a c"
  using assms wfkey.less_trans [of "fst a" "fst b" "fst c"] by (auto simp: entry_set_def entry_less_def)

lemma entry_set_irrefl: "entry_set A \<Longrightarrow> a \<in> A \<Longrightarrow> \<not> entry_less a a"
  using wfkey.less_irrefl by (auto simp: entry_set_def entry_less_def)

lemma entry_set_least:
  assumes "entry_set A" "B \<subseteq> A" "B \<noteq> {}"
  shows "\<exists>m \<in> B. \<forall>x \<in> B. x = m \<or> entry_less m x"
proof -
  have "finite B" using assms(1,2) finite_subset by (auto simp: entry_set_def)
  then show ?thesis using assms(3,2)
  proof (induction B rule: finite_ne_induct)
    case (singleton x)
    then show ?case by simp
  next
    case (insert x B)
    then obtain m where m: "m \<in> B" "\<forall>y \<in> B. y = m \<or> entry_less m y" by auto
    have "x \<noteq> m" "x \<in> A" "m \<in> A" "B \<subseteq> A" using insert m(1) by auto
    then have "entry_less x m \<or> entry_less m x" using entry_set_total [OF assms(1)] by blast
    then show ?case
    proof
      assume xm: "entry_less x m"
      have "y = x \<or> entry_less x y" if "y \<in> insert x B" for y
        using that m(2) xm entry_set_trans [OF assms(1), of x m y] \<open>x \<in> A\<close> \<open>m \<in> A\<close> \<open>B \<subseteq> A\<close>
        by (metis insertE subsetD)
      then show ?thesis by blast
    qed (use m in auto)
  qed
qed

lemma drops_invisible:
  assumes A: "entry_set A" and E: "E \<subseteq> A" and s: "oldest \<le> s" and base: "bottom base A E"
  shows "reads_as {e \<in> A. \<not> (e \<in> E \<and> drops oldest base E e)} k s v \<longleftrightarrow> reads_as A k s v"
    (is "reads_as ?B k s v \<longleftrightarrow> _")
proof
  assume "reads_as A k s v"
  then obtain e where e: "e \<in> A" "visible k s e" "entry_type e = kValue" "snd e = v"
    "\<forall>x \<in> A. visible k s x \<longrightarrow> x = e \<or> entry_less e x" by (auto simp: reads_as_def)
  have "\<not> (entry_less x e \<and> entry_user x = entry_user e \<and> entry_seq x \<le> oldest)" if x: "x \<in> E" for x
  proof
    assume h: "entry_less x e \<and> entry_user x = entry_user e \<and> entry_seq x \<le> oldest"
    then have "visible k s x" using e(2) s by (auto simp: visible_def)
    then have "x = e \<or> entry_less e x" using e(5) x E by blast
    then show False
      using h x E e(1) entry_set_irrefl [OF A] entry_set_trans [OF A, of x e x] by blast
  qed
  then have "\<not> drops oldest base E e" using e(3) by (auto simp: drops_def)
  then show "reads_as ?B k s v" using e unfolding reads_as_def by (intro bexI [of _ e]) auto
next
  assume "reads_as ?B k s v"
  then obtain e where e: "e \<in> A" "\<not> (e \<in> E \<and> drops oldest base E e)" "visible k s e" "entry_type e = kValue" "snd e = v"
    "\<forall>x \<in> ?B. visible k s x \<longrightarrow> x = e \<or> entry_less e x" unfolding reads_as_def by blast
  have "\<exists>m \<in> {x \<in> A. visible k s x}. \<forall>x \<in> {x \<in> A. visible k s x}. x = m \<or> entry_less m x"
    using e(1,3) by (intro entry_set_least [OF A]) blast+
  then obtain m where m: "m \<in> A" "visible k s m" "\<forall>x \<in> A. visible k s x \<longrightarrow> x = m \<or> entry_less m x"
    by blast
  have "m = e"
  proof (rule ccontr)
    assume ne: "m \<noteq> e"
    then have less: "entry_less m e" using m(3) e(1,3) by blast
    then have "m \<notin> ?B" using e(6) m(2) ne e(1) entry_set_irrefl [OF A] entry_set_trans [OF A, of m e m] m(1) by blast
    then have dm: "m \<in> E" "drops oldest base E m" using m(1) by simp_all
    have same: "entry_user m = k" "entry_user e = k" "entry_seq m \<le> s" using m(2) e(3) by (auto simp: visible_def)
    have "\<not> (entry_user x = entry_user m \<and> entry_less x m \<and> entry_seq x \<le> oldest)" if "x \<in> E" for x
    proof
      assume h: "entry_user x = entry_user m \<and> entry_less x m \<and> entry_seq x \<le> oldest"
      then have "visible k s x" using same s by (auto simp: visible_def)
      then have "x = m \<or> entry_less m x" using m(3) that E by blast
      then show False using h that E m(1) entry_set_irrefl [OF A] entry_set_trans [OF A, of x m x] by blast
    qed
    then have "base (entry_user m)" "entry_seq m \<le> oldest" using dm by (auto simp: drops_def)
    moreover from this have "e \<in> E" using base dm(1) same less e(1) by (auto simp: bottom_def)
    ultimately have "e \<in> E" "drops oldest base E e" using less same dm(1) by (auto simp: drops_def)
    with e(2) show False by simp
  qed
  then show "reads_as A k s v" using m e by (auto simp: reads_as_def)
qed

lemma lookup_layers_reads_as:
  assumes "newest_first ls" "\<forall>l \<in> set ls. sorted_entries l" "entry_set (\<Union> (set ` set ls))"
  shows "lookup_layers ls k s = Found v \<longleftrightarrow> reads_as (\<Union> (set ` set ls)) k s v"
    (is "_ \<longleftrightarrow> reads_as ?A k s v")
proof (cases "lookup_layers ls k s = Absent")
  case True
  then have "\<not> reads_as ?A k s v" by (auto simp: lookup_layers_Absent reads_as_def)
  then show ?thesis using True by simp
next
  case False
  from lookup_layers_least [OF assms(1,2) False] obtain l e where e: "e \<in> ?A" "visible k s e"
    "lookup_layers ls k s = entry_result e" "\<forall>x \<in> ?A. visible k s x \<longrightarrow> x = e \<or> entry_less e x" by blast
  have "x = e" if "x \<in> ?A" "visible k s x" "\<forall>y \<in> ?A. visible k s y \<longrightarrow> y = x \<or> entry_less x y" for x
    using that e entry_set_irrefl [OF assms(3)] entry_set_trans [OF assms(3), of x e x] by blast
  then have "reads_as ?A k s v \<longleftrightarrow> entry_type e = kValue \<and> snd e = v"
    using e unfolding reads_as_def by blast
  then show ?thesis
    unfolding e(3) entry_result_def using ValueType.exhaust [of "entry_type e"] by auto
qed

subsection \<open>The entries the loop keeps\<close>

fun kept :: "SequenceNumber \<Rightarrow> (bytes \<Rightarrow> bool) \<Rightarrow> bytes \<Rightarrow> SequenceNumber \<Rightarrow> entry list \<Rightarrow> entry list" where
  "kept oldest base current last1 [] = []"
| "kept oldest base current last1 (e # es) =
     (let last1 = (if current \<noteq> entry_user e then kMaxSequenceNumber else last1);
          dropped = (last1 \<le> oldest \<or>
            entry_type e = kDeletion \<and> entry_seq e \<le> oldest \<and> base (entry_user e));
          rest = kept oldest base (entry_user e) (entry_seq e) es
      in if dropped then rest else e # rest)"

lemma drops_snoc:
  assumes s: "sorted_entries (pre @ e # es)" and o: "oldest < kMaxSequenceNumber"
    and c: "if pre = [] then last1 = kMaxSequenceNumber
      else current = entry_user (last pre) \<and> last1 = entry_seq (last pre)"
  shows "(\<exists>x \<in> set (pre @ e # es). entry_user x = entry_user e \<and> entry_less x e \<and> entry_seq x \<le> oldest) \<longleftrightarrow>
    (if current \<noteq> entry_user e then kMaxSequenceNumber else last1) \<le> oldest"
proof -
  let ?all = "pre @ e # es"
  have before: "x \<in> set ?all \<and> entry_less x e \<longleftrightarrow> x \<in> set pre" for x
  proof -
    have "\<forall>x \<in> set es. entry_less e x" "\<forall>x \<in> set (e # es). wf_ikey (fst x)"
      using s by (simp_all add: sorted_entries_append sorted_entries_Cons, simp add: sorted_entries_def)
    then have "\<not> entry_less x e" if "x = e \<or> x \<in> set es"
      using that wfkey.less_irrefl wfkey.less_asym unfolding entry_less_def by (metis list.set_intros)
    then show ?thesis using s by (auto simp: sorted_entries_append)
  qed
  then have iff: "(\<exists>x \<in> set ?all. entry_user x = entry_user e \<and> entry_less x e \<and> entry_seq x \<le> oldest) \<longleftrightarrow>
      (\<exists>x \<in> set pre. entry_user x = entry_user e \<and> entry_seq x \<le> oldest)" by blast
  show ?thesis
  proof (cases pre rule: rev_cases)
    case Nil
    then show ?thesis unfolding iff using c o by (simp add: not_le)
  next
    case (snoc ys y)
    have y: "current = entry_user y" "last1 = entry_seq y" using c snoc by simp_all
    have wf: "\<forall>x \<in> set ?all. wf_ikey (fst x)" using s by (simp add: sorted_entries_def)
    have yx: "entry_user x = entry_user e \<longrightarrow> entry_user y = entry_user e \<and> entry_seq y \<le> entry_seq x"
      if x: "x \<in> set pre" for x
    proof
      assume u: "entry_user x = entry_user e"
      show "entry_user y = entry_user e \<and> entry_seq y \<le> entry_seq x"
      proof (cases "x = y")
        case False
        then have "entry_less x y" "entry_less y e" using s x snoc by (auto simp: sorted_entries_append sorted_entries_Cons)
        moreover have w: "wf_ikey (fst x)" "wf_ikey (fst y)" "wf_ikey (fst e)" using wf x snoc by auto
        ultimately have xy: "entry_user x < entry_user y \<or> entry_user x = entry_user y \<and> entry_seq y \<le> entry_seq x"
          and ye: "entry_user y \<le> entry_user e"
          using entry_less_iff [OF w(1,2)] entry_less_iff [OF w(2,3)]
          by (metis order_refl order_less_imp_le, metis order_refl order_less_imp_le)
        then show ?thesis using u by (metis leD order.antisym order_less_imp_le)
      qed (use u in auto)
    qed
    have "(\<exists>x \<in> set pre. entry_user x = entry_user e \<and> entry_seq x \<le> oldest) \<longleftrightarrow>
        entry_user y = entry_user e \<and> entry_seq y \<le> oldest"
    proof
      assume "\<exists>x \<in> set pre. entry_user x = entry_user e \<and> entry_seq x \<le> oldest"
      then show "entry_user y = entry_user e \<and> entry_seq y \<le> oldest" using yx by (blast intro: order_trans)
    qed (use snoc in auto)
    then show ?thesis unfolding iff y using o by auto
  qed
qed

lemma kept_filter:
  assumes "sorted_entries (pre @ es)" "oldest < kMaxSequenceNumber"
    and "if pre = [] then last1 = kMaxSequenceNumber
      else current = entry_user (last pre) \<and> last1 = entry_seq (last pre)"
  shows "kept oldest base current last1 es = filter (\<lambda>e. \<not> drops oldest base (set (pre @ es)) e) es"
  using assms
proof (induction es arbitrary: pre current last1)
  case (Cons e es)
  have "kept oldest base (entry_user e) (entry_seq e) es =
      filter (\<lambda>x. \<not> drops oldest base (set ((pre @ [e]) @ es)) x) es"
    using Cons.prems by (intro Cons.IH) auto
  moreover have "drops oldest base (set (pre @ e # es)) e \<longleftrightarrow>
      (if current \<noteq> entry_user e then kMaxSequenceNumber else last1) \<le> oldest \<or>
      entry_type e = kDeletion \<and> entry_seq e \<le> oldest \<and> base (entry_user e)"
    using drops_snoc [OF Cons.prems] by (simp only: drops_def)
  ultimately show ?case by (simp add: Let_def)
qed simp

subsection \<open>Levels below the output\<close>

abbreviation t_small :: "VTable \<Rightarrow> bytes" where
  "t_small t \<equiv> table_userKey (tm_smallest_key (vt_meta t))"

abbreviation t_large :: "VTable \<Rightarrow> bytes" where
  "t_large t \<equiv> table_userKey (tm_largest_key (vt_meta t))"

definition ranges_sorted :: "VTable list \<Rightarrow> bool" where
  "ranges_sorted ts \<longleftrightarrow> sorted_wrt (\<lambda>a b. t_large a < t_small b) ts \<and> (\<forall>t \<in> set ts. t_small t \<le> t_large t)"

definition covered :: "VTable list \<Rightarrow> bytes \<Rightarrow> bool" where
  "covered ts k \<longleftrightarrow> (\<exists>t \<in> set ts. t_small t \<le> k \<and> k \<le> t_large t)"

lemma ranges_sorted_rep:
  assumes "list_all2 table_rep ts ls" "user_disjoint ls"
  shows "ranges_sorted ts"
proof -
  have len: "length ts = length ls" and t: "\<And>j. j < length ts \<Longrightarrow> table_rep (ts ! j) (ls ! j)"
    using assms(1) by (auto simp: list_all2_conv_all_nth)
  have "t_large (ts ! i) < t_small (ts ! j)" if h: "i < j" "j < length ts" for i j
  proof -
    have r: "table_rep (ts ! i) (ls ! i)" "table_rep (ts ! j) (ls ! j)" using t h by simp_all
    have "last (ls ! i) \<in> set (ls ! i)" "hd (ls ! j) \<in> set (ls ! j)" using table_repD(2) [OF r(1)] table_repD(2) [OF r(2)] by simp_all
    then have "entry_user (last (ls ! i)) < entry_user (hd (ls ! j))"
      using assms(2) h unfolding user_disjoint_def sorted_wrt_iff_nth_less len by blast
    then show ?thesis using table_repD(4) [OF r(1)] table_repD(3) [OF r(2)] by simp
  qed
  moreover have "t_small t \<le> t_large t" if m: "t \<in> set ts" for t
  proof -
    obtain l where l: "table_rep t l" using m assms(1) by (metis in_set_conv_nth list_all2_conv_all_nth)
    then show ?thesis using table_repD(5) [OF l, of "last l"] table_repD(2,3,4) [OF l] by simp
  qed
  ultimately show ?thesis by (simp add: ranges_sorted_def sorted_wrt_iff_nth_less)
qed

lemma advance_index_spec:
  assumes "index \<le> length ts" "\<forall>i < index. t_large (ts ! i) < k"
  defines "j \<equiv> advance_index ts k index"
  shows "j \<le> length ts" "\<forall>i < j. t_large (ts ! i) < k" "j < length ts \<Longrightarrow> k \<le> t_large (ts ! j)"
proof -
  have "j \<le> length ts \<and> (\<forall>i < j. t_large (ts ! i) < k) \<and> (j < length ts \<longrightarrow> k \<le> t_large (ts ! j))"
    using assms(1,2) unfolding j_def
  proof (induction ts k index rule: advance_index.induct)
    case (1 ts k index)
    show ?case
    proof (cases "index < length ts \<and> t_large (ts ! index) < k")
      case True
      then have "index + 1 \<le> length ts" "\<forall>i < index + 1. t_large (ts ! i) < k"
        using "1.prems" by (auto simp: less_Suc_eq)
      moreover have "advance_index ts k index = advance_index ts k (index + 1)"
        using True by (subst advance_index.simps) simp
      ultimately show ?thesis using "1.IH" [OF True] by simp
    next
      case False
      then have "advance_index ts k index = index" by (subst advance_index.simps) (simp only: if_False)
      then show ?thesis using False "1.prems" by (auto simp: not_less)
    qed
  qed
  then show "j \<le> length ts" "\<forall>i < j. t_large (ts ! i) < k" "j < length ts \<Longrightarrow> k \<le> t_large (ts ! j)" by auto
qed

lemma covered_at:
  assumes "ranges_sorted ts" "j \<le> length ts" "\<forall>i < j. t_large (ts ! i) < k" "j < length ts \<longrightarrow> k \<le> t_large (ts ! j)"
  shows "j < length ts \<and> t_small (ts ! j) \<le> k \<longleftrightarrow> covered ts k"
proof
  assume "j < length ts \<and> t_small (ts ! j) \<le> k"
  then show "covered ts k" using assms(4) by (auto simp: covered_def)
next
  assume "covered ts k"
  then obtain i where i: "i < length ts" "t_small (ts ! i) \<le> k" "k \<le> t_large (ts ! i)"
    by (auto simp: covered_def in_set_conv_nth)
  have "\<not> i < j" using assms(3) i(3) by (auto simp: not_less)
  moreover have "\<not> j < i"
  proof
    assume "j < i"
    then have "t_large (ts ! j) < t_small (ts ! i)" "k \<le> t_large (ts ! j)"
      using assms(1,4) i(1) by (auto simp: ranges_sorted_def sorted_wrt_iff_nth_less)
    then show False using i(2) by (meson leD order_le_less_trans)
  qed
  ultimately have "j = i" by simp
  then show "j < length ts \<and> t_small (ts ! j) \<le> k" using i by simp
qed

definition cursors_ok :: "nat \<Rightarrow> Version \<Rightarrow> bytes \<Rightarrow> nat list \<Rightarrow> bool" where
  "cursors_ok first v k indices \<longleftrightarrow> length indices = kNumLevels \<and>
     (\<forall>l \<in> {first..<kNumLevels}. indices ! l \<le> length (Version_level l v) \<and>
        (\<forall>i < indices ! l. t_large (Version_level l v ! i) < k))"

lemma cursors_mono:
  "cursors_ok first v k indices \<Longrightarrow> k \<le> k' \<Longrightarrow> cursors_ok first v k' indices"
  unfolding cursors_ok_def by (meson order_less_le_trans)

lemma check_levels_spec:
  assumes "cursors_ok first v k indices" "set levels \<subseteq> {first..<kNumLevels}"
    and "\<forall>l \<in> {first..<kNumLevels}. ranges_sorted (Version_level l v)"
  shows "\<exists>indices'. check_levels levels k v indices =
      (\<forall>l \<in> set levels. \<not> covered (Version_level l v) k, indices') \<and> cursors_ok first v k indices'"
  using assms(1,2)
proof (induction levels arbitrary: indices)
  case (Cons l levels)
  let ?ts = "Version_level l v"
  have l: "l \<in> {first..<kNumLevels}" "indices ! l \<le> length ?ts" "\<forall>i < indices ! l. t_large (?ts ! i) < k"
    "length indices = kNumLevels"
    using Cons.prems by (auto simp: cursors_ok_def)
  define j where "j = advance_index ?ts k (indices ! l)"
  note a = advance_index_spec [OF l(2,3), folded j_def]
  have cov: "j < length ?ts \<and> t_small (?ts ! j) \<le> k \<longleftrightarrow> covered ?ts k"
    using covered_at [OF _ a(1,2)] a(3) assms(3) l(1) by blast
  have ok: "cursors_ok first v k (indices[l := j])"
    using Cons.prems(1) a l(1) unfolding cursors_ok_def by (auto simp: nth_list_update)
  show ?case
  proof (cases "covered ?ts k")
    case True
    then show ?thesis using cov ok by (simp add: Let_def j_def)
  next
    case False
    then show ?thesis using cov Cons.IH [OF ok] Cons.prems(2) by (auto simp: Let_def j_def)
  qed
qed simp

definition base_for :: "Version \<Rightarrow> nat \<Rightarrow> bytes \<Rightarrow> bool" where
  "base_for v out k \<longleftrightarrow> (\<forall>l \<in> {out + 1..<kNumLevels}. \<not> covered (Version_level l v) k)"

definition checker_ok :: "Version \<Rightarrow> nat \<Rightarrow> bytes \<Rightarrow> BaseLevelChecker \<Rightarrow> bool" where
  "checker_ok v out k c \<longleftrightarrow> bl_version c = v \<and> bl_first_level c = out + 1 \<and>
     cursors_ok (out + 1) v k (bl_indices c) \<and>
     (\<forall>l \<in> {out + 1..<kNumLevels}. ranges_sorted (Version_level l v))"

lemma isBaseLevelForKey_spec:
  assumes "checker_ok v out k0 c" "k0 \<le> k"
  shows "\<exists>c'. isBaseLevelForKey k c = (base_for v out k, c') \<and> checker_ok v out k c'"
  using check_levels_spec [of "out + 1" v k "bl_indices c" "[out + 1..<kNumLevels]"] assms cursors_mono
  unfolding checker_ok_def isBaseLevelForKey_def base_for_def by (fastforce simp del: upt_Suc)

text \<open>The state of the loop after the entries \<open>pre\<close>.\<close>

definition drop_rep :: "Version \<Rightarrow> nat \<Rightarrow> entry list \<Rightarrow> DropState \<Rightarrow> bool" where
  "drop_rep v out pre st \<longleftrightarrow> checker_ok v out (ds_current_user_key st) (ds_base_level st) \<and>
     (if pre = [] then ds_previous_key st = [] \<and> ds_current_user_key st = [] \<and>
        ds_last_sequence_for_key st = kMaxSequenceNumber
      else ds_previous_key st = fst (last pre) \<and> ds_current_user_key st = entry_user (last pre) \<and>
        ds_last_sequence_for_key st = entry_seq (last pre))"

lemma drop_entry_spec:
  assumes rep: "drop_rep v out pre st" and s: "sorted_entries (pre @ e # es)"
    and key: "parseInternalKey (fst e) = Some parsed"
  shows "\<exists>st'. drop_entry oldest (fst e) parsed st =
      ((if ds_current_user_key st \<noteq> entry_user e then kMaxSequenceNumber else ds_last_sequence_for_key st) \<le> oldest \<or>
       entry_type e = kDeletion \<and> entry_seq e \<le> oldest \<and> base_for v out (entry_user e), st') \<and>
    drop_rep v out (pre @ [e]) st'"
proof -
  have wf: "wf_ikey (fst e)" using s by (simp add: sorted_entries_def)
  have p: "parsed = \<lparr>pk_user_key = entry_user e, pk_sequence = entry_seq e, pk_type = entry_type e\<rparr>"
    using entry_encode(3) [OF wf] key by simp
  have chk: "checker_ok v out (ds_current_user_key st) (ds_base_level st)" using rep by (simp add: drop_rep_def)
  have le: "ds_current_user_key st \<le> entry_user e"
  proof (cases pre rule: rev_cases)
    case (snoc ys y)
    then show ?thesis
      using rep sorted_user_mono [OF s, of "length ys" "length pre"] by (simp add: drop_rep_def nth_append)
  qed (use rep in \<open>simp add: drop_rep_def\<close>)
  obtain c' where c: "isBaseLevelForKey (entry_user e) (ds_base_level st) = (base_for v out (entry_user e), c')"
    "checker_ok v out (entry_user e) c'" using isBaseLevelForKey_spec [OF chk le] by blast
  have chk': "checker_ok v out (entry_user e) (ds_base_level st)"
    using chk le cursors_mono by (auto simp: checker_ok_def)
  show ?thesis
    using c chk' unfolding drop_entry_def p Let_def by (auto simp: drop_rep_def)
qed

end
