(* ===== verification/CompactionWrite.thy ===== *)
theory CompactionWrite
  imports CompactionDrop
begin

text \<open>
  The output writer of \<^verbatim>\<open>compaction.cc\<close> under any answers of the file system.  As long as it
  reports success, its completed outputs are readable tables that hold, in order and cut between
  user keys only, the entries added so far; whatever happens it touches no file but those of the
  numbers it was given.  The allocator is known by the contract \<open>number_source\<close>.
\<close>

locale number_source =
  fixes alloc :: "'n allocator"
    and free :: "'n \<Rightarrow> u64 set"
  assumes alloc_Inr: "alloc n = (Inr k, n') \<Longrightarrow> k \<in> free n \<and> free n' \<subseteq> free n - {k}"
    and alloc_Inl: "alloc n = (Inl s, n') \<Longrightarrow> \<not> status_ok s \<and> free n' \<subseteq> free n"

definition own_paths :: "string \<Rightarrow> u64 set \<Rightarrow> string set" where
  "own_paths d K = sstableFileName d ` K \<union> sstableTemporaryFileName d ` K"

definition same_outside :: "string \<Rightarrow> u64 set \<Rightarrow> fs \<Rightarrow> fs \<Rightarrow> bool" where
  "same_outside d K F G \<longleftrightarrow> (\<forall>p. p \<notin> own_paths d K \<longrightarrow> G p = F p)"

definition output_table :: "CompactionOutput \<Rightarrow> VTable" where
  "output_table c = \<lparr>vt_meta = out_meta c, vt_reader = out_reader c\<rparr>"

definition output_ok :: "string \<Rightarrow> fs \<Rightarrow> CompactionOutput \<Rightarrow> entry list \<Rightarrow> bool" where
  "output_ok d F c l \<longleftrightarrow> table_rep (output_table c) l \<and> table_stored d F (output_table c)"

abbreviation output_number :: "CompactionOutput \<Rightarrow> u64" where
  "output_number c \<equiv> tm_number (out_meta c)"

text \<open>
  A writer that was given the numbers \<open>K\<close>, of which \<open>R\<close> are left, in a directory whose files were
  \<open>F\<close>: it has completed tables of the entries \<open>ls\<close> and is building one of the entries \<open>cur\<close>.
\<close>

definition writer_rep ::
  "string \<Rightarrow> fs \<Rightarrow> u64 set \<Rightarrow> u64 set \<Rightarrow> entry list list \<Rightarrow> entry list \<Rightarrow> OutputWriter \<Rightarrow> Env \<Rightarrow> bool" where
  "writer_rep d F K R ls cur w env \<longleftrightarrow> ow_directory w = d \<and> \<not> ow_released w \<and> R \<subseteq> K \<and>
     distinct (map output_number (ow_completed_outputs w)) \<and>
     output_number ` set (ow_completed_outputs w) \<subseteq> K - R \<and>
     (cur \<noteq> [] \<longrightarrow> ow_last_user_key w = entry_user (last cur)) \<and>
     (\<exists>G. same_outside d K F G \<and> list_all2 (output_ok d G) (ow_completed_outputs w) ls \<and>
       (case ow_builder w of
          None \<Rightarrow> cur = [] \<and> env_files env = G
        | Some b \<Rightarrow> ow_current_number w \<in> K - R - output_number ` set (ow_completed_outputs w) \<and>
            G (sstableTemporaryFileName d (ow_current_number w)) = None \<and>
            (\<exists>ess c. concat ess @ c = cur \<and>
               tb_rep 16 ess c (sstableTemporaryFileName d (ow_current_number w)) G b env)))"

text \<open>A writer in any state, failed ones included: it has touched nothing but its own files.\<close>

definition writer_owns :: "string \<Rightarrow> fs \<Rightarrow> u64 set \<Rightarrow> OutputWriter \<Rightarrow> Env \<Rightarrow> bool" where
  "writer_owns d F K w env \<longleftrightarrow> ow_directory w = d \<and> \<not> ow_released w \<and>
     output_number ` set (ow_completed_outputs w) \<subseteq> K \<and>
     (\<forall>b. ow_builder w = Some b \<longrightarrow> sb_path b \<in> own_paths d K) \<and> same_outside d K F (env_files env)"

lemma own_pathsI [simp, intro]:
  "k \<in> K \<Longrightarrow> sstableFileName d k \<in> own_paths d K" "k \<in> K \<Longrightarrow> sstableTemporaryFileName d k \<in> own_paths d K"
  by (simp_all add: own_paths_def)

lemma own_paths_inject [simp]:
  "sstableFileName d k \<in> own_paths d K \<longleftrightarrow> k \<in> K" "sstableTemporaryFileName d k \<in> own_paths d K \<longleftrightarrow> k \<in> K"
  by (auto simp: own_paths_def)

lemma same_outside_upd [simp]: "p \<in> own_paths d K \<Longrightarrow> same_outside d K F (G(p := x)) \<longleftrightarrow> same_outside d K F G"
  by (auto simp: same_outside_def)

lemma same_outside_cong:
  "same_outside d K F G \<Longrightarrow> (\<And>q. q \<noteq> p \<Longrightarrow> H q = G q) \<Longrightarrow> p \<in> own_paths d K \<Longrightarrow> same_outside d K F H"
  by (metis same_outside_def)

lemma remove_own:
  assumes "same_outside d K F (env_files env)" "p \<in> own_paths d K"
  shows "same_outside d K F (env_files (removeFileBestEffort p env))"
  using remove_file(1) [of p env] assms same_outside_upd [of p d K F] by metis

lemma removeOutputs_own:
  "same_outside d K F (env_files env) \<Longrightarrow> output_number ` set cs \<subseteq> K \<Longrightarrow>
   same_outside d K F (env_files (removeOutputs d cs env))"
proof (induction cs arbitrary: env)
  case (Cons c cs)
  then show ?case using remove_own [of d K F env "sstableFileName d (output_number c)"] by simp
qed simp

lemma destroy_owns:
  assumes "writer_owns d F K w env"
  shows "same_outside d K F (env_files (OutputWriter_destroy w env))"
proof -
  define env1 where "env1 = (case ow_builder w of None \<Rightarrow> env | Some b \<Rightarrow> snd (SSTableBuilder_abandon b env))"
  have "same_outside d K F (env_files env1)"
  proof (cases "ow_builder w")
    case (Some b)
    then show ?thesis
      using assms same_outside_cong [of d K F "env_files env" "sb_path b" "env_files env1"] abandon_other [of _ b env]
      by (simp add: env1_def writer_owns_def)
  qed (use assms in \<open>simp add: env1_def writer_owns_def\<close>)
  then show ?thesis
    using assms removeOutputs_own [of d K F env1] by (auto simp: OutputWriter_destroy_def env1_def writer_owns_def Let_def)
qed

lemma rep_owns: "writer_rep d F K R ls cur w env \<Longrightarrow> writer_owns d F K w env"
  by (auto simp: writer_rep_def writer_owns_def tb_rep_def split: option.splits)

lemma output_ok_upd:
  "output_ok d F c l \<Longrightarrow> p \<noteq> sstableFileName d (output_number c) \<Longrightarrow> output_ok d (F(p := x)) c l"
  by (simp add: output_ok_def table_stored_def output_table_def)

lemma outputs_ok_upd:
  assumes "list_all2 (output_ok d F) cs ls" "p \<notin> sstableFileName d ` output_number ` set cs"
  shows "list_all2 (output_ok d (F(p := x))) cs ls"
  using assms(1) by (rule list.rel_mono_strong) (use assms(2) output_ok_upd in blast)

subsection \<open>Closing a table\<close>

lemma renameTable_outcome:
  assumes "renameTable temporary final env = (status, env')" "env_files env = G(temporary \<mapsto> c)"
    and "G temporary = None" "temporary \<noteq> final"
  shows "if status_ok status then env_files env' = G(final \<mapsto> c)
    else \<forall>p. p \<noteq> temporary \<longrightarrow> env_files env' p = G p"
proof -
  obtain r env1 where rn: "sys_rename temporary final env = (r, env1)" by fastforce
  show ?thesis
    using rename_finished [OF rn assms(2-4)] assms(1) rn
    by (auto simp: renameTable_def removeFileBestEffort_def filesystemError_def split: option.splits)
qed

lemma output_table_rep:
  assumes "reader_rep r ess t" "concat ess \<noteq> []" "F (sstableFileName d k) = Some (table_bytes r ess)"
  shows "output_ok d F \<lparr>out_meta = \<lparr>tm_number = k, tm_file_size = sm_file_size (table_meta r ess),
      tm_smallest_key = sm_smallest_key (table_meta r ess), tm_largest_key = sm_largest_key (table_meta r ess)\<rparr>,
    out_reader = t\<rparr> (concat ess)"
  using assms by (auto simp: output_ok_def output_table_def table_rep_def table_stored_def table_meta_def reader_rep_def)

lemma finishOutput_outcome:
  assumes rep: "writer_rep d F K R ls cur w env" and b: "ow_builder w = Some b"
    and cur: "cur \<noteq> []" "sorted_entries cur" "entries_size cur + 100 < 2 ^ 32"
    and fo: "OutputWriter_finishOutput b w env = (status, w', env')"
  shows "if status_ok status then writer_rep d F K R (ls @ [cur]) [] w' env' \<and> ow_builder w' = None
    else writer_owns d F K w' env'"
proof -
  let ?k = "ow_current_number w" and ?cs = "ow_completed_outputs w"
  let ?tmp = "sstableTemporaryFileName d ?k" and ?fin = "sstableFileName d ?k"
  have w: "ow_directory w = d" "\<not> ow_released w" "R \<subseteq> K" "distinct (map output_number ?cs)"
    "output_number ` set ?cs \<subseteq> K - R" and own: "output_number ` set ?cs \<subseteq> K"
    using rep by (auto simp: writer_rep_def)
  obtain G ess c where G: "same_outside d K F G" "list_all2 (output_ok d G) ?cs ls" "G ?tmp = None"
    and k: "?k \<in> K - R - output_number ` set ?cs" and tb: "concat ess @ c = cur" "tb_rep 16 ess c ?tmp G b env"
    using rep b by (auto simp: writer_rep_def)
  obtain res b1 env1 where fi: "SSTableBuilder_finish b env = (res, b1, env1)" by (metis prod_cases3)
  note f = finish_outcome [OF tb(2) _ fi, unfolded tb(1), OF cur(1)]
  show ?thesis
  proof (cases res)
    case (Inl st)
    then have "tb_failed ?tmp G st b1 env1" using f by blast
    then show ?thesis
      using fo fi Inl w(1,2) own k G by (auto simp: OutputWriter_finishOutput_def writer_owns_def tb_failed_def simp del: image_subset_iff)
  next
    case (Inr meta)
    then obtain ess' where e: "concat ess' = cur" "[] \<notin> set ess'" "meta = table_meta 16 ess'"
      "sb_state b1 = kFinished" "env_files env1 = G(?tmp \<mapsto> table_bytes 16 ess')" using f by auto
    have ok: "table_ok 16 ess'" using table_ok_sized [of 16 ess'] e(1,2) cur(2,3) by simp
    obtain s2 env2 where rn: "renameTable ?tmp ?fin env1 = (s2, env2)" by fastforce
    note rn' = renameTable_outcome [OF rn e(5) G(3)]
    obtain op env3 where op: "SSTableReader_open ?fin env2 = (op, env3)" by fastforce
    let ?w = "w\<lparr>ow_builder := None\<rparr>"
    have fo': "(status, w', env') = (if \<not> status_ok s2 then (s2, ?w, env2) else case op of
        Inl s \<Rightarrow> (s, ?w, removeFileBestEffort ?fin env3)
      | Inr t \<Rightarrow> (success, ?w\<lparr>ow_completed_outputs := ?cs @
          [\<lparr>out_meta = \<lparr>tm_number = ?k, tm_file_size = sm_file_size meta,
             tm_smallest_key = sm_smallest_key meta, tm_largest_key = sm_largest_key meta\<rparr>, out_reader = t\<rparr>],
          ow_current_number := 0, ow_last_user_key := []\<rparr>, env3))"
      unfolding fo [symmetric] OutputWriter_finishOutput_def fi Inr
      using rn op w(1) by (simp add: abandon_finished [OF e(4)] Let_def split: sum.splits)
    show ?thesis
    proof (cases "status_ok s2")
      case False
      then have "same_outside d K F (env_files env2)" using rn' k same_outside_cong [OF G(1), of ?tmp] by auto
      then show ?thesis using fo' False w(1,2) own by (auto simp: writer_owns_def simp del: image_subset_iff)
    next
      case True
      then have f2: "env_files env2 = G(?fin \<mapsto> table_bytes 16 ess')" using rn' by auto
      have f3: "env_files env3 = G(?fin \<mapsto> table_bytes 16 ess')" using open_files [OF op] f2 by simp
      have so: "same_outside d K F (env_files env3)" using f3 k G(1) by simp
      show ?thesis
      proof (cases op)
        case s3: (Inl s)
        then show ?thesis
          using fo' True open_Inl op w(1,2) own k remove_own [OF so]
          by (auto simp: writer_owns_def simp del: image_subset_iff)
      next
        case t: (Inr t)
        have "reader_rep 16 ess' t" using open_reader_any [OF op [unfolded t] _ ok] f2 by simp
        note o = output_table_rep [OF this, of "env_files env3" d ?k, unfolded e(1), OF cur(1)]
        have "?fin \<notin> sstableFileName d ` output_number ` set ?cs" using k by auto
        note old = outputs_ok_upd [OF G(2) this, of "Some (table_bytes 16 ess')", folded f3]
        let ?c = "\<lparr>out_meta = \<lparr>tm_number = ?k, tm_file_size = sm_file_size meta,
          tm_smallest_key = sm_smallest_key meta, tm_largest_key = sm_largest_key meta\<rparr>, out_reader = t\<rparr>"
        have "list_all2 (output_ok d (env_files env3)) (?cs @ [?c]) (ls @ [cur])"
          using old o f3 unfolding e(3) by (intro list_all2_appendI) simp_all
        then show ?thesis
          using fo' True t w k so by (auto simp: writer_rep_def)
      qed
    qed
  qed
qed

subsection \<open>Adding an entry\<close>

lemma user_disjoint_snoc:
  "user_disjoint (ls @ [c]) \<longleftrightarrow>
     user_disjoint ls \<and> (\<forall>l \<in> set ls. \<forall>x \<in> set l. \<forall>y \<in> set c. entry_user x < entry_user y)"
  by (auto simp: user_disjoint_def sorted_wrt_append)

lemma sorted_snoc_user:
  assumes "sorted_entries (pre @ [e])" "x \<in> set pre"
  shows "entry_user x \<le> entry_user e" and "entry_user (last pre) \<noteq> entry_user e \<Longrightarrow> entry_user x < entry_user e"
proof -
  obtain i where i: "i < length pre" "x = pre ! i" using assms(2) by (metis in_set_conv_nth)
  have ne: "pre \<noteq> []" using assms(2) by auto
  have x: "(pre @ [e]) ! i = x" "(pre @ [e]) ! (length pre - 1) = last pre" "(pre @ [e]) ! length pre = e"
    using i(1) ne by (simp_all add: nth_append last_conv_nth i(2))
  have "entry_user x \<le> entry_user (last pre)" "entry_user (last pre) \<le> entry_user e"
    using sorted_user_mono [OF assms(1), of i "length pre - 1"]
      sorted_user_mono [OF assms(1), of "length pre - 1" "length pre"] i(1) x by auto
  then show "entry_user x \<le> entry_user e"
    "entry_user (last pre) \<noteq> entry_user e \<Longrightarrow> entry_user x < entry_user e" by auto
qed

text \<open>The new entry goes to the table being built, or to a new one when its user key is new.\<close>

lemma user_disjoint_extend:
  assumes "sorted_entries (concat ls @ cur @ [e])" "user_disjoint (ls @ [cur])" "cur = [] \<longrightarrow> ls = []"
  shows "user_disjoint (ls @ [cur @ [e]])"
    and "cur \<noteq> [] \<Longrightarrow> entry_user (last cur) \<noteq> entry_user e \<Longrightarrow> user_disjoint ((ls @ [cur]) @ [[e]])"
proof -
  have s: "sorted_entries ((concat ls @ cur) @ [e])" using assms(1) by simp
  note le = sorted_snoc_user [OF s]
  have "entry_user x < entry_user e" if h: "l \<in> set ls" "x \<in> set l" for l x
  proof -
    have ne: "cur \<noteq> []" using assms(3) h by auto
    then have "entry_user x < entry_user (last cur)" using assms(2) h unfolding user_disjoint_snoc by auto
    also have "\<dots> \<le> entry_user e" using le(1) [of "last cur"] ne by simp
    finally show ?thesis .
  qed
  then show "user_disjoint (ls @ [cur @ [e]])" using assms(2) unfolding user_disjoint_snoc by auto
  assume ne: "cur \<noteq> []" "entry_user (last cur) \<noteq> entry_user e"
  then have "\<forall>x \<in> set (concat ls @ cur). entry_user x < entry_user e" using le(2) by auto
  then show "user_disjoint ((ls @ [cur]) @ [[e]])"
    using assms(2) unfolding user_disjoint_snoc [of "ls @ [cur]"] by auto
qed

lemma builder_add_outcome:
  assumes rep: "writer_rep d F K R ls cur w env" and b: "ow_builder w = Some b"
    and e: "wf_ikey k" "entries_size (cur @ [(k, v)]) < 2 ^ 32"
    and a: "SSTableBuilder_add k v b env = (status, b', env')"
  shows "if status_ok status
    then writer_rep d F K R ls (cur @ [(k, v)]) (w\<lparr>ow_builder := Some b', ow_last_user_key := entry_user (k, v)\<rparr>) env'
    else writer_owns d F K (w\<lparr>ow_builder := Some b'\<rparr>) env'"
proof -
  let ?k = "ow_current_number w" and ?cs = "ow_completed_outputs w"
  have w: "ow_directory w = d" "\<not> ow_released w" "R \<subseteq> K" "distinct (map output_number ?cs)"
    "output_number ` set ?cs \<subseteq> K - R" and own: "output_number ` set ?cs \<subseteq> K"
    using rep by (auto simp: writer_rep_def)
  obtain G ess c where G: "same_outside d K F G" "list_all2 (output_ok d G) ?cs ls"
    "G (sstableTemporaryFileName d ?k) = None"
    and k: "?k \<in> K - R - output_number ` set ?cs"
    and tb: "concat ess @ c = cur" "tb_rep 16 ess c (sstableTemporaryFileName d ?k) G b env"
    using rep b by (auto simp: writer_rep_def)
  have len: "Suc (length (concat ess @ c)) < 2 ^ 64"
    using e(2) entries_size_length [of "cur @ [(k, v)]"] unfolding tb(1) by simp
  note o = add_outcome [OF tb(2) e(1) len a]
  show ?thesis
  proof (cases "status_ok status")
    case True
    then obtain ess' c' where "concat ess' @ c' = cur @ [(k, v)]"
      "tb_rep 16 ess' c' (sstableTemporaryFileName d ?k) G b' env'" using o(1) tb(1) by auto
    then show ?thesis using True w k G by (auto simp: writer_rep_def)
  next
    case False
    then show ?thesis
      using o(2) w(1,2) own G k by (auto simp: writer_owns_def tb_failed_def simp del: image_subset_iff)
  qed
qed

lemma builder_open_failed:
  assumes "SSTableBuilder_open path options env = (Inl s, env')"
  shows "\<not> status_ok s" "env_files env' = env_files env"
  using assms call_files [of env]
  by (auto simp: SSTableBuilder_open_def sys_create_exclusive_def put_file_def split: if_splits prod.splits option.splits)

lemma sys_exists_files: "sys_exists path env = (r, env') \<Longrightarrow> env_files env' = env_files env"
  using call_files [of env] by (auto simp: sys_exists_def split: prod.splits option.splits if_splits)

lemma writer_owns_cong:
  assumes "writer_owns d F K w env" "env_files env' = env_files env"
  shows "writer_owns d F K (w\<lparr>ow_current_number := k\<rparr>) env'"
  using assms by (simp add: writer_owns_def)

context number_source
begin

lemma openOutput_outcome:
  assumes rep: "writer_rep d F K (free n) ls [] w env" and b: "ow_builder w = None"
    and o: "OutputWriter_openOutput alloc w n env = (status, w', n', env')"
  shows "free n' \<subseteq> free n \<and> (if status_ok status
    then writer_rep d F K (free n') ls [] w' env' \<and> (\<exists>b. ow_builder w' = Some b)
    else writer_owns d F K w' env')"
proof -
  note own = rep_owns [OF rep]
  obtain r m where al: "alloc n = (r, m)" by fastforce
  show ?thesis
  proof (cases r)
    case (Inl s)
    then show ?thesis using o al alloc_Inl [OF al [unfolded Inl]] own by (auto simp: OutputWriter_openOutput_def)
  next
    case (Inr k)
    note k = alloc_Inr [OF al [unfolded Inr]]
    let ?w = "w\<lparr>ow_current_number := k\<rparr>"
    obtain x env1 where ex: "sys_exists (sstableFileName d k) env = (x, env1)" by fastforce
    obtain r2 env2 where op: "SSTableBuilder_open (sstableTemporaryFileName d k) builder_defaults env1 = (r2, env2)"
      by fastforce
    note f1 = sys_exists_files [OF ex]
    have d: "ow_directory w = d" using rep by (simp add: writer_rep_def)
    have o': "(status, w', n', env') =
        (if k = 0 then (invalidArgument ''compaction file number must be positive'', ?w, m, env)
         else case x of Inl error \<Rightarrow> (filesystemError ''stat'' (sstableFileName d k) error, ?w, m, env1)
           | Inr True \<Rightarrow> (alreadyExists (''compaction output already exists: '' @ sstableFileName d k), ?w, m, env1)
           | Inr False \<Rightarrow> (case r2 of Inl s \<Rightarrow> (s, ?w, m, env2) | Inr b \<Rightarrow> (success, ?w\<lparr>ow_builder := Some b\<rparr>, m, env2)))"
      unfolding o [symmetric] OutputWriter_openOutput_def
      using al Inr ex op d by (auto simp: Let_def split: sum.splits bool.splits)
    have own1: "writer_owns d F K ?w env" "writer_owns d F K ?w env1"
      using writer_owns_cong [OF own] f1 by auto
    show ?thesis
    proof (cases r2)
      case s: (Inl s)
      then show ?thesis
        using o' own1 k builder_open_failed op f1 writer_owns_cong [OF own, of env2 k]
        by (fastforce simp: filesystemError_def split: if_splits sum.splits bool.splits)
    next
      case b': (Inr b')
      note ob = open_outcome [OF op [unfolded b']]
      have num: "k \<in> K - free m - output_number ` set (ow_completed_outputs w)" "free m \<subseteq> free n"
        using rep k by (auto simp: writer_rep_def)
      have "writer_rep d F K (free m) ls [] (?w\<lparr>ow_builder := Some b'\<rparr>) env2"
        using rep b num ob f1 d
        by (auto simp: writer_rep_def builder_defaults_def intro!: exI [of _ "env_files env"] exI [of _ "[]"])
      then show ?thesis
        using o' own1 b' k by (auto simp: filesystemError_def split: if_splits sum.splits bool.splits)
    qed
  qed
qed

lemma add_tail_outcome:
  assumes rep: "writer_rep d F K (free n) ls cur w env" and cur: "ow_builder w = None \<longrightarrow> cur = []"
    and e: "wf_ikey k" "entries_size (cur @ [(k, v)]) < 2 ^ 32"
    and a: "(case (if ow_builder w = None then OutputWriter_openOutput alloc w n env else (success, w, n, env)) of
      (status, w, n, env) \<Rightarrow>
        if \<not> status_ok status then (status, w, n, env)
        else case ow_builder w of
          None \<Rightarrow> (success, w, n, env)
        | Some builder \<Rightarrow>
           (case SSTableBuilder_add k v builder env of
              (status, builder, env) \<Rightarrow>
                let w = w\<lparr>ow_builder := Some builder\<rparr> in
                if \<not> status_ok status then (status, w, n, env)
                else (success, w\<lparr>ow_last_user_key := entry_user (k, v)\<rparr>, n, env))) = (status, w', n', env')"
  shows "free n' \<subseteq> free n \<and> (if status_ok status
    then writer_rep d F K (free n') ls (cur @ [(k, v)]) w' env' \<and> ow_builder w' \<noteq> None
    else writer_owns d F K w' env')"
proof -
  obtain s1 w1 n1 env1 where o: "(if ow_builder w = None then OutputWriter_openOutput alloc w n env
      else (success, w, n, env)) = (s1, w1, n1, env1)" by (metis prod_cases4)
  have o1: "free n1 \<subseteq> free n \<and> (if status_ok s1
      then writer_rep d F K (free n1) ls cur w1 env1 \<and> (\<exists>b. ow_builder w1 = Some b)
      else writer_owns d F K w1 env1)"
    using openOutput_outcome [of d F K n ls w env s1 w1 n1 env1] rep cur o by (auto split: if_splits)
  show ?thesis
  proof (cases "status_ok s1")
    case False
    then show ?thesis using a o1 unfolding o by auto
  next
    case True
    then obtain b where b: "ow_builder w1 = Some b" and r: "writer_rep d F K (free n1) ls cur w1 env1" using o1 by auto
    obtain s2 b2 env2 where ad: "SSTableBuilder_add k v b env1 = (s2, b2, env2)" by (metis prod_cases3)
    show ?thesis
      using a True b o1 builder_add_outcome [OF r b e ad] unfolding o by (auto simp: ad Let_def split: if_splits)
  qed
qed

end

definition writer_at ::
  "string \<Rightarrow> fs \<Rightarrow> u64 set \<Rightarrow> u64 set \<Rightarrow> entry list \<Rightarrow> OutputWriter \<Rightarrow> Env \<Rightarrow> bool" where
  "writer_at d F K R es w env \<longleftrightarrow> (\<exists>ls cur. concat ls @ cur = es \<and> writer_rep d F K R ls cur w env \<and>
     user_disjoint (ls @ [cur]) \<and> (cur = [] \<longrightarrow> ls = []) \<and> (ow_builder w = None \<longleftrightarrow> cur = []))"

context number_source
begin

lemma writer_add_outcome:
  assumes at: "writer_at d F K (free n) es w env" and s: "sorted_entries (es @ [(k, v)])"
    and size: "entries_size (es @ [(k, v)]) + 100 < 2 ^ 32"
    and a: "OutputWriter_add alloc k (entry_user (k, v)) v w n env = (status, w', n', env')"
  shows "free n' \<subseteq> free n \<and> (if status_ok status then writer_at d F K (free n') (es @ [(k, v)]) w' env'
    else writer_owns d F K w' env')"
proof -
  let ?e = "(k, v)"
  obtain ls cur where es: "concat ls @ cur = es" and rep: "writer_rep d F K (free n) ls cur w env"
    and u: "user_disjoint (ls @ [cur])" "cur = [] \<longrightarrow> ls = []" and b: "ow_builder w = None \<longleftrightarrow> cur = []"
    using at unfolding writer_at_def by (elim exE conjE)
  have s': "sorted_entries (concat ls @ cur @ [?e])" using s unfolding es [symmetric] by simp
  have wf: "wf_ikey k" using s by (simp add: sorted_entries_def)
  have size': "entries_size cur + 100 < 2 ^ 32" "entries_size (cur @ [?e]) < 2 ^ 32" "entries_size [?e] < 2 ^ 32"
    using size unfolding es [symmetric] by simp_all
  have cur: "sorted_entries cur" using s' by (simp add: sorted_entries_append)
  obtain s1 w1 env1 where f: "(case ow_builder w of
      Some builder \<Rightarrow>
        if ow_last_user_key w \<noteq> entry_user ?e \<and>
           unat (SSTableBuilder_estimatedFileSize builder) \<ge> ow_target_file_size w
        then OutputWriter_finishOutput builder w env else (success, w, env)
    | None \<Rightarrow> (success, w, env)) = (s1, w1, env1)" by (rule prod_cases3)
  note a' = a [unfolded OutputWriter_add_def f prod.case]
  show ?thesis
  proof (cases "w1 = w \<and> env1 = env \<and> s1 = success")
    case True
    then have eqs: "w1 = w" "env1 = env" "(\<not> status_ok s1) = False" by simp_all
    have t: "free n' \<subseteq> free n \<and> (if status_ok status
        then writer_rep d F K (free n') ls (cur @ [?e]) w' env' \<and> ow_builder w' \<noteq> None
        else writer_owns d F K w' env')"
      using b by (intro add_tail_outcome [OF rep _ wf size'(2) a' [unfolded eqs if_False]]) simp
    have "user_disjoint (ls @ [cur @ [?e]])" using user_disjoint_extend(1) [OF s' u] .
    then have "writer_at d F K (free n') (es @ [?e]) w' env'" if ok: "status_ok status"
      using t ok es unfolding writer_at_def by (intro exI [of _ ls] exI [of _ "cur @ [?e]"]) auto
    then show ?thesis using t by simp
  next
    case False
    then obtain bb where bb: "ow_builder w = Some bb" and fin: "OutputWriter_finishOutput bb w env = (s1, w1, env1)"
      and new: "ow_last_user_key w \<noteq> entry_user ?e"
      using f by (auto split: option.splits if_splits)
    have ne: "cur \<noteq> []" using b bb by simp
    note fo = finishOutput_outcome [OF rep bb ne cur size'(1) fin]
    show ?thesis
    proof (cases "status_ok s1")
      case False
      then show ?thesis using a' fo by auto
    next
      case True
      then have r1: "writer_rep d F K (free n) (ls @ [cur]) [] w1 env1" "ow_builder w1 = None" using fo by auto
      have ok1: "(\<not> status_ok s1) = False" using True by simp
      have "entry_user (last cur) \<noteq> entry_user ?e" using rep ne new by (auto simp: writer_rep_def)
      then have "user_disjoint ((ls @ [cur]) @ [[?e]])" using user_disjoint_extend(2) [OF s' u ne] by simp
      moreover have t: "free n' \<subseteq> free n \<and> (if status_ok status
          then writer_rep d F K (free n') (ls @ [cur]) ([] @ [?e]) w' env' \<and> ow_builder w' \<noteq> None
          else writer_owns d F K w' env')"
        using size'(3) True by (intro add_tail_outcome [OF r1(1) _ wf _ a' [unfolded ok1 if_False]]) simp_all
      ultimately have "writer_at d F K (free n') (es @ [?e]) w' env'" if ok: "status_ok status"
        using t ok es unfolding writer_at_def by (intro exI [of _ "ls @ [cur]"] exI [of _ "[?e]"]) auto
      then show ?thesis using t by simp
    qed
  qed
qed

end

lemma writer_finish_outcome:
  assumes at: "writer_at d F K R es w env" and s: "sorted_entries es" and size: "entries_size es + 100 < 2 ^ 32"
    and f: "OutputWriter_finish w env = (res, w', env')"
  shows "case res of
      Inr outs \<Rightarrow> OutputWriter_destroy w' env' = env' \<and> same_outside d K F (env_files env') \<and>
        distinct (map output_number outs) \<and> output_number ` set outs \<subseteq> K - R \<and>
        (\<exists>ls. concat ls = es \<and> user_disjoint ls \<and> list_all2 (output_ok d (env_files env')) outs ls)
    | Inl status \<Rightarrow> \<not> status_ok status \<and> writer_owns d F K w' env'"
proof -
  obtain ls cur where es: "concat ls @ cur = es" and rep: "writer_rep d F K R ls cur w env"
    and u: "user_disjoint (ls @ [cur])" "cur = [] \<longrightarrow> ls = []" and b: "ow_builder w = None \<longleftrightarrow> cur = []"
    using at unfolding writer_at_def by (elim exE conjE)
  have cur: "sorted_entries cur" "entries_size cur + 100 < 2 ^ 32"
    using s size unfolding es [symmetric] by (simp_all add: sorted_entries_append)
  show ?thesis
  proof (cases "ow_builder w")
    case None
    then show ?thesis
      using f rep b u es by (auto simp: OutputWriter_finish_def OutputWriter_destroy_def writer_rep_def user_disjoint_def)
  next
    case (Some bb)
    obtain s1 w1 env1 where fin: "OutputWriter_finishOutput bb w env = (s1, w1, env1)" by (metis prod_cases3)
    have ne: "cur \<noteq> []" using b Some by simp
    note fo = finishOutput_outcome [OF rep Some ne cur fin]
    have f': "(res, w', env') = (if \<not> status_ok s1 then (Inl s1, w1, env1)
        else (Inr (ow_completed_outputs w1), w1\<lparr>ow_completed_outputs := [], ow_released := True\<rparr>, env1))"
      using f Some fin by (simp add: OutputWriter_finish_def split: if_splits)
    show ?thesis
    proof (cases "status_ok s1")
      case True
      then have r1: "writer_rep d F K R (ls @ [cur]) [] w1 env1" "ow_builder w1 = None" using fo by auto
      then have "list_all2 (output_ok d (env_files env1)) (ow_completed_outputs w1) (ls @ [cur])"
        "same_outside d K F (env_files env1)" by (auto simp: writer_rep_def)
      then show ?thesis
        using f' True r1 u(1) es
        by (auto simp: writer_rep_def OutputWriter_destroy_def intro!: exI [of _ "ls @ [cur]"])
    qed (use f' fo in auto)
  qed
qed

subsection \<open>The loop\<close>

lemma sorted_entries_skip: "sorted_entries (xs @ e # es) \<Longrightarrow> sorted_entries (xs @ es)"
  by (auto simp: sorted_entries_append sorted_entries_Cons)

context number_source
begin

lemma compact_loop_outcome:
  assumes "merge_at input_at it (pre @ es) (length pre)" "drop_rep v out pre st"
    and "writer_at d F K (free n) xs w env" "sorted_entries (xs @ es)" "entries_size (xs @ es) + 100 < 2 ^ 32"
  shows "\<exists>status w' n' env'. compact_loop alloc oldest it st w n env = Some (status, w', n', env') \<and>
    free n' \<subseteq> free n \<and> (if status_ok status
      then writer_at d F K (free n') (xs @ kept oldest (base_for v out) (ds_current_user_key st)
        (ds_last_sequence_for_key st) es) w' env'
      else writer_owns d F K w' env')"
  using assms
proof (induction es arbitrary: it pre st n xs w env)
  case Nil
  have "\<not> it_valid merged_ops it" using inputs.merged.valid_at [OF Nil.prems(1)] by simp
  then show ?case using Nil.prems(3) by (subst compact_loop.simps) simp
next
  case (Cons e es)
  note at = Cons.prems(1)
  have s: "sorted_entries (pre @ e # es)" using inputs.merged.at_sorted [OF at] by simp
  have it: "it_valid merged_ops it" "it_internalKey merged_ops it = fst e" "it_value merged_ops it = snd e"
    using inputs.merged.valid_at [OF at] inputs.merged.key_at [OF at] inputs.merged.value_at [OF at] by simp_all
  have nx: "merge_at input_at (it_next merged_ops it) ((pre @ [e]) @ es) (length (pre @ [e]))"
    using inputs.merged.next_at [OF at] by simp
  have nok: "status_ok (it_status merged_ops (it_next merged_ops it))" using inputs.merged.status_at [OF nx] .
  have wf: "wf_ikey (fst e)" using s by (simp add: sorted_entries_def)
  obtain parsed where p: "parseInternalKey (fst e) = Some parsed" and u: "pk_user_key parsed = entry_user e"
    using entry_encode(3) [OF wf] by simp
  have prev: "\<not> (ds_previous_key st \<noteq> [] \<and> \<not> InternalKeyLess (ds_previous_key st) (fst e))"
    using Cons.prems(2) s
    by (cases pre rule: rev_cases) (auto simp: drop_rep_def sorted_entries_append sorted_entries_Cons entry_less_def)
  obtain st' where st': "drop_entry oldest (fst e) parsed st =
      ((if ds_current_user_key st \<noteq> entry_user e then kMaxSequenceNumber else ds_last_sequence_for_key st) \<le> oldest \<or>
       entry_type e = kDeletion \<and> entry_seq e \<le> oldest \<and> base_for v out (entry_user e), st')"
    "drop_rep v out (pre @ [e]) st'" using drop_entry_spec [OF Cons.prems(2) s p] by blast
  have cur: "ds_current_user_key st' = entry_user e" "ds_last_sequence_for_key st' = entry_seq e"
    using st'(2) by (simp_all add: drop_rep_def)
  let ?dropped = "fst (drop_entry oldest (fst e) parsed st)"
  obtain s1 w1 n1 env1 where ad: "(if \<not> ?dropped then OutputWriter_add alloc (fst e) (entry_user e) (snd e) w n env
      else (success, w, n, env)) = (s1, w1, n1, env1)" by (rule prod_cases4)
  have loop: "compact_loop alloc oldest it st w n env = (if \<not> status_ok s1 then Some (s1, w1, n1, env1)
      else compact_loop alloc oldest (it_next merged_ops it) st' w1 n1 env1)"
    using it prev p u st'(1) ad nok by (subst compact_loop.simps) (auto simp: Let_def)
  let ?xs = "if ?dropped then xs else xs @ [e]"
  have kept: "xs @ kept oldest (base_for v out) (ds_current_user_key st) (ds_last_sequence_for_key st) (e # es) =
      ?xs @ kept oldest (base_for v out) (ds_current_user_key st') (ds_last_sequence_for_key st') es"
    unfolding cur using st'(1) by (simp add: Let_def)
  have w1: "free n1 \<subseteq> free n \<and> (if status_ok s1 then writer_at d F K (free n1) ?xs w1 env1
      else writer_owns d F K w1 env1)"
  proof (cases ?dropped)
    case False
    have "sorted_entries (xs @ [(fst e, snd e)])" "entries_size (xs @ [(fst e, snd e)]) + 100 < 2 ^ 32"
      using Cons.prems(4,5) by (simp_all add: sorted_entries_append sorted_entries_Cons) (simp add: sorted_entries_def)
    from writer_add_outcome [OF Cons.prems(3) this, unfolded prod.collapse] show ?thesis using False ad by simp
  qed (use Cons.prems(3) ad in auto)
  show ?case
  proof (cases "status_ok s1")
    case False
    then show ?thesis using loop w1 by simp
  next
    case True
    have xs: "sorted_entries (?xs @ es)" "entries_size (?xs @ es) + 100 < 2 ^ 32"
      using Cons.prems(4,5) sorted_entries_skip by (auto split: if_splits)
    have "writer_at d F K (free n1) ?xs w1 env1" using w1 True by simp
    from Cons.IH [OF nx st'(2) this xs] obtain s2 w2 n2 env2 where
      "compact_loop alloc oldest it st w n env = Some (s2, w2, n2, env2)" and "free n2 \<subseteq> free n1" and
      "if status_ok s2 then writer_at d F K (free n2) (?xs @ kept oldest (base_for v out) (ds_current_user_key st')
          (ds_last_sequence_for_key st') es) w2 env2 else writer_owns d F K w2 env2"
      using loop True by auto
    moreover have "free n1 \<subseteq> free n" using w1 by simp
    ultimately show ?thesis unfolding kept by (intro exI conjI) (assumption, rule subset_trans)
  qed
qed

end

subsection \<open>The whole compaction\<close>

lemma add_iterators_at:
  assumes "list_all2 table_rep ts ls" "quiet renv"
  shows "\<exists>its. add_iterators renv ts acc = Inr (acc @ its) \<and> list_all2 (\<lambda>c l. \<exists>p. input_at c l p) its ls"
  using assms(1)
proof (induction ts ls arbitrary: acc rule: list_all2_induct)
  case (Cons t ts l ls)
  let ?it = "SSTableIterator_seekToFirst (SSTableReader_newIterator compaction_read_options (vt_reader t) renv)"
  obtain r ess where r: "reader_rep r ess (vt_reader t)" "concat ess = l" "l \<noteq> []"
    using Cons.hyps(1) by (auto simp: table_rep_def)
  have at: "tab_at ?it l 0" using tab_at_first [OF tab_at_new [OF r(1) assms(2)]] r(2) by simp
  then have "status_ok (si_status ?it)" "SSTableIterator_valid ?it" using tab_atD(3,4) [OF at] r(3) by auto
  moreover obtain its where "add_iterators renv ts (acc @ [TableInput ?it]) = Inr ((acc @ [TableInput ?it]) @ its)"
    "list_all2 (\<lambda>c l. \<exists>p. input_at c l p) its ls" using Cons.IH by blast
  ultimately show ?case using at by (auto simp: Let_def intro!: exI [of _ "TableInput ?it # its"])
qed simp

lemma drop_rep_new:
  assumes "\<forall>l \<in> {out + 1..<kNumLevels}. ranges_sorted (Version_level l v)"
  shows "drop_rep v out [] \<lparr>ds_previous_key = [], ds_current_user_key = [],
    ds_last_sequence_for_key = kMaxSequenceNumber, ds_base_level = BaseLevelChecker_new v out\<rparr>"
  using assms by (auto simp: drop_rep_def checker_ok_def cursors_ok_def BaseLevelChecker_new_def)

lemma writer_at_new: "writer_at d (env_files env) K K [] (OutputWriter_new d size1) env"
  unfolding writer_at_def
  by (intro exI [of _ "[]"]) (auto simp: writer_rep_def OutputWriter_new_def user_disjoint_def same_outside_def)

lemma kept_sorted:
  "sorted_entries es \<Longrightarrow> sorted_entries (kept oldest base current last1 es) \<and>
     set (kept oldest base current last1 es) \<subseteq> set es \<and> entries_size (kept oldest base current last1 es) \<le> entries_size es"
proof (induction es arbitrary: current last1)
  case (Cons e es)
  then have "sorted_entries (e # es)" "sorted_entries es" by (auto simp: sorted_entries_Cons)
  with Cons.IH [of "entry_user e" "entry_seq e"] show ?case
    by (auto simp: Let_def sorted_entries_Cons)
qed simp

text \<open>What the ranges of a plan must satisfy to be accepted.\<close>

definition plan_ok :: "CompactionPlan \<Rightarrow> Version \<Rightarrow> bool" where
  "plan_ok plan v \<longleftrightarrow> cp_input_version plan = Some v \<and> cp_input_level plan + 1 < kNumLevels \<and>
     ir_begin (cp_inputs plan) < ir_end (cp_inputs plan) \<and>
     ir_end (cp_inputs plan) \<le> length (Version_level (cp_input_level plan) v) \<and>
     ir_begin (cp_overlaps plan) \<le> ir_end (cp_overlaps plan) \<and>
     ir_end (cp_overlaps plan) \<le> length (Version_level (outputLevel plan) v)"

definition plan_tables :: "CompactionPlan \<Rightarrow> Version \<Rightarrow> VTable list" where
  "plan_tables plan v = index_range (cp_inputs plan) (Version_level (cp_input_level plan) v) @
     index_range (cp_overlaps plan) (Version_level (outputLevel plan) v)"

definition outputs_rep :: "string \<Rightarrow> u64 set \<Rightarrow> fs \<Rightarrow> CompactionOutput list \<Rightarrow> entry list list \<Rightarrow> bool" where
  "outputs_rep d K F outs ls \<longleftrightarrow> distinct (map output_number outs) \<and> output_number ` set outs \<subseteq> K \<and>
     user_disjoint ls \<and> list_all2 (output_ok d F) outs ls"

context number_source
begin

lemma build_tables_outcome:
  assumes plan: "plan_ok plan v" "co_output_bytes options \<noteq> 0"
    and ins: "list_all2 table_rep (plan_tables plan v) ins" "distinct (map fst (concat ins))" "quiet renv"
    and size: "entries_size (merge_all ins) + 100 < 2 ^ 32"
    and base: "\<forall>l \<in> {outputLevel plan + 1..<kNumLevels}. ranges_sorted (Version_level l v)"
  shows "\<exists>res n' env'. buildCompactionTables plan d alloc options renv n env = Some (res, n', env') \<and>
    free n' \<subseteq> free n \<and> same_outside d (free n) (env_files env) (env_files env') \<and>
    (case res of
       Inr outs \<Rightarrow> \<exists>ls. outputs_rep d (free n - free n') (env_files env') outs ls \<and> concat ls =
         kept (cp_oldest_snapshot plan) (base_for v (outputLevel plan)) [] kMaxSequenceNumber (merge_all ins)
     | Inl status \<Rightarrow> \<not> status_ok status)"
proof -
  let ?es = "merge_all ins" and ?F = "env_files env" and ?K = "free n" and ?oldest = "cp_oldest_snapshot plan"
  let ?w = "OutputWriter_new d (co_output_bytes options)"
  let ?st = "\<lparr>ds_previous_key = [], ds_current_user_key = [], ds_last_sequence_for_key = kMaxSequenceNumber,
    ds_base_level = BaseLevelChecker_new v (outputLevel plan)\<rparr>"
  let ?kept = "kept ?oldest (base_for v (outputLevel plan)) [] kMaxSequenceNumber ?es"
  obtain its where its: "add_iterators renv (plan_tables plan v) [] = Inr its"
    "list_all2 (\<lambda>c l. \<exists>p. input_at c l p) its ins"
    using add_iterators_at [OF ins(1,3), of "[]"] by auto
  let ?it = "it_seekToFirst merged_ops (MergingIterator_new its)"
  have at: "merge_at input_at ?it ([] @ ?es) (length ([] :: entry list))"
    using inputs.merged.first_at [OF merged_new [OF its(2) ins(2)]] by simp
  have ok: "status_ok (it_status merged_ops ?it)" and s: "sorted_entries ([] @ ?es)"
    using inputs.merged.status_at [OF at] inputs.merged.at_sorted [OF at] by simp_all
  obtain st w1 n1 env1 where lp: "compact_loop alloc ?oldest ?it ?st ?w n env = Some (st, w1, n1, env1)"
    "free n1 \<subseteq> ?K" and l: "if status_ok st then writer_at d ?F ?K (free n1) ([] @ ?kept) w1 env1
      else writer_owns d ?F ?K w1 env1"
    using compact_loop_outcome [OF at drop_rep_new [OF base]
        writer_at_new [where d = d and env = env and K = ?K and ?size1.0 = "co_output_bytes options"] s,
        where oldest = ?oldest, unfolded DropState.simps] size
    by auto
  obtain res w2 env2 where fi: "OutputWriter_finish w1 env1 = (res, w2, env2)" by (rule prod_cases3)
  have run: "buildCompactionTables plan d alloc options renv n env =
      (if \<not> status_ok st then Some (Inl st, n1, OutputWriter_destroy w1 env1)
       else Some (res, n1, OutputWriter_destroy w2 env2))"
    using plan its(1) ok lp(1) fi
    by (simp add: buildCompactionTables_def plan_ok_def plan_tables_def Let_def not_le not_less)
  show ?thesis
  proof (cases "status_ok st")
    case False
    then show ?thesis using run l lp(2) destroy_owns by auto
  next
    case True
    have "sorted_entries ?kept" "entries_size ?kept + 100 < 2 ^ 32"
      using kept_sorted [of ?es ?oldest "base_for v (outputLevel plan)" "[]" kMaxSequenceNumber] s size by auto
    from writer_finish_outcome [OF _ this fi, of d ?F ?K "free n1"] show ?thesis
      using run True l lp(2) destroy_owns by (auto simp: outputs_rep_def split: sum.splits)
  qed
qed

end

end
