(* ===== verification/CompactionVersion.thy ===== *)
theory CompactionVersion
  imports CompactionWrite
begin

text \<open>
  What a compaction does to a version.  The plan takes every table of the next level that can
  share a user key with the inputs; so the new level is again sorted by disjoint user keys, the
  layers stay ordered from new to old, and every reader at or above the oldest snapshot finds
  what it found before.
\<close>

subsection \<open>The plan\<close>

lemma user_range_bounds:
  assumes "user_range ts a b = (lo, hi)"
  shows "lo \<le> a \<and> b \<le> hi \<and> (\<forall>t \<in> set ts. lo \<le> t_small t \<and> t_large t \<le> hi)"
  using assms
proof (induction ts arbitrary: a b)
  case (Cons t ts)
  then have "user_range ts (if t_small t < a then t_small t else a) (if b < t_large t then t_large t else b) = (lo, hi)"
    by (simp add: Let_def)
  from Cons.IH [OF this] show ?case by (auto split: if_splits)
qed simp

lemma userRange_bounds:
  assumes "userRange ts r = (lo, hi)" "ir_begin r < ir_end r" "ir_end r \<le> length ts"
  shows "\<forall>t \<in> set (index_range r ts). lo \<le> t_small t \<and> t_large t \<le> hi"
proof -
  have "index_range r ts = ts ! ir_begin r # drop (ir_begin r + 1) (take (ir_end r) ts)"
    using assms(2,3) Cons_nth_drop_Suc [of "ir_begin r" "take (ir_end r) ts"] by (simp add: index_range_def)
  then show ?thesis
    using user_range_bounds [of "drop (ir_begin r + 1) (take (ir_end r) ts)" "t_small (ts ! ir_begin r)"
        "t_large (ts ! ir_begin r)" lo hi] assms(1)
    by (auto simp: userRange_def Let_def)
qed

lemma ranges_sorted_nth:
  assumes "ranges_sorted ts" "i < j" "j < length ts"
  shows "t_large (ts ! i) < t_small (ts ! j)" "t_small (ts ! i) < t_small (ts ! j)" "t_large (ts ! i) < t_large (ts ! j)"
proof -
  have "t_large (ts ! i) < t_small (ts ! j)" "t_small (ts ! i) \<le> t_large (ts ! i)" "t_small (ts ! j) \<le> t_large (ts ! j)"
    using assms by (auto simp: ranges_sorted_def sorted_wrt_iff_nth_less)
  then show "t_large (ts ! i) < t_small (ts ! j)" "t_small (ts ! i) < t_small (ts ! j)" "t_large (ts ! i) < t_large (ts ! j)"
    by auto
qed

lemma overlappingRange_complete:
  assumes "ranges_sorted ts" "overlappingRange ts lo hi = r"
  shows "ir_begin r \<le> ir_end r" "ir_end r \<le> length ts"
    and "\<forall>t \<in> set (take (ir_begin r) ts). t_large t < lo"
    and "\<forall>t \<in> set (drop (ir_end r) ts). hi < t_small t"
proof -
  let ?P = "\<lambda>t. t_large t < lo" and ?Q = "\<lambda>t. \<not> hi < t_small t"
  let ?b = "length (takeWhile ?P ts)"
  have b: "std_lower_bound ?P ts 0 (length ts) = ?b"
  proof (rule std_lower_bound_partition, intro allI impI)
    fix i j assume h: "i < j \<and> j < length ts \<and> t_large (ts ! j) < lo"
    then show "t_large (ts ! i) < lo" using ranges_sorted_nth(3) [OF assms(1), of i j] by auto
  qed
  let ?e = "?b + length (takeWhile ?Q (drop ?b ts))"
  have r: "r = \<lparr>ir_begin = ?b, ir_end = ?e\<rparr>" using assms(2) b by (simp add: overlappingRange_def Let_def)
  have le: "length (takeWhile ?Q (drop ?b ts)) \<le> length ts - ?b"
    using takeWhile_length_le [of ?Q "drop ?b ts"] by simp
  have "?b \<le> length ts" by (rule takeWhile_length_le)
  then show e: "ir_begin r \<le> ir_end r" "ir_end r \<le> length ts" unfolding r using le by auto
  show "\<forall>t \<in> set (take (ir_begin r) ts). t_large t < lo"
    unfolding r by (auto simp: takeWhile_eq_take [symmetric] dest: set_takeWhileD)
  show "\<forall>t \<in> set (drop (ir_end r) ts). hi < t_small t"
  proof
    fix t assume "t \<in> set (drop (ir_end r) ts)"
    then obtain j where "j < length (drop ?e ts)" "drop ?e ts ! j = t"
      unfolding r IndexRange.select_convs by (metis in_set_conv_nth)
    then have j: "?e + j < length ts" "t = ts ! (?e + j)" by auto
    then have "\<not> ?Q (ts ! ?e)"
      using nth_length_takeWhile [of ?Q "drop ?b ts"] by simp
    then show "hi < t_small t"
      using ranges_sorted_nth(2) [OF assms(1), of ?e "?e + j"] j by (cases "j = 0") auto
  qed
qed

text \<open>The tables outside the ranges of a plan that share its two levels cannot hold its keys.\<close>

definition plan_covers :: "CompactionPlan \<Rightarrow> Version \<Rightarrow> bool" where
  "plan_covers plan v \<longleftrightarrow>
     (\<forall>t \<in> set (index_range (cp_inputs plan) (Version_level (cp_input_level plan) v)).
       (\<forall>u \<in> set (take (ir_begin (cp_overlaps plan)) (Version_level (outputLevel plan) v)). t_large u < t_small t) \<and>
       (\<forall>u \<in> set (drop (ir_end (cp_overlaps plan)) (Version_level (outputLevel plan) v)). t_large t < t_small u))"

lemma pickCompaction_plan:
  assumes p: "pickCompaction (Some v) oldest options = Some plan"
    and s: "\<forall>l \<in> {1..<kNumLevels}. ranges_sorted (Version_level l v)"
  shows "plan_ok plan v" "cp_oldest_snapshot plan = oldest" "plan_covers plan v"
    and "cp_input_level plan = kLevel0 \<and> cp_inputs plan = \<lparr>ir_begin = 0, ir_end = length (Version_level kLevel0 v)\<rparr> \<or>
      cp_input_level plan = kLevel1 \<and> cp_inputs plan = \<lparr>ir_begin = 0, ir_end = 1\<rparr>"
proof -
  obtain lvl inputs where choice: "lvl = kLevel0 \<and> inputs = \<lparr>ir_begin = 0, ir_end = length (Version_level kLevel0 v)\<rparr> \<and>
        kLevel0CompactionTrigger \<le> length (Version_level kLevel0 v) \<or>
      lvl = kLevel1 \<and> inputs = \<lparr>ir_begin = 0, ir_end = 1\<rparr> \<and> Version_level kLevel1 v \<noteq> []"
    and plan': "Some plan = (let (smallest, largest) = userRange (Version_level lvl v) inputs;
                  overlaps = overlappingRange (Version_level (lvl + 1) v) smallest largest
              in Some \<lparr>cp_input_version = Some v, cp_oldest_snapshot = oldest,
                       cp_input_level = lvl, cp_inputs = inputs, cp_overlaps = overlaps\<rparr>)"
  proof (cases "kLevel0CompactionTrigger \<le> length (Version_level kLevel0 v)")
    case True
    then show ?thesis using p by (intro that [of kLevel0]) (auto simp: pickCompaction_def)
  next
    case False
    then have "levelAtLimit (Version_level kLevel1 v) (co_level1_bytes options)"
      using p by (auto simp: pickCompaction_def split: if_splits)
    then show ?thesis
      using p False by (intro that [of kLevel1]) (auto simp: pickCompaction_def levelAtLimit_def split: if_splits)
  qed
  obtain lo hi where u: "userRange (Version_level lvl v) inputs = (lo, hi)" by fastforce
  note plan = plan' [unfolded u, simplified]
  have in1: "ir_begin inputs < ir_end inputs" "ir_end inputs \<le> length (Version_level lvl v)"
    using choice by (cases "Version_level kLevel1 v"; auto simp: kLevel0CompactionTrigger_def)+
  have lvl: "lvl + 1 \<in> {1..<kNumLevels}" using choice by (auto simp: level_consts)
  have rs: "ranges_sorted (Version_level (lvl + 1) v)" using s lvl by blast
  note o = overlappingRange_complete [OF rs refl, of lo hi] and b = userRange_bounds [OF u in1]
  show "plan_ok plan v" "cp_oldest_snapshot plan = oldest"
    using o(1,2) in1 lvl by (simp_all add: plan plan_ok_def outputLevel_def)
  show "plan_covers plan v"
    using o(3,4) b unfolding plan_covers_def by (simp add: plan outputLevel_def) (meson order_le_less_trans order_less_le_trans)
  show "cp_input_level plan = kLevel0 \<and> cp_inputs plan = \<lparr>ir_begin = 0, ir_end = length (Version_level kLevel0 v)\<rparr> \<or>
      cp_input_level plan = kLevel1 \<and> cp_inputs plan = \<lparr>ir_begin = 0, ir_end = 1\<rparr>"
    using choice by (auto simp: plan)
qed

subsection \<open>The entries of a version\<close>

definition all_entries :: "entry list list list \<Rightarrow> entry set" where
  "all_entries lls = \<Union> (set ` set (concat lls))"

definition plan_lists :: "CompactionPlan \<Rightarrow> entry list list list \<Rightarrow> entry list list" where
  "plan_lists plan lls = index_range (cp_inputs plan) (lls ! cp_input_level plan) @
     index_range (cp_overlaps plan) (lls ! outputLevel plan)"

lemma all_entries_layers: "length lls = kNumLevels \<Longrightarrow> all_entries lls = \<Union> (set ` set (layers lls))"
  by (cases lls) (auto simp: all_entries_def level_consts)

lemma list_all2_set2: "list_all2 P xs ys \<Longrightarrow> y \<in> set ys \<Longrightarrow> \<exists>x \<in> set xs. P x y"
  by (induction rule: list_all2_induct) auto

lemma list_all2_index_range: "list_all2 P xs ys \<Longrightarrow> list_all2 P (index_range r xs) (index_range r ys)"
  by (simp add: index_range_def list_all2_dropI list_all2_takeI)

lemma level_rep:
  assumes "version_rep v lls" "i < kNumLevels"
  shows "list_all2 table_rep (Version_level i v) (lls ! i)"
proof -
  have "list_all2 (list_all2 table_rep) (ver_levels v) lls" "length lls = kNumLevels"
    using assms(1) by (auto simp: version_rep_def)
  then show ?thesis using assms(2) list_all2_nthD2 [of "list_all2 table_rep" "ver_levels v" lls i] by (simp add: Version_level_def)
qed

lemma plan_lists_rep:
  assumes "version_rep v lls" "plan_ok plan v"
  shows "list_all2 table_rep (plan_tables plan v) (plan_lists plan lls)"
  using level_rep [OF assms(1)] assms(2)
  by (simp add: plan_tables_def plan_lists_def plan_ok_def outputLevel_def list_all2_appendI list_all2_index_range)

lemma version_sorted:
  assumes "version_rep v lls"
  shows "\<forall>l \<in> set (concat lls). sorted_entries l"
proof
  fix l assume "l \<in> set (concat lls)"
  then obtain ls where "ls \<in> set lls" "l \<in> set ls" by auto
  then show "sorted_entries l"
    using assms list_all2_set2 table_repD(1) unfolding version_rep_def by metis
qed

text \<open>No key occurs twice.\<close>

lemma distinct_concat_pairwise:
  "\<forall>l \<in> set ls. distinct (map f l) \<Longrightarrow> sorted_wrt (\<lambda>a b. \<forall>x \<in> set a. \<forall>y \<in> set b. f x \<noteq> f y) ls \<Longrightarrow>
   distinct (map f (concat ls))"
  by (induction ls) auto

lemma user_seq_cong: "fst x = fst y \<Longrightarrow> entry_user x = entry_user y \<and> entry_seq x = entry_seq y"
  by (simp add: entry_user_def entry_seq_def)

lemma newer_keys: "newer a b \<Longrightarrow> \<forall>x \<in> set a. \<forall>y \<in> set b. fst x \<noteq> fst y"
  unfolding newer_def by (metis less_irrefl user_seq_cong)

lemma newer_sub:
  "newer a (concat bs) \<Longrightarrow> b \<in> set bs \<Longrightarrow> newer a b" "newer (concat as) b \<Longrightarrow> a \<in> set as \<Longrightarrow> newer a b"
  by (auto simp: newer_def)

lemma version_distinct:
  assumes "version_rep v lls" "version_inv lls"
  shows "distinct (map fst (concat (concat lls)))"
proof (rule distinct_concat_pairwise)
  show "\<forall>l \<in> set (concat lls). distinct (map fst l)"
    using version_sorted [OF assms(1)] sorted_keys_distinct by blast
  let ?R = "\<lambda>a b. \<forall>x \<in> set a. \<forall>y \<in> set b. fst x \<noteq> fst y"
  obtain l0 l1 l2 where l: "lls = [l0, l1, l2]" by (rule version_repE [OF assms(1)])
  have n: "sorted_wrt newer (l0 @ [concat l1, concat l2])" and u: "user_disjoint l1" "user_disjoint l2"
    using assms(2) by (auto simp: version_inv_def newest_first_def l)
  have dis: "sorted_wrt ?R ls" if h: "user_disjoint ls" for ls
    by (rule sorted_wrt_mono_rel [OF _ h [unfolded user_disjoint_def]]) (metis less_irrefl user_seq_cong)
  have "sorted_wrt newer l0" using n by (simp add: sorted_wrt_append)
  then have 0: "sorted_wrt ?R l0" by (rule sorted_wrt_mono_rel [rotated]) (rule newer_keys)
  have "newer a (concat l1)" "newer a (concat l2)" if "a \<in> set l0" for a
    using n that by (simp_all add: sorted_wrt_append)
  then have 1: "\<forall>a \<in> set l0. \<forall>b \<in> set l1 \<union> set l2. ?R a b" using newer_keys newer_sub by blast
  have "newer (concat l1) (concat l2)" using n by (simp add: sorted_wrt_append)
  then have 2: "\<forall>a \<in> set l1. \<forall>b \<in> set l2. ?R a b" using newer_keys newer_sub by blast
  show "sorted_wrt ?R (concat lls)"
    using 0 1 2 dis [OF u(1)] dis [OF u(2)] by (auto simp: l sorted_wrt_append)
qed

lemma version_entry_set:
  assumes "version_rep v lls" "version_inv lls"
  shows "entry_set (all_entries lls)"
proof -
  have "all_entries lls = set (concat (concat lls))" by (auto simp: all_entries_def)
  moreover have "inj_on fst (set (concat (concat lls)))" using version_distinct [OF assms] by (simp add: distinct_map)
  moreover have "\<forall>e \<in> set (concat (concat lls)). wf_ikey (fst e)"
    using version_sorted [OF assms(1)] by (auto simp: sorted_entries_def)
  ultimately show ?thesis unfolding entry_set_def by simp
qed

subsection \<open>The new version\<close>

lemma newer_not_less:
  assumes "newer a b" "y \<in> set a" "e \<in> set b" "entry_user y = entry_user e" "wf_ikey (fst y)" "wf_ikey (fst e)"
  shows "\<not> entry_less e y"
proof -
  have "entry_seq e < entry_seq y" using assms(1-4) by (auto simp: newer_def)
  then show ?thesis using entry_less_iff [OF assms(6,5)] assms(4) by auto
qed

lemma covers_entries:
  assumes rep: "version_rep v lls" and ok: "plan_ok plan v" and cov: "plan_covers plan v"
    and l: "l \<in> set (index_range (cp_inputs plan) (lls ! cp_input_level plan))" "x \<in> set l"
  shows "m \<in> set (take (ir_begin (cp_overlaps plan)) (lls ! outputLevel plan)) \<Longrightarrow> y \<in> set m \<Longrightarrow> entry_user y < entry_user x"
    and "m \<in> set (drop (ir_end (cp_overlaps plan)) (lls ! outputLevel plan)) \<Longrightarrow> y \<in> set m \<Longrightarrow> entry_user x < entry_user y"
proof -
  let ?S = "Version_level (cp_input_level plan) v" and ?T = "Version_level (outputLevel plan) v"
  have rs: "list_all2 table_rep ?S (lls ! cp_input_level plan)" "list_all2 table_rep ?T (lls ! outputLevel plan)"
    using level_rep [OF rep] ok by (simp_all add: plan_ok_def outputLevel_def)
  obtain t where t: "t \<in> set (index_range (cp_inputs plan) ?S)" "table_rep t l"
    using list_all2_set2 [OF list_all2_index_range [OF rs(1)] l(1)] by blast
  have tx: "t_small t \<le> entry_user x" "entry_user x \<le> t_large t"
    using table_repD(3-5) [OF t(2)] l(2) by auto
  have ty: "t_small u \<le> entry_user y \<and> entry_user y \<le> t_large u" if "table_rep u m" "y \<in> set m" for u m y
    using table_repD(3-5) [OF that(1)] that(2) by auto
  show "entry_user y < entry_user x" if h: "m \<in> set (take (ir_begin (cp_overlaps plan)) (lls ! outputLevel plan))" "y \<in> set m"
  proof -
    obtain u where "u \<in> set (take (ir_begin (cp_overlaps plan)) ?T)" "table_rep u m"
      using list_all2_set2 [OF list_all2_takeI [OF rs(2)] h(1)] by blast
    then show ?thesis using cov t(1) tx(1) ty [of u m y] h(2) unfolding plan_covers_def by force
  qed
  show "entry_user x < entry_user y" if h: "m \<in> set (drop (ir_end (cp_overlaps plan)) (lls ! outputLevel plan))" "y \<in> set m"
  proof -
    obtain u where "u \<in> set (drop (ir_end (cp_overlaps plan)) ?T)" "table_rep u m"
      using list_all2_set2 [OF list_all2_dropI [OF rs(2)] h(1)] by blast
    then show ?thesis using cov t(1) tx(2) ty [of u m y] h(2) unfolding plan_covers_def by force
  qed
qed

lemma replaced_disjoint:
  assumes T: "user_disjoint T" "b \<le> e" "e \<le> length T" and ls: "user_disjoint ls"
    and below: "\<forall>m \<in> set (take b T). \<forall>y \<in> set m. \<forall>x \<in> I. entry_user y < entry_user x"
    and above: "\<forall>m \<in> set (drop e T). \<forall>y \<in> set m. \<forall>x \<in> I. entry_user x < entry_user y"
    and sub: "\<Union> (set ` set ls) \<subseteq> I \<union> \<Union> (set ` set (drop b (take e T)))"
  shows "user_disjoint (take b T @ ls @ drop e T)"
proof -
  let ?R = "\<lambda>a b. \<forall>x \<in> set a. \<forall>y \<in> set b. entry_user x < entry_user y"
  have "T = take b T @ drop b (take e T) @ drop e T"
    using T(2) by (metis append_assoc append_take_drop_id min.absorb1 take_take)
  then have s: "sorted_wrt ?R (take b T @ drop b (take e T) @ drop e T)"
    using T(1) by (simp add: user_disjoint_def)
  then have s1: "\<forall>a \<in> set (take b T). \<forall>m \<in> set (drop b (take e T)). ?R a m"
    and s3: "\<forall>m \<in> set (drop b (take e T)). \<forall>c \<in> set (drop e T). ?R m c"
    and s2: "\<forall>a \<in> set (take b T). \<forall>c \<in> set (drop e T). ?R a c"
    and s0: "sorted_wrt ?R (take b T)" "sorted_wrt ?R (drop e T)"
    by (simp_all add: sorted_wrt_append ball_Un ball_conj_distrib)
  have mid: "x \<in> I \<or> (\<exists>m \<in> set (drop b (take e T)). x \<in> set m)" if "l \<in> set ls" "x \<in> set l" for l x
    using that sub by blast
  have "?R a l" if h: "a \<in> set (take b T)" "l \<in> set ls" for a l
  proof (intro ballI)
    fix y x assume y: "y \<in> set a" and x: "x \<in> set l"
    from mid [OF h(2) x] show "entry_user y < entry_user x"
    proof (elim disjE bexE)
      assume "x \<in> I" then show ?thesis by (rule below [rule_format, OF h(1) y])
    next
      fix m assume m: "m \<in> set (drop b (take e T))" "x \<in> set m"
      show ?thesis by (rule s1 [rule_format, OF h(1) m(1) y m(2)])
    qed
  qed
  moreover have "?R l c" if h: "c \<in> set (drop e T)" "l \<in> set ls" for c l
  proof (intro ballI)
    fix x y assume x: "x \<in> set l" and y: "y \<in> set c"
    from mid [OF h(2) x] show "entry_user x < entry_user y"
    proof (elim disjE bexE)
      assume "x \<in> I" then show ?thesis by (rule above [rule_format, OF h(1) y])
    next
      fix m assume m: "m \<in> set (drop b (take e T))" "x \<in> set m"
      show ?thesis by (rule s3 [rule_format, OF m(1) h(1) m(2) y])
    qed
  qed
  ultimately show ?thesis
    using s0 s2 ls unfolding user_disjoint_def sorted_wrt_append by (simp add: ball_Un ball_conj_distrib)
qed

text \<open>The two kinds of compaction, with the lists of entries of the three levels.\<close>

definition separates :: "entry list list \<Rightarrow> nat \<Rightarrow> nat \<Rightarrow> entry list list \<Rightarrow> bool" where
  "separates ls b e T \<longleftrightarrow> b \<le> e \<and> e \<le> length T \<and>
     (\<forall>m \<in> set (take b T). \<forall>y \<in> set m. \<forall>x \<in> \<Union> (set ` set ls). entry_user y < entry_user x) \<and>
     (\<forall>m \<in> set (drop e T). \<forall>y \<in> set m. \<forall>x \<in> \<Union> (set ` set ls). entry_user x < entry_user y)"

lemma version_ranges_sorted:
  assumes "version_rep v lls" "version_inv lls"
  shows "\<forall>i \<in> {1..<kNumLevels}. ranges_sorted (Version_level i v)"
proof
  fix i assume i: "i \<in> {1..<kNumLevels}"
  then have "lls ! i \<in> set (tl lls)"
    using assms(1) nth_mem [of "i - 1" "tl lls"] by (auto simp: version_rep_def nth_tl)
  then have "user_disjoint (lls ! i)" using assms(2) by (simp add: version_inv_def)
  then show "ranges_sorted (Version_level i v)" using ranges_sorted_rep [OF level_rep [OF assms(1)]] i by simp
qed

lemmas picked_plan = pickCompaction_plan [OF _ version_ranges_sorted]

lemma plan_cases:
  assumes rep: "version_rep v lls" and inv: "version_inv lls"
    and p: "pickCompaction (Some v) oldest options = Some plan"
  obtains (level0) l0 l1 l2 b e where "lls = [l0, l1, l2]" "separates l0 b e l1"
      "plan_lists plan lls = l0 @ drop b (take e l1)" "outputLevel plan = 1"
      "\<And>ls. compact_levels (cp_input_level plan) (cp_inputs plan) (cp_overlaps plan) ls lls =
        [[], take b l1 @ ls @ drop e l1, l2]"
  | (level1) l0 i l1 l2 b e where "lls = [l0, i # l1, l2]" "separates [i] b e l2"
      "plan_lists plan lls = i # drop b (take e l2)" "outputLevel plan = 2"
      "\<And>ls. compact_levels (cp_input_level plan) (cp_inputs plan) (cp_overlaps plan) ls lls =
        [l0, l1, take b l2 @ ls @ drop e l2]"
proof -
  obtain t0 t1 t2 l0 l1 l2 where l: "ver_levels v = [t0, t1, t2]" "lls = [l0, l1, l2]" "list_all2 table_rep t0 l0"
    "list_all2 table_rep t1 l1" "list_all2 table_rep t2 l2" by (rule version_repE [OF rep])
  have lv: "Version_level 0 v = t0" "Version_level (Suc 0) v = t1" "Version_level 2 v = t2"
    by (simp_all add: Version_level_def l level_consts)
  have len: "length t0 = length l0" "length t1 = length l1" "length t2 = length l2"
    using l(3-5) by (simp_all add: list_all2_lengthD)
  note q = picked_plan [OF p rep inv]
  obtain b e where be: "cp_overlaps plan = \<lparr>ir_begin = b, ir_end = e\<rparr>" by (cases "cp_overlaps plan")
  note cov = covers_entries [OF rep q(1) q(3)]
  from q(4) show thesis
  proof (elim disjE conjE)
    assume i: "cp_input_level plan = kLevel0" "cp_inputs plan = \<lparr>ir_begin = 0, ir_end = length (Version_level kLevel0 v)\<rparr>"
    then have i': "cp_input_level plan = 0" "outputLevel plan = 1" "index_range (cp_inputs plan) l0 = l0"
      by (simp_all add: outputLevel_def level_consts index_range_def lv len)
    have be': "b \<le> e" "e \<le> length l1" using q(1) i' by (simp_all add: plan_ok_def be lv len)
    have "separates l0 b e l1" using cov be' i' unfolding separates_def be l by auto
    then show thesis
      using be' i' i(2) by (intro level0 [OF l(2)])
        (auto simp: l plan_lists_def be index_range_def compact_levels_def insert_at_def erase_range_def lv len level_consts)
  next
    assume i: "cp_input_level plan = kLevel1" "cp_inputs plan = \<lparr>ir_begin = 0, ir_end = 1\<rparr>"
    then have i': "cp_input_level plan = 1" "outputLevel plan = 2" by (simp_all add: outputLevel_def level_consts)
    obtain h r where hr: "l1 = h # r" using q(1) i' i(2) len by (cases l1) (auto simp: plan_ok_def lv)
    have be': "b \<le> e" "e \<le> length l2" using q(1) i' by (simp_all add: plan_ok_def be lv len)
    have "index_range (cp_inputs plan) l1 = [h]" by (simp add: i hr index_range_def)
    then have "separates [h] b e l2" using cov be' i' unfolding separates_def be l by auto
    then show thesis
      using be' i' i(2) by (intro level1 [OF l(2) [unfolded hr]])
        (auto simp: l hr plan_lists_def be index_range_def compact_levels_def insert_at_def erase_range_def numeral_2_eq_2)
  qed
qed

text \<open>The layers of lists that are sorted one by one.\<close>

lemma sorted_concat:
  "user_disjoint ls \<Longrightarrow> \<forall>l \<in> set ls. sorted_entries l \<Longrightarrow> sorted_entries (concat ls)"
proof (induction ls)
  case (Cons l ls)
  have s: "sorted_entries l" "sorted_entries (concat ls)" using Cons by (simp_all add: user_disjoint_def)
  have "entry_less x y" if h: "x \<in> set l" "y \<in> set (concat ls)" for x y
  proof -
    have "entry_user x < entry_user y" using h Cons.prems(1) by (auto simp: user_disjoint_def)
    moreover have "wf_ikey (fst x)" "wf_ikey (fst y)" using h s unfolding sorted_entries_def by blast+
    ultimately show ?thesis using entry_less_iff [of x y] by blast
  qed
  then show ?case using s unfolding concat.simps sorted_entries_append by blast
qed (simp add: sorted_entries_def)

lemma sorted_layers:
  assumes "length lls = kNumLevels" "version_inv lls" "\<forall>l \<in> set (concat lls). sorted_entries l"
  shows "\<forall>l \<in> set (layers lls). sorted_entries l"
proof -
  obtain l0 lr where l: "lls = l0 # lr" using assms(1) by (cases lls) (auto simp: level_consts)
  have "sorted_entries (concat ls)" if "ls \<in> set lr" for ls
    using that assms(2,3) by (intro sorted_concat) (auto simp: l version_inv_def)
  then show ?thesis using assms(3) by (auto simp: l)
qed

lemma sorted_concat_sub: "sorted_entries (concat ls) \<Longrightarrow> \<forall>l \<in> set ls. sorted_entries l"
  by (induction ls) (auto simp: sorted_entries_append)

text \<open>What every compaction relies on, for the tables it does not touch.\<close>

lemma newer_mono: "newer a b \<Longrightarrow> set a' \<subseteq> set a \<Longrightarrow> set b' \<subseteq> set b \<Longrightarrow> newer a' b'"
  by (auto simp: newer_def)

lemma newest_first_level0:
  assumes "newest_first (l0 @ [c1, c2])" "set c \<subseteq> \<Union> (set ` set l0) \<union> set c1"
  shows "newest_first [c, c2]"
proof -
  have "\<forall>l \<in> set l0. newer l c2" "newer c1 c2" using assms(1) by (auto simp: newest_first_def sorted_wrt_append)
  then show ?thesis using assms(2) unfolding newest_first_def newer_def by fastforce
qed

lemma newest_first_level1:
  assumes n: "newest_first (l0 @ [i @ c1, c2])" and c: "set c \<subseteq> set i \<union> set c2"
    and u: "\<forall>x \<in> set i. \<forall>y \<in> set c1. entry_user x < entry_user y"
  shows "newest_first (l0 @ [c1, c])"
proof -
  have "sorted_wrt newer l0" and 1: "\<forall>l \<in> set l0. newer l (i @ c1) \<and> newer l c2" "newer (i @ c1) c2"
    using n by (auto simp: newest_first_def sorted_wrt_append)
  moreover have "newer l c1" "newer l c" if "l \<in> set l0" for l
    using 1(1) that c by (auto simp: newer_def subset_iff) (metis Un_iff)+
  moreover have "newer c1 c"
    unfolding newer_def
  proof (intro ballI impI)
    fix x y assume h: "x \<in> set c1" "y \<in> set c" "entry_user x = entry_user y"
    then have "y \<notin> set i" using u by (metis less_irrefl)
    then have "y \<in> set c2" using c h(2) by blast
    then show "entry_seq y < entry_seq x" using 1(2) h unfolding newer_def by auto
  qed
  ultimately show ?thesis unfolding newest_first_def sorted_wrt_append by simp
qed

lemma covered_entry:
  assumes "list_all2 table_rep ts ls" "m \<in> set ls" "y \<in> set m"
  shows "covered ts (entry_user y)"
proof -
  obtain t where t: "t \<in> set ts" "table_rep t m" using list_all2_set2 [OF assms(1,2)] by blast
  then show ?thesis using table_repD(3-5) [OF t(2)] assms(3) unfolding covered_def by metis
qed

lemma separates_users:
  assumes "separates ls b e T" "user_disjoint T" "y \<in> \<Union> (set ` set (take b T @ drop e T))"
    and "x \<in> \<Union> (set ` set (ls @ drop b (take e T)))"
  shows "entry_user y \<noteq> entry_user x"
proof -
  let ?R = "\<lambda>a b. \<forall>x \<in> set a. \<forall>y \<in> set b. entry_user x < entry_user y"
  have be: "b \<le> e" using assms(1) by (simp add: separates_def)
  have "T = take b T @ drop b (take e T) @ drop e T"
    using be by (metis append_assoc append_take_drop_id min.absorb1 take_take)
  then have "sorted_wrt ?R (take b T @ drop b (take e T) @ drop e T)" using assms(2) by (simp add: user_disjoint_def)
  then have s: "\<forall>a \<in> set (take b T). \<forall>m \<in> set (drop b (take e T)). ?R a m"
    "\<forall>m \<in> set (drop b (take e T)). \<forall>c \<in> set (drop e T). ?R m c"
    by (simp_all add: sorted_wrt_append ball_Un ball_conj_distrib)
  obtain m where m: "m \<in> set (take b T) \<or> m \<in> set (drop e T)" "y \<in> set m" using assms(3) by auto
  obtain n where n: "n \<in> set ls \<or> n \<in> set (drop b (take e T))" "x \<in> set n" using assms(4) by auto
  have "entry_user y < entry_user x \<or> entry_user x < entry_user y"
    using m(1) n(1)
  proof (elim disjE)
    assume "m \<in> set (take b T)" "n \<in> set ls"
    then show ?thesis using assms(1) m(2) n(2) unfolding separates_def by blast
  next
    assume "m \<in> set (take b T)" "n \<in> set (drop b (take e T))"
    then show ?thesis using s(1) [rule_format, of m n y x] m(2) n(2) by simp
  next
    assume "m \<in> set (drop e T)" "n \<in> set ls"
    then show ?thesis using assms(1) m(2) n(2) unfolding separates_def by blast
  next
    assume "m \<in> set (drop e T)" "n \<in> set (drop b (take e T))"
    then show ?thesis using s(2) [rule_format, of n m x y] m(2) n(2) by simp
  qed
  then show ?thesis by auto
qed

lemma split_range: "b \<le> e \<Longrightarrow> m \<in> set T \<longleftrightarrow> m \<in> set (take b T @ drop e T) \<or> m \<in> set (drop b (take e T))"
proof -
  assume "b \<le> e"
  then have "T = take b T @ drop b (take e T) @ drop e T"
    by (metis append_assoc append_take_drop_id min.absorb1 take_take)
  then have "set T = set (take b T @ drop b (take e T) @ drop e T)" by simp
  then show ?thesis by auto
qed

lemma bottom_level0:
  assumes sep: "separates l0 b e l1" "user_disjoint l1" and t: "list_all2 table_rep (Version_level 2 v) l2"
    and x: "x \<in> \<Union> (set ` set (l0 @ drop b (take e l1)))" "base_for v 1 (entry_user x)"
    and y: "m \<in> set (l0 @ l1 @ l2)" "y \<in> set m" "entry_user y = entry_user x"
  shows "y \<in> \<Union> (set ` set (l0 @ drop b (take e l1)))"
proof -
  have be: "b \<le> e" using sep(1) by (simp add: separates_def)
  have "m \<notin> set l2"
  proof
    assume "m \<in> set l2"
    then have "covered (Version_level 2 v) (entry_user x)" using covered_entry [OF t _ y(2)] y(3) by simp
    then show False using x(2) by (simp add: base_for_def level_consts)
  qed
  moreover have "m \<notin> set (take b l1 @ drop e l1)"
    using separates_users [OF sep, of y x] x(1) y(2,3) by blast
  ultimately have "m \<in> set (l0 @ drop b (take e l1))" using y(1) split_range [OF be, of m l1] by simp
  then show ?thesis using y(2) by blast
qed

lemma bottom_level1:
  assumes sep: "separates [i] b e l2" "user_disjoint l2" "user_disjoint (i # l1)"
    and n: "newest_first (l0 @ [concat (i # l1), concat l2])"
    and x: "x \<in> \<Union> (set ` set (i # drop b (take e l2)))" "wf_ikey (fst x)"
    and y: "m \<in> set (l0 @ (i # l1) @ l2)" "y \<in> set m" "entry_user y = entry_user x" "entry_less x y" "wf_ikey (fst y)"
  shows "y \<in> \<Union> (set ` set (i # drop b (take e l2)))"
proof -
  have be: "b \<le> e" using sep(1) by (simp add: separates_def)
  have n': "\<forall>l \<in> set l0. newer l (concat (i # l1)) \<and> newer l (concat l2)" "newer (concat (i # l1)) (concat l2)"
    using n by (auto simp: newest_first_def sorted_wrt_append)
  have nl: "\<not> newer m c" if "x \<in> set c" for c
    using newer_not_less [OF _ y(2) that y(3,5) x(2)] y(4) by blast
  obtain k where k: "k = i \<or> k \<in> set (drop b (take e l2))" "x \<in> set k" using x(1) by auto
  have k': "x \<in> set (concat (i # l1)) \<and> k = i \<or> x \<in> set (concat l2)"
    using k split_range [OF be, of k l2] by auto
  have "m \<notin> set l0" using nl n'(1) k' by blast
  moreover have "m \<notin> set l1"
  proof
    assume m: "m \<in> set l1"
    from k(1) show False
    proof
      assume "k = i"
      then have "entry_user x < entry_user y" using sep(3) m k(2) y(2) by (simp add: user_disjoint_def)
      then show False using y(3) by simp
    next
      assume "k \<in> set (drop b (take e l2))"
      then have "x \<in> set (concat l2)" using k(2) split_range [OF be, of k l2] by auto
      then show False using nl [of "concat l2"] newer_sub(2) [OF n'(2), of m] m by simp
    qed
  qed
  moreover have "m \<notin> set (take b l2 @ drop e l2)"
    using separates_users [OF sep(1,2), of y x] x(1) y(2,3) by (metis UN_I append_Cons append_Nil)
  ultimately have "m \<in> set (i # drop b (take e l2))" using y(1) split_range [OF be, of m l2] by auto
  then show ?thesis using y(2) by blast
qed

lemma bottom_plan:
  assumes rep: "version_rep v lls" and inv: "version_inv lls"
    and p: "pickCompaction (Some v) oldest options = Some plan"
  shows "bottom (base_for v (outputLevel plan)) (all_entries lls) (\<Union> (set ` set (plan_lists plan lls)))"
    (is "bottom ?base ?A ?E")
  unfolding bottom_def
proof (intro ballI impI)
  fix e y assume e: "e \<in> ?E" "?base (entry_user e)" and y: "y \<in> ?A" "entry_user y = entry_user e \<and> entry_less e y"
  have wf: "wf_ikey (fst x)" if "x \<in> ?A" for x
    using that version_entry_set [OF rep inv] by (simp add: entry_set_def)
  obtain m where m: "m \<in> set (concat lls)" "y \<in> set m" using y(1) unfolding all_entries_def by blast
  from rep inv p show "y \<in> ?E"
  proof (cases rule: plan_cases)
    case (level0 l0 l1 l2 b e')
    have u: "user_disjoint l1" using inv by (simp add: version_inv_def level0(1))
    have t: "list_all2 table_rep (Version_level 2 v) l2" using level_rep [OF rep, of 2] by (simp add: level0(1) level_consts)
    show ?thesis
      unfolding level0(3)
      by (rule bottom_level0 [OF level0(2) u t e(1) [unfolded level0(3)] _ _ m(2)])
        (use e(2) m(1) y(2) in \<open>simp_all add: level0(1,4)\<close>)
  next
    case (level1 l0 i l1 l2 b e')
    have u: "user_disjoint l2" "user_disjoint (i # l1)" and n: "newest_first (l0 @ [concat (i # l1), concat l2])"
      using inv by (simp_all add: version_inv_def level1(1))
    have "set (i # drop b (take e' l2)) \<subseteq> set (concat lls)"
      unfolding level1(1) by (auto dest: in_set_dropD in_set_takeD)
    then have "e \<in> ?A" using e(1) unfolding level1(3) all_entries_def by blast
    then show ?thesis
      unfolding level1(3)
      by (intro bottom_level1 [OF level1(2) u n e(1) [unfolded level1(3)] wf _ m(2)])
        (use m(1) y wf in \<open>simp_all add: level1(1)\<close>)
  qed
qed

lemma disjoint_parts:
  fixes xs :: "'a list list"
  assumes "distinct (map f (concat xs))" "mset xs = mset (P @ R)"
  shows "\<Union> (set ` set P) \<inter> \<Union> (set ` set R) = {}" "set xs = set P \<union> set R" "distinct (map f (concat P))"
proof -
  have "mset (concat xs) = sum_mset (image_mset mset (mset xs))" for xs :: "'a list list" by (induction xs) simp_all
  then have "mset (concat xs) = mset (concat (P @ R))" using assms(2) by (simp only:)
  then have "mset (map f (concat xs)) = mset (map f (concat (P @ R)))" by (simp only: mset_map)
  then have d: "distinct (map f (concat (P @ R)))" using assms(1) mset_eq_imp_distinct_iff by blast
  then have "distinct (concat (P @ R))" unfolding distinct_map by blast
  then show "\<Union> (set ` set P) \<inter> \<Union> (set ` set R) = {}" by simp
  show "set xs = set P \<union> set R" using assms(2) by (metis set_append set_mset_mset)
  show "distinct (map f (concat P))" using d by simp
qed

lemma mset_range: "b \<le> e \<Longrightarrow> mset T = mset (drop b (take e T)) + mset (take b T @ drop e T)"
proof -
  assume "b \<le> e"
  then have "T = take b T @ drop b (take e T) @ drop e T"
    by (metis append_assoc append_take_drop_id min.absorb1 take_take)
  then have "mset T = mset (take b T @ drop b (take e T) @ drop e T)" by (rule arg_cong)
  then show ?thesis by simp
qed

text \<open>A compaction replaces the lists of the plan and nothing else.\<close>

lemma compaction_parts:
  assumes rep: "version_rep v lls" and inv: "version_inv lls"
    and p: "pickCompaction (Some v) oldest options = Some plan"
  obtains R where "set (concat lls) = set (plan_lists plan lls) \<union> set R"
    "\<Union> (set ` set (plan_lists plan lls)) \<inter> \<Union> (set ` set R) = {}"
    "distinct (map fst (concat (plan_lists plan lls)))"
    "\<And>ls. set (concat (compact_levels (cp_input_level plan) (cp_inputs plan) (cp_overlaps plan) ls lls)) =
      set ls \<union> set R"
proof -
  note d = version_distinct [OF rep inv]
  from rep inv p show thesis
  proof (cases rule: plan_cases)
    case (level0 l0 l1 l2 b e)
    have "b \<le> e" using level0(2) by (simp add: separates_def)
    then have "mset (concat lls) = mset (plan_lists plan lls @ take b l1 @ drop e l1 @ l2)"
      using mset_range [of b e l1] unfolding level0(3) by (simp add: level0(1))
    note dp = disjoint_parts [OF d this]
    show thesis by (rule that [OF dp(2) dp(1) dp(3)]) (auto simp: level0(5))
  next
    case (level1 l0 i l1 l2 b e)
    have "b \<le> e" using level1(2) by (simp add: separates_def)
    then have "mset (concat lls) = mset (plan_lists plan lls @ l0 @ l1 @ take b l2 @ drop e l2)"
      using mset_range [of b e l2] unfolding level1(3) by (simp add: level1(1))
    note dp = disjoint_parts [OF d this]
    show thesis by (rule that [OF dp(2) dp(1) dp(3)]) (auto simp: level1(5))
  qed
qed

lemma range_subs:
  "\<Union> (set ` set (take b T)) \<subseteq> set (concat T)" "\<Union> (set ` set (drop e T)) \<subseteq> set (concat T)"
  "\<Union> (set ` set (drop b (take e T))) \<subseteq> set (concat T)"
  by (auto dest: in_set_dropD in_set_takeD)

lemma replaced_set:
  assumes "\<Union> (set ` set ls) \<subseteq> I \<union> \<Union> (set ` set (drop b (take e T)))"
  shows "set (concat (take b T @ ls @ drop e T)) \<subseteq> I \<union> set (concat T)"
proof -
  have "\<Union> (set ` set ls) \<subseteq> I \<union> set (concat T)"
    by (rule subset_trans [OF assms]) (rule Un_mono [OF subset_refl range_subs(3)])
  moreover have "set (concat (take b T @ ls @ drop e T)) =
      \<Union> (set ` set (take b T)) \<union> \<Union> (set ` set ls) \<union> \<Union> (set ` set (drop e T))" by auto
  ultimately show ?thesis using range_subs(1) [of b T] range_subs(2) [of e T] by (simp only: le_sup_iff) (simp add: le_supI2)
qed

lemma compaction_inv:
  assumes rep: "version_rep v lls" and inv: "version_inv lls"
    and p: "pickCompaction (Some v) oldest options = Some plan"
    and ls: "user_disjoint ls" "\<Union> (set ` set ls) \<subseteq> \<Union> (set ` set (plan_lists plan lls))"
  shows "version_inv (compact_levels (cp_input_level plan) (cp_inputs plan) (cp_overlaps plan) ls lls)"
  using rep inv p
proof (cases rule: plan_cases)
  case (level0 l0 l1 l2 b e)
  have n: "newest_first (l0 @ [concat l1, concat l2])" and u: "user_disjoint l1" "user_disjoint l2"
    using inv by (simp_all add: version_inv_def level0(1))
  have "user_disjoint (take b l1 @ ls @ drop e l1)"
    using level0(2) ls(2) unfolding separates_def level0(3) by (intro replaced_disjoint [OF u(1) _ _ ls(1)]) auto
  moreover have "newest_first [concat (take b l1 @ ls @ drop e l1), concat l2]"
    using ls(2) unfolding level0(3) by (intro newest_first_level0 [OF n] replaced_set) simp
  ultimately show ?thesis using u(2) unfolding level0(5) version_inv_def by simp
next
  case (level1 l0 i l1 l2 b e)
  have n: "newest_first (l0 @ [i @ concat l1, concat l2])" and u: "user_disjoint (i # l1)" "user_disjoint l2"
    using inv by (simp_all add: version_inv_def level1(1))
  have "user_disjoint (take b l2 @ ls @ drop e l2)"
    using level1(2) ls(2) unfolding separates_def level1(3) by (intro replaced_disjoint [OF u(2) _ _ ls(1)]) auto
  moreover have "newest_first (l0 @ [concat l1, concat (take b l2 @ ls @ drop e l2)])"
    using ls(2) u(1) unfolding level1(3)
    by (intro newest_first_level1 [OF n] replaced_set) (auto simp: user_disjoint_def)
  ultimately show ?thesis using u(1) unfolding level1(5) version_inv_def by (simp add: user_disjoint_def)
qed

text \<open>
  A compaction as a whole: with outputs of the entries that are kept, the invariant holds again,
  no entry is new, and reads at or above the oldest snapshot are as before.
\<close>

lemma kept_entries:
  assumes rep: "version_rep v lls" and ok: "plan_ok plan v" and o: "oldest < kMaxSequenceNumber"
    and d: "distinct (map fst (concat (plan_lists plan lls)))"
    and cl: "concat ls = kept oldest base [] kMaxSequenceNumber (merge_all (plan_lists plan lls))"
  shows "\<Union> (set ` set ls) = {e \<in> \<Union> (set ` set (plan_lists plan lls)).
      \<not> drops oldest base (\<Union> (set ` set (plan_lists plan lls))) e}"
    and "\<forall>l \<in> set ls. sorted_entries l"
proof -
  let ?ins = "plan_lists plan lls"
  have "\<forall>l \<in> set ?ins. sorted_entries l"
    using list_all2_set2 [OF plan_lists_rep [OF rep ok]] table_repD(1) by blast
  from merge_all_of [OF this d] have m: "sorted_entries (merge_all ?ins)" "set (merge_all ?ins) = \<Union> (set ` set ?ins)"
    by (simp_all add: merge_of_def) (metis set_concat set_mset_mset)
  have "concat ls = filter (\<lambda>e. \<not> drops oldest base (\<Union> (set ` set ?ins)) e) (merge_all ?ins)"
    unfolding cl using kept_filter [of "[]" "merge_all ?ins" oldest kMaxSequenceNumber "[]" base] m o by simp
  then have "set (concat ls) = {e \<in> \<Union> (set ` set ?ins). \<not> drops oldest base (\<Union> (set ` set ?ins)) e}"
    using m(2) by simp
  then show "\<Union> (set ` set ls) = {e \<in> \<Union> (set ` set ?ins). \<not> drops oldest base (\<Union> (set ` set ?ins)) e}" by simp
  have "sorted_entries (concat ls)" unfolding cl using kept_sorted [OF m(1)] by blast
  then show "\<forall>l \<in> set ls. sorted_entries l" by (rule sorted_concat_sub)
qed

lemma compaction_reads:
  assumes rep: "version_rep v lls" and inv: "version_inv lls"
    and p: "pickCompaction (Some v) oldest options = Some plan" and o: "oldest < kMaxSequenceNumber"
    and ls: "user_disjoint ls"
    and cl: "concat ls = kept oldest (base_for v (outputLevel plan)) [] kMaxSequenceNumber (merge_all (plan_lists plan lls))"
  defines "lls' \<equiv> compact_levels (cp_input_level plan) (cp_inputs plan) (cp_overlaps plan) ls lls"
  shows "version_inv lls'" and "all_entries lls' \<subseteq> all_entries lls"
    and "oldest \<le> s \<Longrightarrow> lookup_layers (layers lls') k s = Found x \<longleftrightarrow> lookup_layers (layers lls) k s = Found x"
proof -
  let ?E = "\<Union> (set ` set (plan_lists plan lls))" and ?A = "all_entries lls"
  let ?base = "base_for v (outputLevel plan)"
  obtain R where R: "set (concat lls) = set (plan_lists plan lls) \<union> set R" "?E \<inter> \<Union> (set ` set R) = {}"
    "distinct (map fst (concat (plan_lists plan lls)))"
    and R': "set (concat lls') = set ls \<union> set R"
    unfolding lls'_def by (rule compaction_parts [OF rep inv p]) blast
  note k = kept_entries [OF rep picked_plan(1) [OF p rep inv] o R(3) cl]
  have new: "all_entries lls' = {e \<in> ?A. \<not> (e \<in> ?E \<and> drops oldest ?base ?E e)}"
    using R(2) unfolding all_entries_def R' R(1) image_Un Union_Un_distrib k(1) by blast
  then show sub: "all_entries lls' \<subseteq> ?A" by blast
  show inv': "version_inv lls'"
    unfolding lls'_def by (rule compaction_inv [OF rep inv p ls]) (use k(1) in blast)
  have len: "length lls = kNumLevels" "length lls' = kNumLevels"
    using rep by (simp_all add: version_rep_def lls'_def compact_levels_def)
  have es: "entry_set ?A" by (rule version_entry_set [OF rep inv])
  then have es': "entry_set (all_entries lls')"
    using sub unfolding entry_set_def by (meson finite_subset inj_on_subset subsetD)
  have s: "\<forall>l \<in> set (concat lls). sorted_entries l" by (rule version_sorted [OF rep])
  then have s': "\<forall>l \<in> set (concat lls'). sorted_entries l" using k(2) unfolding R' R(1) by blast
  assume os: "oldest \<le> s"
  have "lookup_layers (layers lls') k s = Found x \<longleftrightarrow> reads_as (all_entries lls') k s x"
    unfolding all_entries_layers [OF len(2)]
    by (rule lookup_layers_reads_as [OF _ sorted_layers [OF len(2) inv' s']])
      (use inv' es' all_entries_layers [OF len(2)] in \<open>simp_all add: version_inv_def\<close>)
  moreover have "lookup_layers (layers lls) k s = Found x \<longleftrightarrow> reads_as ?A k s x"
    unfolding all_entries_layers [OF len(1)]
    by (rule lookup_layers_reads_as [OF _ sorted_layers [OF len(1) inv s]])
      (use inv es all_entries_layers [OF len(1)] in \<open>simp_all add: version_inv_def\<close>)
  moreover have "reads_as (all_entries lls') k s x \<longleftrightarrow> reads_as ?A k s x"
    unfolding new by (rule drops_invisible [OF es _ os bottom_plan [OF rep inv p]]) (use R(1) in \<open>auto simp: all_entries_def\<close>)
  ultimately show "lookup_layers (layers lls') k s = Found x \<longleftrightarrow> lookup_layers (layers lls) k s = Found x" by simp
qed

end
