(* ===== verification/DBImpl.thy ===== *)
theory DBImpl
  imports WriteBatch Wal Snapshot FlushMemTable CompactionVersion
begin

text \<open>
  \<^verbatim>\<open>src/db/db_impl.h\<close> and \<^verbatim>\<open>db_impl.cc\<close>: the database.  The state is the record of the members;
  the mutex, the condition variable and the thread are not part of it.  A definition is what runs
  between taking the mutex and releasing it, or what runs without it: \<open>DBImpl_write\<close> is one
  critical section, a flush and a compaction are split where they take and release the mutex, so
  that the operations of clients can come in between.  \<open>None\<close> stands for an operation that does
  not return: a writer that waits, or an endless loop.

  The file system is the environment that is threaded through.  \<open>nb\<close> gives the memtables their
  memory blocks and \<open>ls\<close> lists a directory.  Pointers that callers pass to receive a result are
  represented by whether they are null.
\<close>

subsection \<open>State\<close>

record ImmutableMemTable =
  im_memtable :: MemTable
  im_table_number :: u64
  im_last_sequence :: SequenceNumber

text \<open>\<open>db_snapshots_id\<close> is the identity of the shared tracker.\<close>

record DBImpl =
  db_options :: DBOptions
  db_directory :: string
  db_lock :: FileLock
  db_wal :: "WalWriter option"
  db_wal_number :: u64
  db_next_file_number :: u64
  db_manifest :: ManifestState
  db_current_version :: "Version option"
  db_last_sequence :: SequenceNumber
  db_snapshots :: SnapshotTracker
  db_snapshots_id :: nat
  db_memtable :: MemTable
  db_immutable :: "ImmutableMemTable option"
  db_shutting_down :: bool
  db_background_error :: Status

definition DBImpl_new :: "block_allocator \<Rightarrow> nat \<Rightarrow> DBImpl" where
  "DBImpl_new nb id1 =
     \<lparr>db_options = DBOptions_default, db_directory = [],
      db_lock = FileLock_default, db_wal = None, db_wal_number = 0, db_next_file_number = 1,
      db_manifest = ManifestState_new, db_current_version = None, db_last_sequence = 0,
      db_snapshots = SnapshotTracker_new, db_snapshots_id = id1, db_memtable = MemTable_new nb,
      db_immutable = None, db_shutting_down = False, db_background_error = success\<rparr>"

subsection \<open>The log in the environment\<close>

definition env_wal_open :: "string \<Rightarrow> Env \<Rightarrow> WalWriter result \<times> Env" where
  "env_wal_open path env =
     (case sys_call env of (answer, env) \<Rightarrow>
       case WalWriter_open answer path (env_files env) of (result, files) \<Rightarrow>
         (result, env\<lparr>env_files := files\<rparr>))"

definition env_wal_append :: "bytes \<Rightarrow> WalWriter \<Rightarrow> Env \<Rightarrow> Status \<times> WalWriter \<times> Env" where
  "env_wal_append payload w env =
     (let log = (case env_files env (ww_path w) of None \<Rightarrow> [] | Some log \<Rightarrow> log) in
      case WalWriter_append (env_io env) payload w log of (status, w, log, answers) \<Rightarrow>
        (status, w, env\<lparr>env_files := (env_files env)(ww_path w \<mapsto> log), env_io := answers\<rparr>))"

definition env_wal_sync :: "WalWriter \<Rightarrow> Env \<Rightarrow> Status \<times> WalWriter \<times> Env" where
  "env_wal_sync w env =
     (case WalWriter_sync (env_sync env) w of (status, w, answers) \<Rightarrow>
        (status, w, env\<lparr>env_sync := answers\<rparr>))"

subsection \<open>Writing\<close>

fun apply_operations :: "block_allocator \<Rightarrow> Operation list \<Rightarrow> SequenceNumber \<Rightarrow> MemTable \<Rightarrow> MemTable option" where
  "apply_operations nb [] sequence mt = Some mt"
| "apply_operations nb (operation # operations) sequence mt =
     Option.bind
       (case op_type operation of
          kPut \<Rightarrow> MemTable_add nb sequence kValue (op_key operation) (op_value operation) mt
        | kDelete \<Rightarrow> MemTable_add nb sequence kDeletion (op_key operation) [] mt)
       (apply_operations nb operations (sequence + 1))"

definition DBImpl_applyBatch :: "block_allocator \<Rightarrow> WriteBatch \<Rightarrow> SequenceNumber \<Rightarrow> DBImpl \<Rightarrow> DBImpl option" where
  "DBImpl_applyBatch nb batch first_sequence d =
     map_option (\<lambda>mt. d\<lparr>db_memtable := mt\<rparr>) (apply_operations nb batch first_sequence (db_memtable d))"

definition DBImpl_rotateMemTable :: "block_allocator \<Rightarrow> DBImpl \<Rightarrow> Env \<Rightarrow> Status \<times> DBImpl \<times> Env" where
  "DBImpl_rotateMemTable nb d env =
     (if db_next_file_number d > - 1 - 2
      then (ioError ''database file number space is exhausted'', d, env)
      else
        let table_number = db_next_file_number d;
            new_wal_number = db_next_file_number d + 1;
            new_memtable = MemTable_new nb
        in case env_wal_open (walFileName (db_directory d) new_wal_number) env of
          (Inl status, env) \<Rightarrow> (status, d, env)
        | (Inr new_wal, env) \<Rightarrow>
            (success,
             d\<lparr>db_next_file_number := db_next_file_number d + 2,
               db_immutable := Some \<lparr>im_memtable = db_memtable d, im_table_number = table_number,
                                     im_last_sequence = db_last_sequence d\<rparr>,
               db_memtable := new_memtable, db_wal := Some new_wal, db_wal_number := new_wal_number\<rparr>,
             env))"

text \<open>One turn of the loop; \<open>None\<close> when it waits, after which the writer tries again.\<close>

definition DBImpl_makeRoomForWrite ::
  "block_allocator \<Rightarrow> DBImpl \<Rightarrow> Env \<Rightarrow> (Status \<times> DBImpl \<times> Env) option" where
  "DBImpl_makeRoomForWrite nb d env =
     (if \<not> status_ok (db_background_error d) then Some (db_background_error d, d, env)
      else if MemTable_empty (db_memtable d) \<or>
              MemTable_memoryUsage (db_memtable d) < do_write_buffer_size (db_options d)
      then Some (success, d, env)
      else if db_immutable d = None then Some (DBImpl_rotateMemTable nb d env)
      else None)"

text \<open>\<^verbatim>\<open>wal_\<close> is null only before a database is open.\<close>

definition DBImpl_write ::
  "block_allocator \<Rightarrow> WriteOptions \<Rightarrow> WriteBatch \<Rightarrow> DBImpl \<Rightarrow> Env \<Rightarrow> (Status \<times> DBImpl \<times> Env) option" where
  "DBImpl_write nb options batch d env =
     (if WriteBatch_empty batch then Some (success, d, env)
      else case DBImpl_makeRoomForWrite nb d env of
        None \<Rightarrow> None
      | Some (status, d, env) \<Rightarrow>
          if \<not> status_ok status then Some (status, d, env)
          else
            let first_sequence = db_last_sequence d + 1 in
            case WriteBatchCodec_encode batch first_sequence of
              Inl status \<Rightarrow> Some (status, d, env)
            | Inr payload \<Rightarrow>
               (case db_wal d of
                  None \<Rightarrow> None
                | Some wal \<Rightarrow>
                   (case env_wal_append payload wal env of
                      (status, wal, env) \<Rightarrow>
                        let d = d\<lparr>db_wal := Some wal\<rparr> in
                        if \<not> status_ok status then Some (status, d, env)
                        else case (if wo_durability options = kSync then env_wal_sync wal env
                                   else (success, wal, env)) of
                          (status, wal, env) \<Rightarrow>
                            let d = d\<lparr>db_wal := Some wal\<rparr> in
                            if \<not> status_ok status then Some (status, d, env)
                            else map_option
                              (\<lambda>d. (success,
                                    d\<lparr>db_last_sequence := db_last_sequence d + of_nat (WriteBatch_count batch)\<rparr>,
                                    env))
                              (DBImpl_applyBatch nb batch first_sequence d))))"

subsection \<open>Reading\<close>

text \<open>The sequence number of the snapshot in the options, if there is one.\<close>

definition snapshot_sequence :: "ReadOptions \<Rightarrow> DBImpl \<Rightarrow> SequenceNumber option result" where
  "snapshot_sequence options d =
     (case ro_snapshot options of
        None \<Rightarrow> Inr None
      | Some snapshot \<Rightarrow>
          if sn_tracker snapshot \<noteq> db_snapshots_id d then Inl (invalidArgument ''invalid snapshot'')
          else Inr (Some (sn_sequence snapshot)))"

definition DBImpl_get ::
  "bool \<Rightarrow> ReadOptions \<Rightarrow> bytes \<Rightarrow> DBImpl \<Rightarrow> Env \<Rightarrow> (bytes result \<times> Env) option" where
  "DBImpl_get value_is_null options key d env =
     (if value_is_null then Some (Inl (invalidArgument ''value must not be null''), env)
      else case snapshot_sequence options d of
        Inl status \<Rightarrow> Some (Inl status, env)
      | Inr sequence \<Rightarrow>
          let visible_sequence = (case sequence of None \<Rightarrow> db_last_sequence d | Some s \<Rightarrow> s);
              not_found = notFound ''key does not exist''
          in case MemTable_get key visible_sequence (db_memtable d) of
            None \<Rightarrow> None
          | Some (Found value) \<Rightarrow> Some (Inr value, env)
          | Some Deleted \<Rightarrow> Some (Inl not_found, env)
          | Some Absent \<Rightarrow>
             (case (case db_immutable d of
                      None \<Rightarrow> Some Absent
                    | Some immutable \<Rightarrow> MemTable_get key visible_sequence (im_memtable immutable)) of
                None \<Rightarrow> None
              | Some (Found value) \<Rightarrow> Some (Inr value, env)
              | Some Deleted \<Rightarrow> Some (Inl not_found, env)
              | Some Absent \<Rightarrow>
                 (case db_current_version d of
                    None \<Rightarrow> None
                  | Some version \<Rightarrow>
                     (case Version_get options key visible_sequence version env of
                        (Inl status, env) \<Rightarrow> Some (Inl status, env)
                      | (Inr (Found value), env) \<Rightarrow> Some (Inr value, env)
                      | (Inr _, env) \<Rightarrow> Some (Inl not_found, env)))))"

definition SnapshotImpl_new :: "SequenceNumber \<Rightarrow> DBImpl \<Rightarrow> SnapshotImpl \<times> DBImpl" where
  "SnapshotImpl_new sequence d =
     (\<lparr>sn_sequence = sequence, sn_tracker = db_snapshots_id d\<rparr>,
      d\<lparr>db_snapshots := SnapshotTracker_add sequence (db_snapshots d)\<rparr>)"

definition SnapshotImpl_destroy :: "SnapshotImpl \<Rightarrow> DBImpl \<Rightarrow> DBImpl" where
  "SnapshotImpl_destroy snapshot d =
     d\<lparr>db_snapshots := SnapshotTracker_remove (sn_sequence snapshot) (db_snapshots d)\<rparr>"

definition DBImpl_newSnapshot :: "bool \<Rightarrow> DBImpl \<Rightarrow> SnapshotImpl result \<times> DBImpl" where
  "DBImpl_newSnapshot snapshot_is_null d =
     (if snapshot_is_null then (Inl (invalidArgument ''snapshot must not be null''), d)
      else case SnapshotImpl_new (db_last_sequence d) d of (snapshot, d) \<Rightarrow> (Inr snapshot, d))"

definition DBImpl_newIterator ::
  "bool \<Rightarrow> ReadOptions \<Rightarrow> DBImpl \<Rightarrow> Env \<Rightarrow> Input MergingIterator DBIterator result option" where
  "DBImpl_newIterator iterator_is_null options d env =
     (if iterator_is_null then Some (Inl (invalidArgument ''iterator must not be null''))
      else case snapshot_sequence options d of
        Inl status \<Rightarrow> Some (Inl status)
      | Inr sequence \<Rightarrow>
          let visible_sequence = (case sequence of None \<Rightarrow> db_last_sequence d | Some s \<Rightarrow> s) in
          case db_current_version d of
            None \<Rightarrow> None
          | Some version \<Rightarrow>
              let children = [MemInput (MemTable_newIterator (db_memtable d))];
                  children = children @ (case db_immutable d of
                      None \<Rightarrow> []
                    | Some immutable \<Rightarrow> [MemInput (MemTable_newIterator (im_memtable immutable))]);
                  children = children @
                    map (\<lambda>table. TableInput (SSTableReader_newIterator options (vt_reader table) env))
                      (concat (map (\<lambda>level. Version_level level version) [0..<kNumLevels]))
              in Some (Inr (DBIterator_new (MergingIterator_new children) visible_sequence)))"

subsection \<open>Recovery\<close>

definition DBImpl_loadVersion :: "DBImpl \<Rightarrow> Env \<Rightarrow> Status \<times> DBImpl \<times> Env" where
  "DBImpl_loadVersion d env =
     (case Version_open (db_directory d) (db_manifest d) env of
        (Inl status, env) \<Rightarrow> (status, d, env)
      | (Inr version, env) \<Rightarrow> (success, d\<lparr>db_current_version := Some version\<rparr>, env))"

text \<open>The loop over the records of one log, with the answers to its reads.\<close>

function recover_records ::
  "block_allocator \<Rightarrow> io_answer list \<Rightarrow> WalReader \<Rightarrow> DBImpl \<Rightarrow>
   (Status \<times> WalReader \<times> DBImpl \<times> io_answer list) option" where
  "recover_records nb answers reader d =
     (case WalReader_readNext answers reader of
        (Inl status, reader', answers') \<Rightarrow> Some (status, reader', d, answers')
      | (Inr kEnd, reader', answers') \<Rightarrow> Some (success, reader', d, answers')
      | (Inr (kRecord payload), reader', answers') \<Rightarrow>
         (case WriteBatchCodec_decode payload of
            Inl status \<Rightarrow> Some (status, reader', d, answers')
          | Inr (first_sequence, batch) \<Rightarrow>
              if first_sequence \<noteq> db_last_sequence d + 1
              then Some (corruption ''write batch sequence is not contiguous'', reader', d, answers')
              else case DBImpl_applyBatch nb batch first_sequence d of
                None \<Rightarrow> None
              | Some d' \<Rightarrow> recover_records nb answers' reader'
                  (d'\<lparr>db_last_sequence := db_last_sequence d' + of_nat (WriteBatch_count batch)\<rparr>)))"
  by pat_completeness auto
termination
  by (relation "measure (\<lambda>(nb, answers, r, d). length (wr_rest r))") (auto dest: readNext_record_shrinks)

declare recover_records.simps [simp del]

definition DBImpl_recoverWalFile ::
  "block_allocator \<Rightarrow> string \<Rightarrow> DBImpl \<Rightarrow> Env \<Rightarrow> (Status \<times> DBImpl \<times> Env) option" where
  "DBImpl_recoverWalFile nb path d env =
     (case sys_call env of (answer, env) \<Rightarrow>
        case WalReader_open answer path (env_files env) of
          Inl status \<Rightarrow> Some (status, d, env)
        | Inr reader \<Rightarrow>
           (case recover_records nb (env_io env) reader d of
              None \<Rightarrow> None
            | Some (status, reader, d, answers) \<Rightarrow>
                let env = env\<lparr>env_io := answers\<rparr> in
                if \<not> status_ok status then Some (status, d, env)
                else
                  let valid_bytes = wr_valid_bytes reader in
                  case sys_file_size path env of
                    (Inl error, env) \<Rightarrow> Some (filesystemError ''stat'' path error, d, env)
                  | (Inr file_size, env) \<Rightarrow>
                      if file_size > valid_bytes
                      then (case sys_truncate path valid_bytes env of
                              (Some error, env) \<Rightarrow> Some (filesystemError ''truncate'' path error, d, env)
                            | (None, env) \<Rightarrow> Some (success, d, env))
                      else Some (success, d, env)))"

fun recover_wals ::
  "block_allocator \<Rightarrow> u64 list \<Rightarrow> DBImpl \<Rightarrow> Env \<Rightarrow> (Status \<times> DBImpl \<times> Env) option" where
  "recover_wals nb [] d env = Some (success, d, env)"
| "recover_wals nb (number # rest) d env =
     (case DBImpl_recoverWalFile nb (walFileName (db_directory d) number) d env of
        None \<Rightarrow> None
      | Some (status, d, env) \<Rightarrow>
          if \<not> status_ok status then Some (status, d, env)
          else recover_wals nb rest (d\<lparr>db_wal_number := number\<rparr>) env)"

definition DBImpl_recoverWalFiles ::
  "block_allocator \<Rightarrow> u64 list \<Rightarrow> DBImpl \<Rightarrow> Env \<Rightarrow> (Status \<times> DBImpl \<times> Env) option" where
  "DBImpl_recoverWalFiles nb wal_numbers d env =
     (if ms_oldest_wal_number (db_manifest d) = 0
      then Some (corruption ''manifest has no live WAL number'', d, env)
      else
        let first = std_lower_bound (\<lambda>number. number < ms_oldest_wal_number (db_manifest d))
                      wal_numbers 0 (length wal_numbers)
        in if first = length wal_numbers \<or> wal_numbers ! first \<noteq> ms_oldest_wal_number (db_manifest d)
           then Some (corruption ''manifest references a missing WAL'', d, env)
           else case recover_wals nb (drop first wal_numbers)
                  (d\<lparr>db_last_sequence := ms_flushed_sequence (db_manifest d)\<rparr>) env of
             None \<Rightarrow> None
           | Some (status, d, env) \<Rightarrow>
               if \<not> status_ok status then Some (status, d, env)
               else case env_wal_open (walFileName (db_directory d) (db_wal_number d)) env of
                 (Inl status, env) \<Rightarrow> Some (status, d, env)
               | (Inr wal, env) \<Rightarrow> Some (success, d\<lparr>db_wal := Some wal\<rparr>, env))"

definition DBImpl_recoverDatabase ::
  "block_allocator \<Rightarrow> lister \<Rightarrow> DirectoryContents \<Rightarrow> DBImpl \<Rightarrow> Env \<Rightarrow> (Status \<times> DBImpl \<times> Env) option" where
  "DBImpl_recoverDatabase nb ls files d env =
     (case readManifest (manifestFileName (db_directory d)) env of
        (Inl status, env) \<Rightarrow> Some (status, d, env)
      | (Inr manifest, env) \<Rightarrow>
         (case DBImpl_loadVersion (d\<lparr>db_manifest := manifest\<rparr>) env of
            (status, d, env) \<Rightarrow>
              if \<not> status_ok status then Some (status, d, env)
              else case DBImpl_recoverWalFiles nb (dc_wal_numbers files) d env of
                None \<Rightarrow> None
              | Some (status, d, env) \<Rightarrow>
                  if \<not> status_ok status then Some (status, d, env)
                  else
                    let env = removeObsoleteWalFilesBestEffort ls (db_directory d)
                                (ms_oldest_wal_number (db_manifest d)) env;
                        env = removeObsoleteSSTableFilesBestEffort ls (db_directory d) (db_manifest d) env
                    in Some (success, d, env)))"

definition DBImpl_initializeNewDatabase ::
  "lister \<Rightarrow> DirectoryContents \<Rightarrow> DBImpl \<Rightarrow> Env \<Rightarrow> Status \<times> DBImpl \<times> Env" where
  "DBImpl_initializeNewDatabase ls files d env =
     (if dc_wal_numbers files \<noteq> [] \<or> dc_has_sstable files
      then (corruption ''database files exist without a manifest'', d, env)
      else
        let wal_number = db_next_file_number d;
            d = d\<lparr>db_next_file_number := db_next_file_number d + 1\<rparr>
        in case env_wal_open (walFileName (db_directory d) wal_number) env of
          (Inl status, env) \<Rightarrow> (status, d, env)
        | (Inr wal, env) \<Rightarrow>
            let d = d\<lparr>db_wal := Some wal, db_wal_number := wal_number,
                      db_manifest := (db_manifest d)\<lparr>ms_oldest_wal_number := wal_number\<rparr>\<rparr>
            in case writeManifest (manifestFileName (db_directory d))
                      (manifestTemporaryFileName (db_directory d)) (db_manifest d) env of
              (status, env) \<Rightarrow>
                if \<not> status_ok status then (status, d, env)
                else case DBImpl_loadVersion d env of
                  (status, d, env) \<Rightarrow>
                    if \<not> status_ok status then (status, d, env)
                    else (success, d,
                          removeObsoleteSSTableFilesBestEffort ls (db_directory d) (db_manifest d) env))"

text \<open>
  The answers of the calls on the directory and the lock are those of \<open>prepareDatabaseDirectory\<close>
  and \<open>acquireDatabaseLock\<close>; \<open>thread_answer\<close> is the message when no thread can be started.
\<close>

record OpenAnswers =
  oa_exists :: "errno + bool"
  oa_is_directory :: "errno + bool"
  oa_create :: "errno option"
  oa_fd :: int
  oa_flock :: "errno option"
  oa_thread :: "string option"

definition DBImpl_open ::
  "block_allocator \<Rightarrow> lister \<Rightarrow> nat \<Rightarrow> OpenAnswers \<Rightarrow> bool \<Rightarrow> DBOptions \<Rightarrow> string \<Rightarrow> Env \<Rightarrow>
   (DBImpl result \<times> Env) option" where
  "DBImpl_open nb ls id1 answers db_is_null options directory env =
     (if db_is_null then Some (Inl (invalidArgument ''db must not be null''), env)
      else if do_write_buffer_size options = 0
      then Some (Inl (invalidArgument ''write_buffer_size must be positive''), env)
      else
        let status = prepareDatabaseDirectory (oa_exists answers) (oa_is_directory answers)
                       (oa_create answers) (do_open_mode options) directory in
        if \<not> status_ok status then Some (Inl status, env)
        else case acquireDatabaseLock (oa_fd answers) (oa_flock answers) directory
                    (db_lock (DBImpl_new nb id1)) env of
          (status, lock, env) \<Rightarrow>
            if \<not> status_ok status then Some (Inl status, env)
            else
              let d = (DBImpl_new nb id1)\<lparr>db_lock := lock, db_options := options, db_directory := directory\<rparr> in
              case scanDatabaseDirectory ls directory env of
                (Inl status, env) \<Rightarrow> Some (Inl status, env)
              | (Inr files, env) \<Rightarrow>
                  if dc_maximum_number files = - 1
                  then Some (Inl (corruption ''database file number space is exhausted''), env)
                  else
                    let d = d\<lparr>db_next_file_number := dc_maximum_number files + 1\<rparr> in
                    case sys_exists (manifestFileName directory) env of
                      (Inl error, env) \<Rightarrow>
                        Some (Inl (filesystemError ''stat'' (manifestFileName directory) error), env)
                    | (Inr has_manifest, env) \<Rightarrow>
                       (case (if has_manifest then DBImpl_recoverDatabase nb ls files d env
                              else Some (DBImpl_initializeNewDatabase ls files d env)) of
                          None \<Rightarrow> None
                        | Some (status, d, env) \<Rightarrow>
                            if \<not> status_ok status then Some (Inl status, env)
                            else case oa_thread answers of
                              Some message \<Rightarrow>
                                Some (Inl (ioError (''start background flush thread: '' @ message)), env)
                            | None \<Rightarrow> Some (Inr d, env)))"

subsection \<open>The background thread\<close>

definition DBImpl_hasCompactionWork :: "DBImpl \<Rightarrow> bool" where
  "DBImpl_hasCompactionWork d =
     (case db_current_version d of None \<Rightarrow> False | Some version \<Rightarrow> needsCompaction version CompactionOptions_default)"

text \<open>A flush: building the table without the mutex, the candidates under it, \<dots>\<close>

definition flush_build ::
  "ImmutableMemTable \<Rightarrow> string \<Rightarrow> Env \<Rightarrow> ((TableMeta \<times> SSTableReader) result \<times> Env) option" where
  "flush_build immutable directory env =
     (let table_number = im_table_number immutable;
          temporary_table = sstableTemporaryFileName directory table_number;
          final_table = sstableFileName directory table_number
      in case buildLevel0Table (im_memtable immutable) temporary_table final_table builder_defaults env of
        None \<Rightarrow> None
      | Some (Inl status, env) \<Rightarrow> Some (Inl status, env)
      | Some (Inr meta, env) \<Rightarrow>
         (case SSTableReader_open final_table env of
            (Inl status, env) \<Rightarrow> Some (Inl status, removeFileBestEffort final_table env)
          | (Inr table_reader, env) \<Rightarrow>
              Some (Inr (\<lparr>tm_number = table_number, tm_file_size = sm_file_size meta,
                          tm_smallest_key = sm_smallest_key meta,
                          tm_largest_key = sm_largest_key meta\<rparr>, table_reader), env)))"

definition flush_prepare ::
  "SequenceNumber \<Rightarrow> TableMeta \<Rightarrow> SSTableReader \<Rightarrow> DBImpl \<Rightarrow> (ManifestState \<times> Version \<times> u64) option" where
  "flush_prepare flushed_sequence descriptor table_reader d =
     (let candidate = db_manifest d;
          candidate = candidate\<lparr>ms_flushed_sequence := flushed_sequence,
                                ms_oldest_wal_number := db_wal_number d,
                                ms_levels := (ms_levels candidate)
                                  [kLevel0 := descriptor # ms_levels candidate ! kLevel0]\<rparr>
      in map_option (\<lambda>version. (candidate, Version_withLevel0Table descriptor table_reader version, db_wal_number d))
           (db_current_version d))"

text \<open>\<dots> the manifest without it, \<dots>\<close>

definition flush_commit :: "u64 \<Rightarrow> ManifestState \<Rightarrow> string \<Rightarrow> Env \<Rightarrow> Status \<times> Env" where
  "flush_commit table_number candidate directory env =
     (case writeManifest (manifestFileName directory) (manifestTemporaryFileName directory) candidate env of
        (status, env) \<Rightarrow>
          if \<not> status_ok status
          then (status, removeFileBestEffort (sstableFileName directory table_number) env)
          else (success, env))"

text \<open>\<dots> the publication under it, and the removal of old logs.\<close>

definition flush_publish :: "ManifestState \<Rightarrow> Version \<Rightarrow> DBImpl \<Rightarrow> DBImpl" where
  "flush_publish candidate candidate_version d =
     d\<lparr>db_current_version := Some candidate_version, db_manifest := candidate, db_immutable := None\<rparr>"

definition DBImpl_flushImmutableMemTable ::
  "lister \<Rightarrow> DBImpl \<Rightarrow> Env \<Rightarrow> (Status \<times> DBImpl \<times> Env) option" where
  "DBImpl_flushImmutableMemTable ls d env =
     (case db_immutable d of
        None \<Rightarrow> None
      | Some immutable \<Rightarrow>
         (case flush_build immutable (db_directory d) env of
            None \<Rightarrow> None
          | Some (Inl status, env) \<Rightarrow> Some (status, d, env)
          | Some (Inr (descriptor, table_reader), env) \<Rightarrow>
             (case flush_prepare (im_last_sequence immutable) descriptor table_reader d of
                None \<Rightarrow> None
              | Some (candidate, candidate_version, live_wal_number) \<Rightarrow>
                 (case flush_commit (im_table_number immutable) candidate (db_directory d) env of
                    (status, env) \<Rightarrow>
                      if \<not> status_ok status then Some (status, d, env)
                      else Some (success, flush_publish candidate candidate_version d,
                                 removeObsoleteWalFilesBestEffort ls (db_directory d) live_wal_number env)))))"

text \<open>
  A compaction: the plan under the mutex, the tables without it but for the allocation of
  numbers, the candidates under it, \<dots>
\<close>

definition allocate_file_number :: "u64 allocator" where
  "allocate_file_number next_file_number =
     (if next_file_number = - 1
      then (Inl (ioError ''database file number space is exhausted''), next_file_number)
      else (Inr next_file_number, next_file_number + 1))"

definition compact_pick :: "DBImpl \<Rightarrow> CompactionPlan option" where
  "compact_pick d =
     pickCompaction (db_current_version d) (SnapshotTracker_oldest (db_last_sequence d) (db_snapshots d))
       CompactionOptions_default"

definition compact_prepare ::
  "CompactionPlan \<Rightarrow> CompactionOutput list \<Rightarrow> DBImpl \<Rightarrow> (ManifestState \<times> Version) option" where
  "compact_prepare plan outputs d =
     (let candidate = db_manifest d;
          levels = ms_levels candidate;
          levels = levels[cp_input_level plan := erase_range (cp_inputs plan) (levels ! cp_input_level plan)];
          target = erase_range (cp_overlaps plan) (levels ! outputLevel plan);
          output_metadata = map out_meta outputs;
          output_tables = map (\<lambda>c. \<lparr>vt_meta = out_meta c, vt_reader = out_reader c\<rparr>) outputs;
          target = insert_at (ir_begin (cp_overlaps plan)) output_metadata target;
          candidate = candidate\<lparr>ms_levels := levels[outputLevel plan := target]\<rparr>
      in map_option (\<lambda>version. (candidate, Version_withCompaction (cp_input_level plan) (cp_inputs plan)
             (cp_overlaps plan) output_tables version))
           (cp_input_version plan))"

text \<open>\<dots> the manifest without it, and the publication under it.\<close>

definition compact_commit :: "CompactionOutput list \<Rightarrow> ManifestState \<Rightarrow> string \<Rightarrow> Env \<Rightarrow> Status \<times> Env" where
  "compact_commit outputs candidate directory env =
     (case writeManifest (manifestFileName directory) (manifestTemporaryFileName directory) candidate env of
        (status, env) \<Rightarrow>
          if \<not> status_ok status
          then (status, fold (\<lambda>c. removeFileBestEffort (sstableFileName directory (tm_number (out_meta c)))) outputs env)
          else (success, env))"

definition compact_publish :: "ManifestState \<Rightarrow> Version \<Rightarrow> DBImpl \<Rightarrow> DBImpl" where
  "compact_publish candidate candidate_version d =
     d\<lparr>db_current_version := Some candidate_version, db_manifest := candidate\<rparr>"

definition DBImpl_compact ::
  "lister \<Rightarrow> Env \<Rightarrow> DBImpl \<Rightarrow> Env \<Rightarrow> (Status \<times> DBImpl \<times> Env) option" where
  "DBImpl_compact ls renv d env =
     (case compact_pick d of
        None \<Rightarrow> Some (success, d, env)
      | Some plan \<Rightarrow>
         (case buildCompactionTables plan (db_directory d) allocate_file_number CompactionOptions_default renv
                 (db_next_file_number d) env of
            None \<Rightarrow> None
          | Some (result, next_file_number, env) \<Rightarrow>
              let d = d\<lparr>db_next_file_number := next_file_number\<rparr> in
              case result of
                Inl status \<Rightarrow> Some (status, d, env)
              | Inr outputs \<Rightarrow>
                 (case compact_prepare plan outputs d of
                    None \<Rightarrow> None
                  | Some (candidate, candidate_version) \<Rightarrow>
                     (case compact_commit outputs candidate (db_directory d) env of
                        (status, env) \<Rightarrow>
                          if \<not> status_ok status then Some (status, d, env)
                          else let d = compact_publish candidate candidate_version d
                            in Some (success, d,
                                 removeObsoleteSSTableFilesBestEffort ls (db_directory d) (db_manifest d) env)))))"

text \<open>
  One turn of the loop of the background thread: \<open>None\<close> when it waits, otherwise whether it
  goes on.
\<close>

definition DBImpl_backgroundTurn ::
  "lister \<Rightarrow> Env \<Rightarrow> DBImpl \<Rightarrow> Env \<Rightarrow> (bool \<times> DBImpl \<times> Env) option" where
  "DBImpl_backgroundTurn ls renv d env =
     (if \<not> (db_shutting_down d \<or> db_immutable d \<noteq> None \<or> DBImpl_hasCompactionWork d) then None
      else if db_shutting_down d \<and> db_immutable d = None then Some (False, d, env)
      else
        let should_compact = (\<not> db_shutting_down d \<and> DBImpl_hasCompactionWork d) in
        case (if should_compact then DBImpl_compact ls renv d env else DBImpl_flushImmutableMemTable ls d env) of
          None \<Rightarrow> None
        | Some (status, d, env) \<Rightarrow>
            if \<not> status_ok status then Some (False, d\<lparr>db_background_error := status\<rparr>, env)
            else Some (\<not> (db_shutting_down d \<and> db_immutable d = None), d, env))"

definition DBImpl_shutdown :: "DBImpl \<Rightarrow> DBImpl" where
  "DBImpl_shutdown d = d\<lparr>db_shutting_down := True\<rparr>"

text \<open>
  The destructor: with the flag set the thread, which is waiting, makes its last turn; after an
  error it has ended before.
\<close>

definition DBImpl_destroy :: "lister \<Rightarrow> Env \<Rightarrow> DBImpl \<Rightarrow> Env \<Rightarrow> (DBImpl \<times> Env) option" where
  "DBImpl_destroy ls renv d env =
     (let d = DBImpl_shutdown d in
      if \<not> status_ok (db_background_error d) then Some (d, env)
      else map_option (\<lambda>(goes_on, d, env). (d, env)) (DBImpl_backgroundTurn ls renv d env))"

subsection \<open>The interface of \<^verbatim>\<open>db.cc\<close>\<close>

definition DB_open ::
  "block_allocator \<Rightarrow> lister \<Rightarrow> nat \<Rightarrow> OpenAnswers \<Rightarrow> bool \<Rightarrow> DBOptions \<Rightarrow> string \<Rightarrow> Env \<Rightarrow>
   (DBImpl result \<times> Env) option" where
  "DB_open nb ls id1 answers db_is_null options directory env =
     DBImpl_open nb ls id1 answers db_is_null options directory env"

definition DB_put ::
  "block_allocator \<Rightarrow> WriteOptions \<Rightarrow> bytes \<Rightarrow> bytes \<Rightarrow> DBImpl \<Rightarrow> Env \<Rightarrow> (Status \<times> DBImpl \<times> Env) option" where
  "DB_put nb options key value d env = DBImpl_write nb options (WriteBatch_put [] key value) d env"

definition DB_erase ::
  "block_allocator \<Rightarrow> WriteOptions \<Rightarrow> bytes \<Rightarrow> DBImpl \<Rightarrow> Env \<Rightarrow> (Status \<times> DBImpl \<times> Env) option" where
  "DB_erase nb options key d env = DBImpl_write nb options (WriteBatch_erase [] key) d env"

end
