(* ===== verification/CApi.thy ===== *)
theory CApi
  imports DBImpl
begin

text \<open>
  \<^verbatim>\<open>src/c_api.cc\<close>: the C interface.  A pointer is an option, \<open>None\<close> for null; a buffer is the bytes it
  points to, of which a size says how many belong to the slice.  The databases live in a store
  with the use counts of their shared pointers.  \<open>raised\<close> is the exception that the allocation of
  the \<^verbatim>\<open>try\<close> block throws, if any, and \<open>allocated\<close> whether \<^verbatim>\<open>malloc\<close> succeeds.  The outer \<open>None\<close>
  stands for a call that does not return or is undefined.
\<close>

subsection \<open>Handles\<close>

record lsm_db =
  ld_db :: nat

record lsm_reader =
  lr_db :: "nat option"
  lr_snapshot :: SnapshotImpl

record lsm_batch =
  lb_batch :: WriteBatch

record lsm_iterator =
  li_iterator :: "Input MergingIterator DBIterator option"

record lsm_status_t =
  ls_code :: nat
  ls_message :: "string option"

record CState =
  cs_last_error :: string
  cs_dbs :: "nat \<rightharpoonup> DBImpl"
  cs_uses :: "nat \<Rightarrow> nat"
  cs_next :: nat
  cs_env :: Env

datatype exn = StdException string | UnknownException

subsection \<open>Statuses\<close>

definition c_success :: lsm_status_t where
  "c_success = \<lparr>ls_code = 0, ls_message = None\<rparr>"

definition c_status :: "Status \<Rightarrow> CState \<Rightarrow> lsm_status_t \<times> CState" where
  "c_status value st =
     (if status_ok value then (c_success, st)
      else let st = st\<lparr>cs_last_error := toString value\<rparr>
        in (\<lparr>ls_code = codeValue (st_code value), ls_message = Some (cs_last_error st)\<rparr>, st))"

definition c_invalid :: "string \<Rightarrow> CState \<Rightarrow> lsm_status_t \<times> CState" where
  "c_invalid message st =
     (let st = st\<lparr>cs_last_error := message\<rparr>
      in (\<lparr>ls_code = codeValue kInvalidArgument, ls_message = Some (cs_last_error st)\<rparr>, st))"

definition c_exception :: "string \<Rightarrow> CState \<Rightarrow> lsm_status_t \<times> CState" where
  "c_exception what st =
     (let st = st\<lparr>cs_last_error := what\<rparr>
      in (\<lparr>ls_code = codeValue kIOError, ls_message = Some (cs_last_error st)\<rparr>, st))"

definition c_unknownException :: "CState \<Rightarrow> lsm_status_t \<times> CState" where
  "c_unknownException st =
     (let st = st\<lparr>cs_last_error := ''unknown lsmtree exception''\<rparr>
      in (\<lparr>ls_code = codeValue kIOError, ls_message = Some (cs_last_error st)\<rparr>, st))"

definition c_catch :: "exn \<Rightarrow> CState \<Rightarrow> lsm_status_t \<times> CState" where
  "c_catch e st = (case e of StdException what \<Rightarrow> c_exception what st | UnknownException \<Rightarrow> c_unknownException st)"

text \<open>
  The two outputs of a copy, the pointer and the size; \<open>None\<close> where they are not written.
\<close>

type_synonym c_bytes = "bytes option \<times> nat"

definition copySlice :: "bool \<Rightarrow> bytes \<Rightarrow> bool \<Rightarrow> CState \<Rightarrow> lsm_status_t \<times> c_bytes option \<times> CState" where
  "copySlice allocated data output_is_null st =
     (if output_is_null then (case c_invalid ''null output'' st of (s, st) \<Rightarrow> (s, None, st))
      else if data = [] then (c_success, Some (None, 0), st)
      else if \<not> allocated then
        (case c_exception ''std::bad_alloc'' st of (s, st) \<Rightarrow> (s, Some (None, length data), st))
      else (c_success, Some (Some data, length data), st))"

definition makeSlice :: "bytes option \<Rightarrow> nat \<Rightarrow> bytes option" where
  "makeSlice buffer size1 = (if size1 = 0 then Some [] else map_option (take size1) buffer)"

subsection \<open>Databases\<close>

definition lsm_db_open ::
  "block_allocator \<Rightarrow> lister \<Rightarrow> OpenAnswers \<Rightarrow> exn option \<Rightarrow> string option \<Rightarrow> bool \<Rightarrow> CState \<Rightarrow>
   (lsm_status_t \<times> lsm_db option \<times> CState) option" where
  "lsm_db_open nb ls answers raised directory db_is_null st =
     (case directory of
        None \<Rightarrow> (case c_invalid ''null open argument'' st of (s, st) \<Rightarrow> Some (s, None, st))
      | Some path \<Rightarrow>
          if db_is_null then (case c_invalid ''null open argument'' st of (s, st) \<Rightarrow> Some (s, None, st))
          else case raised of
            Some e \<Rightarrow> (case c_catch e st of (s, st) \<Rightarrow> Some (s, None, st))
          | None \<Rightarrow>
             (case DB_open nb ls (cs_next st) answers False DBOptions_default path (cs_env st) of
                None \<Rightarrow> None
              | Some (Inl result, env) \<Rightarrow>
                  (case c_status result (st\<lparr>cs_env := env\<rparr>) of (s, st) \<Rightarrow> Some (s, None, st))
              | Some (Inr opened, env) \<Rightarrow>
                  Some (c_success, Some \<lparr>ld_db = cs_next st\<rparr>,
                    st\<lparr>cs_env := env, cs_dbs := (cs_dbs st)(cs_next st \<mapsto> opened),
                       cs_uses := (cs_uses st)(cs_next st := 1), cs_next := cs_next st + 1\<rparr>)))"

text \<open>Giving up a shared pointer; the last one destroys the database.\<close>

definition release_db :: "lister \<Rightarrow> Env \<Rightarrow> nat \<Rightarrow> CState \<Rightarrow> CState option" where
  "release_db ls renv i st =
     (if cs_uses st i > 1 then Some (st\<lparr>cs_uses := (cs_uses st)(i := cs_uses st i - 1)\<rparr>)
      else case cs_dbs st i of
        None \<Rightarrow> None
      | Some d \<Rightarrow> map_option
          (\<lambda>(d, env). st\<lparr>cs_env := env, cs_dbs := (cs_dbs st)(i := None), cs_uses := (cs_uses st)(i := 0)\<rparr>)
          (DBImpl_destroy ls renv d (cs_env st)))"

definition lsm_db_close :: "lister \<Rightarrow> Env \<Rightarrow> lsm_db option \<Rightarrow> CState \<Rightarrow> CState option" where
  "lsm_db_close ls renv db st =
     (case db of None \<Rightarrow> Some st | Some h \<Rightarrow> release_db ls renv (ld_db h) st)"

definition lsm_db_write ::
  "block_allocator \<Rightarrow> exn option \<Rightarrow> lsm_db option \<Rightarrow> lsm_batch option \<Rightarrow> bool \<Rightarrow> CState \<Rightarrow>
   (lsm_status_t \<times> CState) option" where
  "lsm_db_write nb raised db batch sync st =
     (case (db, batch) of
        (Some h, Some b) \<Rightarrow>
         (case raised of
            Some e \<Rightarrow> Some (c_catch e st)
          | None \<Rightarrow>
             (case cs_dbs st (ld_db h) of
                None \<Rightarrow> None
              | Some d \<Rightarrow>
                 (case DBImpl_write nb \<lparr>wo_durability = (if sync then kSync else kAsync)\<rparr> (lb_batch b) d (cs_env st) of
                    None \<Rightarrow> None
                  | Some (result, d, env) \<Rightarrow>
                      Some (c_status result
                        (st\<lparr>cs_env := env, cs_dbs := (cs_dbs st)(ld_db h \<mapsto> d)\<rparr>)))))
      | _ \<Rightarrow> Some (c_invalid ''null write argument'' st))"

subsection \<open>Readers\<close>

definition lsm_reader_open ::
  "exn option \<Rightarrow> lsm_db option \<Rightarrow> bool \<Rightarrow> CState \<Rightarrow> (lsm_status_t \<times> lsm_reader option \<times> CState) option" where
  "lsm_reader_open raised db reader_is_null st =
     (case db of
        None \<Rightarrow> (case c_invalid ''null reader argument'' st of (s, st) \<Rightarrow> Some (s, None, st))
      | Some h \<Rightarrow>
          if reader_is_null then (case c_invalid ''null reader argument'' st of (s, st) \<Rightarrow> Some (s, None, st))
          else case raised of
            Some e \<Rightarrow> (case c_catch e st of (s, st) \<Rightarrow> Some (s, None, st))
          | None \<Rightarrow>
             (case cs_dbs st (ld_db h) of
                None \<Rightarrow> None
              | Some d \<Rightarrow>
                 (case DBImpl_newSnapshot False d of
                    (Inl result, d) \<Rightarrow> (case c_status result st of (s, st) \<Rightarrow> Some (s, None, st))
                  | (Inr snapshot, d) \<Rightarrow>
                      Some (c_success, Some \<lparr>lr_db = Some (ld_db h), lr_snapshot = snapshot\<rparr>,
                        st\<lparr>cs_dbs := (cs_dbs st)(ld_db h \<mapsto> d),
                           cs_uses := (cs_uses st)(ld_db h := cs_uses st (ld_db h) + 1)\<rparr>))))"

text \<open>The snapshot goes first, then the shared pointer, in the reverse order of the members.\<close>

definition lsm_reader_close :: "lister \<Rightarrow> Env \<Rightarrow> lsm_reader option \<Rightarrow> CState \<Rightarrow> CState option" where
  "lsm_reader_close ls renv reader st =
     (case reader of
        None \<Rightarrow> Some st
      | Some r \<Rightarrow>
         (case lr_db r of
            None \<Rightarrow> Some st
          | Some i \<Rightarrow>
             (case cs_dbs st i of
                None \<Rightarrow> None
              | Some d \<Rightarrow> release_db ls renv i
                  (st\<lparr>cs_dbs := (cs_dbs st)(i \<mapsto> SnapshotImpl_destroy (lr_snapshot r) d)\<rparr>))))"

text \<open>The status, the flag whether the key was found with the value, and the new state.\<close>

definition lsm_reader_get ::
  "bool \<Rightarrow> exn option \<Rightarrow> lsm_reader option \<Rightarrow> bytes option \<Rightarrow> nat \<Rightarrow> bool \<Rightarrow> CState \<Rightarrow>
   (lsm_status_t \<times> (bool \<times> c_bytes) option \<times> CState) option" where
  "lsm_reader_get allocated raised reader key key_size output_is_null st =
     (let invalid = (case c_invalid ''null get argument'' st of (s, st) \<Rightarrow> Some (s, None, st));
          unset = Some (False, None, 0) in
      case reader of
        None \<Rightarrow> invalid
      | Some r \<Rightarrow>
         (case lr_db r of
            None \<Rightarrow> invalid
          | Some i \<Rightarrow>
              if output_is_null \<or> (key = None \<and> key_size \<noteq> 0) then invalid
              else case raised of
                Some e \<Rightarrow> (case c_catch e st of (s, st) \<Rightarrow> Some (s, unset, st))
              | None \<Rightarrow>
                 (case (cs_dbs st i, makeSlice key key_size) of
                    (Some d, Some target) \<Rightarrow>
                     (case DBImpl_get False (ReadOptions_default\<lparr>ro_snapshot := Some (lr_snapshot r)\<rparr>) target d (cs_env st) of
                        None \<Rightarrow> None
                      | Some (Inl result, env) \<Rightarrow>
                          let st = st\<lparr>cs_env := env\<rparr> in
                          if isNotFound result then Some (c_success, unset, st)
                          else (case c_status result st of (s, st) \<Rightarrow> Some (s, unset, st))
                      | Some (Inr value, env) \<Rightarrow>
                         (case copySlice allocated value False (st\<lparr>cs_env := env\<rparr>) of
                            (s, output, st) \<Rightarrow> Some (s, map_option (Pair True) output, st)))
                  | _ \<Rightarrow> None)))"

definition lsm_reader_new_iterator ::
  "exn option \<Rightarrow> lsm_reader option \<Rightarrow> bool \<Rightarrow> CState \<Rightarrow> (lsm_status_t \<times> lsm_iterator option \<times> CState) option" where
  "lsm_reader_new_iterator raised reader iterator_is_null st =
     (let invalid = (case c_invalid ''null iterator argument'' st of (s, st) \<Rightarrow> Some (s, None, st)) in
      case reader of
        None \<Rightarrow> invalid
      | Some r \<Rightarrow>
         (case lr_db r of
            None \<Rightarrow> invalid
          | Some i \<Rightarrow>
              if iterator_is_null then invalid
              else case raised of
                Some e \<Rightarrow> (case c_catch e st of (s, st) \<Rightarrow> Some (s, None, st))
              | None \<Rightarrow>
                 (case cs_dbs st i of
                    None \<Rightarrow> None
                  | Some d \<Rightarrow>
                     (case DBImpl_newIterator False (ReadOptions_default\<lparr>ro_snapshot := Some (lr_snapshot r)\<rparr>) d (cs_env st) of
                        None \<Rightarrow> None
                      | Some (Inl result) \<Rightarrow> (case c_status result st of (s, st) \<Rightarrow> Some (s, None, st))
                      | Some (Inr iterator) \<Rightarrow> Some (c_success, Some \<lparr>li_iterator = Some iterator\<rparr>, st)))))"

subsection \<open>Iterators\<close>

definition lsm_iterator_valid :: "lsm_iterator option \<Rightarrow> bool" where
  "lsm_iterator_valid iterator =
     (case iterator of
        None \<Rightarrow> False
      | Some h \<Rightarrow> (case li_iterator h of None \<Rightarrow> False | Some it \<Rightarrow> DBIterator_valid merged_ops it))"

definition lsm_iterator_seek :: "bytes option \<Rightarrow> nat \<Rightarrow> lsm_iterator option \<Rightarrow> lsm_iterator option option" where
  "lsm_iterator_seek key key_size iterator =
     (case iterator of
        None \<Rightarrow> Some None
      | Some h \<Rightarrow>
         (case li_iterator h of
            None \<Rightarrow> Some (Some h)
          | Some it \<Rightarrow> Option.bind (makeSlice key key_size) (\<lambda>target.
              map_option (\<lambda>it. Some (h\<lparr>li_iterator := Some it\<rparr>)) (DBIterator_seek merged_ops target it))))"

definition lsm_iterator_next :: "lsm_iterator option \<Rightarrow> lsm_iterator option option" where
  "lsm_iterator_next iterator =
     (case iterator of
        None \<Rightarrow> Some None
      | Some h \<Rightarrow>
         (case li_iterator h of
            None \<Rightarrow> Some (Some h)
          | Some it \<Rightarrow> map_option (\<lambda>it. Some (h\<lparr>li_iterator := Some it\<rparr>)) (DBIterator_next merged_ops it)))"

definition lsm_iterator_key ::
  "bool \<Rightarrow> exn option \<Rightarrow> lsm_iterator option \<Rightarrow> bool \<Rightarrow> CState \<Rightarrow> lsm_status_t \<times> c_bytes option \<times> CState" where
  "lsm_iterator_key allocated raised iterator output_is_null st =
     (case (if lsm_iterator_valid iterator then Option.bind iterator li_iterator else None) of
        None \<Rightarrow> (case c_invalid ''invalid iterator'' st of (s, st) \<Rightarrow> (s, None, st))
      | Some it \<Rightarrow>
         (case raised of
            Some e \<Rightarrow> (case c_catch e st of (s, st) \<Rightarrow> (s, None, st))
          | None \<Rightarrow> copySlice allocated (DBIterator_key merged_ops it) output_is_null st))"

definition lsm_iterator_value ::
  "bool \<Rightarrow> exn option \<Rightarrow> lsm_iterator option \<Rightarrow> bool \<Rightarrow> CState \<Rightarrow> lsm_status_t \<times> c_bytes option \<times> CState" where
  "lsm_iterator_value allocated raised iterator output_is_null st =
     (case (if lsm_iterator_valid iterator then Option.bind iterator li_iterator else None) of
        None \<Rightarrow> (case c_invalid ''invalid iterator'' st of (s, st) \<Rightarrow> (s, None, st))
      | Some it \<Rightarrow>
         (case raised of
            Some e \<Rightarrow> (case c_catch e st of (s, st) \<Rightarrow> (s, None, st))
          | None \<Rightarrow> copySlice allocated (DBIterator_value merged_ops it) output_is_null st))"

definition lsm_iterator_status :: "lsm_iterator option \<Rightarrow> CState \<Rightarrow> lsm_status_t \<times> CState" where
  "lsm_iterator_status iterator st =
     (case Option.bind iterator li_iterator of
        None \<Rightarrow> c_invalid ''invalid iterator'' st
      | Some it \<Rightarrow> c_status (DBIterator_status merged_ops it) st)"

subsection \<open>Batches\<close>

definition lsm_batch_new :: "exn option \<Rightarrow> bool \<Rightarrow> CState \<Rightarrow> lsm_status_t \<times> lsm_batch option \<times> CState" where
  "lsm_batch_new raised batch_is_null st =
     (if batch_is_null then (case c_invalid ''null batch argument'' st of (s, st) \<Rightarrow> (s, None, st))
      else case raised of
        Some e \<Rightarrow> (case c_catch e st of (s, st) \<Rightarrow> (s, None, st))
      | None \<Rightarrow> (c_success, Some \<lparr>lb_batch = []\<rparr>, st))"

definition lsm_batch_clear :: "lsm_batch option \<Rightarrow> lsm_batch option" where
  "lsm_batch_clear batch = map_option (\<lambda>b. b\<lparr>lb_batch := WriteBatch_clear (lb_batch b)\<rparr>) batch"

definition lsm_batch_put ::
  "exn option \<Rightarrow> lsm_batch option \<Rightarrow> bytes option \<Rightarrow> nat \<Rightarrow> bytes option \<Rightarrow> nat \<Rightarrow> CState \<Rightarrow>
   lsm_status_t \<times> lsm_batch option \<times> CState" where
  "lsm_batch_put raised batch key key_size value value_size st =
     (case (batch, makeSlice key key_size, makeSlice value value_size) of
        (Some b, Some k, Some v) \<Rightarrow>
         (case raised of
            Some e \<Rightarrow> (case c_catch e st of (s, st) \<Rightarrow> (s, batch, st))
          | None \<Rightarrow> (c_success, Some (b\<lparr>lb_batch := WriteBatch_put (lb_batch b) k v\<rparr>), st))
      | _ \<Rightarrow> (case c_invalid ''null put argument'' st of (s, st) \<Rightarrow> (s, batch, st)))"

definition lsm_batch_erase ::
  "exn option \<Rightarrow> lsm_batch option \<Rightarrow> bytes option \<Rightarrow> nat \<Rightarrow> CState \<Rightarrow>
   lsm_status_t \<times> lsm_batch option \<times> CState" where
  "lsm_batch_erase raised batch key key_size st =
     (case (batch, makeSlice key key_size) of
        (Some b, Some k) \<Rightarrow>
         (case raised of
            Some e \<Rightarrow> (case c_catch e st of (s, st) \<Rightarrow> (s, batch, st))
          | None \<Rightarrow> (c_success, Some (b\<lparr>lb_batch := WriteBatch_erase (lb_batch b) k\<rparr>), st))
      | _ \<Rightarrow> (case c_invalid ''null erase argument'' st of (s, st) \<Rightarrow> (s, batch, st)))"

end
