(* ===== verification/DBStep.thy ===== *)
theory DBStep
  imports DBImpl
begin

text \<open>
  The database in motion.  \<open>db_step\<close> interleaves the operations of clients with the work of the
  background thread: every critical section and every stretch that runs without the mutex is one
  step, and each step may meet any answers of the operating system.  The stretches without the
  mutex touch files that no other thread writes.  The numbers of one compaction are taken in one
  step.  \<open>sys_inv\<close> is the invariant that connects the layers of the database with the history of
  the acknowledged writes.
\<close>

subsection \<open>Steps\<close>

text \<open>Where the background thread is in a flush or a compaction.\<close>

datatype Job =
    Idle
  | Stopped
  | FlushBuilt ImmutableMemTable TableMeta SSTableReader
  | FlushPrepared ImmutableMemTable ManifestState Version u64
  | FlushCommitted ManifestState Version u64
  | FlushCleaning u64
  | CompactPicked CompactionPlan
  | CompactBuilt CompactionPlan "CompactionOutput list"
  | CompactPrepared "CompactionOutput list" ManifestState Version
  | CompactCommitted ManifestState Version
  | CompactCleaning

record System =
  sy_db :: DBImpl
  sy_files :: fs
  sy_job :: Job

text \<open>\<open>Refused\<close> is a write that returned an error.\<close>

datatype event = Wrote WriteBatch | Refused WriteBatch | Acquired SequenceNumber | Released SequenceNumber | Silent

text \<open>
  Tables stay below four gigabytes: the memtable that is flushed and the tables that are compacted
  hold fewer bytes.
\<close>

definition flush_sized :: "ImmutableMemTable \<Rightarrow> bool" where
  "flush_sized im \<longleftrightarrow> (\<forall>es. memtable_rep (im_memtable im) es \<longrightarrow> entries_size es + 100 < 2 ^ 32)"

definition compact_sized :: "CompactionPlan \<Rightarrow> bool" where
  "compact_sized plan \<longleftrightarrow> (\<forall>v lls. cp_input_version plan = Some v \<longrightarrow> version_rep v lls \<longrightarrow>
     entries_size (merge_all (plan_lists plan lls)) + 100 < 2 ^ 32)"

definition background_failed :: "Status \<Rightarrow> System \<Rightarrow> System" where
  "background_failed status s = s\<lparr>sy_db := (sy_db s)\<lparr>db_background_error := status\<rparr>, sy_job := Stopped\<rparr>"

inductive db_step :: "block_allocator \<Rightarrow> lister \<Rightarrow> System \<Rightarrow> event \<Rightarrow> System \<Rightarrow> bool"
  for nb ls s where
  client_write: "env_files env = sy_files s \<Longrightarrow> \<forall>operation \<in> set batch. wf_op operation \<Longrightarrow>
    DBImpl_write nb options batch (sy_db s) env = Some (status, d, env') \<Longrightarrow>
    db_step nb ls s (if status_ok status then Wrote batch else Refused batch)
      (s\<lparr>sy_db := d, sy_files := env_files env'\<rparr>)"
| acquire: "DBImpl_newSnapshot False (sy_db s) = (Inr sn, d) \<Longrightarrow>
    db_step nb ls s (Acquired (sn_sequence sn)) (s\<lparr>sy_db := d\<rparr>)"
| release: "sn_tracker sn = db_snapshots_id (sy_db s) \<Longrightarrow>
    db_step nb ls s (Released (sn_sequence sn)) (s\<lparr>sy_db := SnapshotImpl_destroy sn (sy_db s)\<rparr>)"
| shutdown: "db_step nb ls s Silent (s\<lparr>sy_db := DBImpl_shutdown (sy_db s)\<rparr>)"
| flush_build: "sy_job s = Idle \<Longrightarrow> db_immutable (sy_db s) = Some im \<Longrightarrow> flush_sized im \<Longrightarrow>
    db_shutting_down (sy_db s) \<or> \<not> DBImpl_hasCompactionWork (sy_db s) \<Longrightarrow>
    env_files env = sy_files s \<Longrightarrow>
    flush_build im (db_directory (sy_db s)) env = Some (result, env') \<Longrightarrow>
    db_step nb ls s Silent
      (case result of
         Inl status \<Rightarrow> background_failed status (s\<lparr>sy_files := env_files env'\<rparr>)
       | Inr (descriptor, reader) \<Rightarrow>
           s\<lparr>sy_files := env_files env', sy_job := FlushBuilt im descriptor reader\<rparr>)"
| flush_prepare: "sy_job s = FlushBuilt im descriptor reader \<Longrightarrow>
    flush_prepare (im_last_sequence im) descriptor reader (sy_db s) = Some (candidate, version, wal) \<Longrightarrow>
    db_step nb ls s Silent (s\<lparr>sy_job := FlushPrepared im candidate version wal\<rparr>)"
| flush_commit: "sy_job s = FlushPrepared im candidate version wal \<Longrightarrow> env_files env = sy_files s \<Longrightarrow>
    flush_commit (im_table_number im) candidate (db_directory (sy_db s)) env = (status, env') \<Longrightarrow>
    db_step nb ls s Silent
      (if \<not> status_ok status then background_failed status (s\<lparr>sy_files := env_files env'\<rparr>)
       else s\<lparr>sy_files := env_files env', sy_job := FlushCommitted candidate version wal\<rparr>)"
| flush_publish: "sy_job s = FlushCommitted candidate version wal \<Longrightarrow>
    db_step nb ls s Silent (s\<lparr>sy_db := flush_publish candidate version (sy_db s), sy_job := FlushCleaning wal\<rparr>)"
| flush_clean: "sy_job s = FlushCleaning wal \<Longrightarrow> env_files env = sy_files s \<Longrightarrow>
    db_step nb ls s Silent
      (s\<lparr>sy_files := env_files (removeObsoleteWalFilesBestEffort ls (db_directory (sy_db s)) wal env), sy_job := Idle\<rparr>)"
| compact_pick: "sy_job s = Idle \<Longrightarrow> \<not> db_shutting_down (sy_db s) \<Longrightarrow> DBImpl_hasCompactionWork (sy_db s) \<Longrightarrow>
    compact_pick (sy_db s) = Some plan \<Longrightarrow>
    db_step nb ls s Silent (s\<lparr>sy_job := CompactPicked plan\<rparr>)"
| compact_build: "sy_job s = CompactPicked plan \<Longrightarrow> compact_sized plan \<Longrightarrow> quiet renv \<Longrightarrow> env_files env = sy_files s \<Longrightarrow>
    buildCompactionTables plan (db_directory (sy_db s)) allocate_file_number CompactionOptions_default renv
      (db_next_file_number (sy_db s)) env = Some (result, next, env') \<Longrightarrow>
    s' = s\<lparr>sy_db := (sy_db s)\<lparr>db_next_file_number := next\<rparr>, sy_files := env_files env'\<rparr> \<Longrightarrow>
    db_step nb ls s Silent
      (case result of
         Inl status \<Rightarrow> background_failed status s'
       | Inr outputs \<Rightarrow> s'\<lparr>sy_job := CompactBuilt plan outputs\<rparr>)"
| compact_prepare: "sy_job s = CompactBuilt plan outputs \<Longrightarrow>
    compact_prepare plan outputs (sy_db s) = Some (candidate, version) \<Longrightarrow>
    db_step nb ls s Silent (s\<lparr>sy_job := CompactPrepared outputs candidate version\<rparr>)"
| compact_commit: "sy_job s = CompactPrepared outputs candidate version \<Longrightarrow> env_files env = sy_files s \<Longrightarrow>
    compact_commit outputs candidate (db_directory (sy_db s)) env = (status, env') \<Longrightarrow>
    db_step nb ls s Silent
      (if \<not> status_ok status then background_failed status (s\<lparr>sy_files := env_files env'\<rparr>)
       else s\<lparr>sy_files := env_files env', sy_job := CompactCommitted candidate version\<rparr>)"
| compact_publish: "sy_job s = CompactCommitted candidate version \<Longrightarrow>
    db_step nb ls s Silent (s\<lparr>sy_db := compact_publish candidate version (sy_db s), sy_job := CompactCleaning\<rparr>)"
| compact_clean: "sy_job s = CompactCleaning \<Longrightarrow> env_files env = sy_files s \<Longrightarrow>
    db_step nb ls s Silent
      (s\<lparr>sy_files := env_files (removeObsoleteSSTableFilesBestEffort ls (db_directory (sy_db s))
           (db_manifest (sy_db s)) env), sy_job := Idle\<rparr>)"

text \<open>The acknowledged operations and the live snapshots after some events.\<close>

fun batch_of :: "event \<Rightarrow> Operation list" where
  "batch_of (Wrote batch) = batch"
| "batch_of _ = []"

definition acknowledged :: "event list \<Rightarrow> Operation list" where
  "acknowledged evs = concat (map batch_of evs)"

fun track :: "SequenceNumber multiset \<Rightarrow> event \<Rightarrow> SequenceNumber multiset" where
  "track m (Acquired q) = add_mset q m"
| "track m (Released q) = m - {#q#}"
| "track m _ = m"

definition live_snapshots :: "event list \<Rightarrow> SequenceNumber multiset" where
  "live_snapshots evs = foldl track {#} evs"

text \<open>A snapshot is released once: by the last handle to it.\<close>

inductive db_runs :: "block_allocator \<Rightarrow> lister \<Rightarrow> System \<Rightarrow> event list \<Rightarrow> System \<Rightarrow> bool"
  for nb ls s where
  start: "db_runs nb ls s [] s"
| step: "db_runs nb ls s evs t \<Longrightarrow> db_step nb ls t ev u \<Longrightarrow>
    (\<And>q. ev = Released q \<Longrightarrow> q \<in># live_snapshots evs) \<Longrightarrow> db_runs nb ls s (evs @ [ev]) u"

subsection \<open>The history of a database\<close>

fun number_ops :: "SequenceNumber \<Rightarrow> Operation list \<Rightarrow> mem_op list" where
  "number_ops s [] = []"
| "number_ops s (operation # operations) =
     (case op_type operation of
        kPut \<Rightarrow> (s, kValue, op_key operation, op_value operation)
      | kDelete \<Rightarrow> (s, kDeletion, op_key operation, [])) # number_ops (s + 1) operations"

lemma length_number_ops [simp]: "length (number_ops s ops) = length ops"
  by (induction ops arbitrary: s) simp_all

lemma number_ops_append:
  "number_ops s (ops @ rest) = number_ops s ops @ number_ops (s + of_nat (length ops)) rest"
  by (induction ops arbitrary: s) (simp_all add: algebra_simps)

lemma apply_operations_adds: "apply_operations nb ops s = memtable_adds nb (number_ops s ops)"
  by (induction ops arbitrary: s; rule ext) (simp_all split: OperationType.splits)

lemma valid_range_nat:
  assumes "hasValidSequenceRange s n"
  shows "0 < unat s" "0 < n" "unat s + n \<le> 2 ^ 56"
proof -
  have h: "s \<noteq> 0" "s \<le> kMaxSequenceNumber" "n \<noteq> 0" "n \<le> uint32_max"
    "(of_nat (n - 1) :: SequenceNumber) \<le> kMaxSequenceNumber - s"
    using assms by (auto simp: hasValidSequenceRange_def split: if_splits)
  show "0 < unat s" "0 < n" using h(1,3) by (simp_all add: unat_gt_0)
  have "unat (of_nat (n - 1) :: SequenceNumber) = n - 1" using h(4) by (intro unat_u64) (simp add: uint32_max_def)
  moreover have "unat (kMaxSequenceNumber - s) = unat kMaxSequenceNumber - unat s" by (rule unat_sub [OF h(2)])
  ultimately have "n - 1 \<le> unat kMaxSequenceNumber - unat s" using h(5) by (simp add: word_le_nat_alt)
  then show "unat s + n \<le> 2 ^ 56" using h(2,3) by (simp add: kMax_unat word_le_nat_alt)
qed

lemma number_ops_numbers:
  "unat s + length ops \<le> 2 ^ 56 \<Longrightarrow> map (\<lambda>op. unat (fst op)) (number_ops s ops) = [unat s..<unat s + length ops]"
proof (induction ops arbitrary: s)
  case (Cons op ops)
  have "unat (s + 1) = unat s + 1" using Cons.prems by (simp add: unat_plus_if')
  then have "map (\<lambda>op. unat (fst op)) (number_ops (s + 1) ops) = [Suc (unat s)..<Suc (unat s) + length ops]"
    using Cons.IH [of "s + 1"] Cons.prems by simp
  then show ?case by (simp add: upt_conv_Cons del: upt_Suc split: OperationType.splits)
qed simp

lemma number_ops_ok:
  assumes "batch_fits b s"
  shows "\<forall>op \<in> set (number_ops s b). ok_op op" "sorted_wrt (<) (map fst (number_ops s b))"
    and "\<forall>op \<in> set (number_ops s b). s \<le> fst op \<and> unat (fst op) < unat s + length b"
proof -
  have r: "unat s + length b \<le> 2 ^ 56" "0 < length b"
    and size: "sum_list (map op_size b) \<le> kMaxWriteBatchPayloadSize"
    using assms valid_range_nat by (auto simp: batch_fits_def)
  note n = number_ops_numbers [OF r(1)]
  have "sorted_wrt (<) (map (\<lambda>op. unat (fst op)) (number_ops s b))" unfolding n by simp
  then show "sorted_wrt (<) (map fst (number_ops s b))" by (simp add: sorted_wrt_map word_less_nat_alt)
  have range: "unat (fst op) \<in> {unat s..<unat s + length b}" if "op \<in> set (number_ops s b)" for op
  proof -
    have "unat (fst op) \<in> set (map (\<lambda>op. unat (fst op)) (number_ops s b))" using that by force
    then show ?thesis unfolding n by simp
  qed
  then show "\<forall>op \<in> set (number_ops s b). s \<le> fst op \<and> unat (fst op) < unat s + length b"
    by (auto simp: word_le_nat_alt)
  have sizes: "length (fst (snd (snd op))) + length (snd (snd (snd op))) \<le> sum_list (map op_size ops)"
    if "op \<in> set (number_ops q ops)" for op q ops
    using that by (induction ops arbitrary: q) (fastforce simp: op_size_def split: OperationType.splits)+
  show "\<forall>op \<in> set (number_ops s b). ok_op op"
  proof
    fix op assume op: "op \<in> set (number_ops s b)"
    have "unat (fst op) \<le> unat kMaxSequenceNumber" using range [OF op] r by (simp add: kMax_unat)
    moreover have "length (fst (snd (snd op))) + length (snd (snd (snd op))) \<le> 2 ^ 26"
      using sizes [OF op] size by (simp add: batch_consts)
    ultimately show "ok_op op" by (cases op) (simp add: ok_op_def word_le_nat_alt)
  qed
qed

subsection \<open>The invariant\<close>

text \<open>
  The entries of the layers: the memtable \<open>ms\<close>, the immutable one in \<open>ims\<close> if there is one, the
  levels \<open>lls\<close>.  \<open>holds\<close>: reads at or above \<open>low\<close> find in them what the history \<open>h\<close> says.
\<close>

definition db_rep :: "DBImpl \<Rightarrow> entry list \<Rightarrow> entry list list \<Rightarrow> entry list list list \<Rightarrow> bool" where
  "db_rep d ms ims lls \<longleftrightarrow> memtable_rep (db_memtable d) ms \<and>
     (case db_immutable d of
        None \<Rightarrow> ims = []
      | Some im \<Rightarrow> \<exists>es. ims = [es] \<and> memtable_rep (im_memtable im) es \<and> es \<noteq> []) \<and>
     (\<exists>v. db_current_version d = Some v \<and> version_rep v lls) \<and> version_inv lls \<and>
     newest_first (ms # ims @ layers lls)"

definition holds :: "mem_op list \<Rightarrow> SequenceNumber \<Rightarrow> SequenceNumber \<Rightarrow> entry list list \<Rightarrow> bool" where
  "holds h low last1 ls \<longleftrightarrow> (\<forall>l \<in> set ls. \<forall>e \<in> set l. entry_seq e \<le> last1) \<and>
     (\<forall>k s x. low \<le> s \<longrightarrow> (lookup_layers ls k s = Found x \<longleftrightarrow> history_get (rev h) k s = Found x))"

text \<open>
  The whole stack holds the whole history, and its lower parts hold the prefixes that they stand
  for: the tables what the manifest calls flushed, and with the immutable memtable what was written
  before it was rotated.
\<close>

definition stacked ::
  "Operation list \<Rightarrow> SequenceNumber \<Rightarrow> DBImpl \<Rightarrow> entry list \<Rightarrow> entry list list \<Rightarrow> entry list list list \<Rightarrow> bool" where
  "stacked ops low d ms ims lls \<longleftrightarrow>
     holds (number_ops 1 ops) low (db_last_sequence d) (ms # ims @ layers lls) \<and>
     (\<forall>im. db_immutable d = Some im \<longrightarrow> unat (im_last_sequence im) \<le> length ops \<and>
        holds (number_ops 1 (take (unat (im_last_sequence im)) ops)) low (im_last_sequence im) (ims @ layers lls)) \<and>
     (let q = ms_flushed_sequence (db_manifest d) in
      unat q \<le> length ops \<and> holds (number_ops 1 (take (unat q) ops)) low q (layers lls))"

definition snapshots_ok :: "SequenceNumber \<Rightarrow> SequenceNumber multiset \<Rightarrow> DBImpl \<Rightarrow> bool" where
  "snapshots_ok low m d \<longleftrightarrow> tracks (db_snapshots d) m \<and> low \<le> db_last_sequence d \<and>
     (\<forall>q \<in># m. low \<le> q \<and> q \<le> db_last_sequence d)"

text \<open>What the background thread carries from one step to the next.\<close>

definition flush_ready :: "Version \<Rightarrow> Version \<Rightarrow> entry list list \<Rightarrow> bool" where
  "flush_ready v version ims \<longleftrightarrow> (\<exists>es descriptor reader. ims = [es] \<and>
     table_rep \<lparr>vt_meta = descriptor, vt_reader = reader\<rparr> es \<and>
     version = Version_withLevel0Table descriptor reader v)"

definition plan_ready :: "SequenceNumber \<Rightarrow> CompactionPlan \<Rightarrow> Version \<Rightarrow> bool" where
  "plan_ready low plan v \<longleftrightarrow> (\<exists>oldest \<le> low. oldest < kMaxSequenceNumber \<and>
     pickCompaction (Some v) oldest CompactionOptions_default = Some plan)"

definition tables_ready :: "CompactionPlan \<Rightarrow> CompactionOutput list \<Rightarrow> Version \<Rightarrow> entry list list list \<Rightarrow> entry list list \<Rightarrow> bool" where
  "tables_ready plan outputs v lls ls \<longleftrightarrow> list_all2 table_rep (map output_table outputs) ls \<and> user_disjoint ls \<and>
     concat ls = kept (cp_oldest_snapshot plan) (base_for v (outputLevel plan)) [] kMaxSequenceNumber
       (merge_all (plan_lists plan lls))"

definition compact_ready :: "SequenceNumber \<Rightarrow> Version \<Rightarrow> Version \<Rightarrow> entry list list list \<Rightarrow> bool" where
  "compact_ready low v version lls \<longleftrightarrow> (\<exists>plan outputs ls. plan_ready low plan v \<and>
     tables_ready plan outputs v lls ls \<and>
     version = Version_withCompaction (cp_input_level plan) (cp_inputs plan) (cp_overlaps plan)
       (map output_table outputs) v)"

fun job_ok :: "SequenceNumber \<Rightarrow> Version \<Rightarrow> DBImpl \<Rightarrow> entry list list \<Rightarrow> entry list list list \<Rightarrow> Job \<Rightarrow> bool" where
  "job_ok low v d ims lls (FlushBuilt im descriptor reader) \<longleftrightarrow> db_immutable d = Some im \<and>
     (\<exists>es. ims = [es] \<and> table_rep \<lparr>vt_meta = descriptor, vt_reader = reader\<rparr> es)"
| "job_ok low v d ims lls (FlushPrepared im candidate version wal) \<longleftrightarrow>
     db_immutable d = Some im \<and> flush_ready v version ims \<and> ms_flushed_sequence candidate = im_last_sequence im"
| "job_ok low v d ims lls (FlushCommitted candidate version wal) \<longleftrightarrow> flush_ready v version ims \<and>
     (\<exists>im. db_immutable d = Some im \<and> ms_flushed_sequence candidate = im_last_sequence im)"
| "job_ok low v d ims lls (CompactPicked plan) \<longleftrightarrow> plan_ready low plan v"
| "job_ok low v d ims lls (CompactBuilt plan outputs) \<longleftrightarrow> plan_ready low plan v \<and> (\<exists>ls. tables_ready plan outputs v lls ls)"
| "job_ok low v d ims lls (CompactPrepared outputs candidate version) \<longleftrightarrow> compact_ready low v version lls \<and>
     ms_flushed_sequence candidate = ms_flushed_sequence (db_manifest d)"
| "job_ok low v d ims lls (CompactCommitted candidate version) \<longleftrightarrow> compact_ready low v version lls \<and>
     ms_flushed_sequence candidate = ms_flushed_sequence (db_manifest d)"
| "job_ok low v d ims lls _ \<longleftrightarrow> True"

definition sys_inv :: "Operation list \<Rightarrow> SequenceNumber multiset \<Rightarrow> System \<Rightarrow> bool" where
  "sys_inv ops m s \<longleftrightarrow> (\<exists>low ms ims lls v. db_rep (sy_db s) ms ims lls \<and> db_current_version (sy_db s) = Some v \<and>
     stacked ops low (sy_db s) ms ims lls \<and> snapshots_ok low m (sy_db s) \<and> job_ok low v (sy_db s) ims lls (sy_job s) \<and>
     unat (db_last_sequence (sy_db s)) = length ops \<and> length ops + 1 < 2 ^ 56)"

subsection \<open>Writes\<close>

lemma env_wal_open_Inl: "env_wal_open p env = (Inl status, env') \<Longrightarrow> env_files env' = env_files env"
  using call_files [of env] by (auto simp: env_wal_open_def WalWriter_open_def split: prod.splits option.splits)

lemma makeRoom_cases:
  assumes "DBImpl_makeRoomForWrite nb d env = Some (status, d', env')"
  obtains (room) "d' = d" "env_files env' = env_files env"
  | (rotated) wal where "status_ok status" "db_immutable d = None" "\<not> MemTable_empty (db_memtable d)"
      "db_next_file_number d \<le> - 1 - 2"
      "env_wal_open (walFileName (db_directory d) (db_next_file_number d + 1)) env = (Inr wal, env')"
      "d' = d\<lparr>db_next_file_number := db_next_file_number d + 2,
               db_immutable := Some \<lparr>im_memtable = db_memtable d, im_table_number = db_next_file_number d,
                                     im_last_sequence = db_last_sequence d\<rparr>,
               db_memtable := MemTable_new nb, db_wal := Some wal, db_wal_number := db_next_file_number d + 1\<rparr>"
      "\<not> MemTable_memoryUsage (db_memtable d) < do_write_buffer_size (db_options d)"
proof -
  let ?n = "db_next_file_number d"
  obtain r env1 where w: "env_wal_open (walFileName (db_directory d) (?n + 1)) env = (r, env1)" by fastforce
  consider "\<not> status_ok (db_background_error d)"
    | "MemTable_empty (db_memtable d) \<or> MemTable_memoryUsage (db_memtable d) < do_write_buffer_size (db_options d)"
      "status_ok (db_background_error d)"
    | "status_ok (db_background_error d)" "\<not> MemTable_empty (db_memtable d)"
      "\<not> MemTable_memoryUsage (db_memtable d) < do_write_buffer_size (db_options d)" by blast
  then show ?thesis
  proof cases
    case 3
    then have im: "db_immutable d = None" and rot: "DBImpl_rotateMemTable nb d env = (status, d', env')"
      using assms by (simp_all add: DBImpl_makeRoomForWrite_def split: if_splits)
    show ?thesis
    proof (cases "?n > - 1 - 2")
      case True
      then show ?thesis using rot by (intro room) (simp_all add: DBImpl_rotateMemTable_def)
    next
      case n: False
      show ?thesis
      proof (cases r)
        case (Inl st)
        then show ?thesis
          using rot w n env_wal_open_Inl [OF w [unfolded Inl]] by (intro room) (simp_all add: DBImpl_rotateMemTable_def Let_def)
      next
        case (Inr wal)
        have "?n \<le> - 1 - 2" using n by simp
        then show ?thesis
          using rot w n 3 im Inr by (intro rotated [of wal]) (simp_all add: DBImpl_rotateMemTable_def Let_def)
      qed
    qed
  qed (use assms room in \<open>simp_all add: DBImpl_makeRoomForWrite_def\<close>)
qed

lemma write_cases:
  assumes "DBImpl_write nb options batch d env = Some (status, d', env')"
  obtains (empty) "batch = []" "status_ok status" "d' = d" "env' = env"
  | (room) "\<not> status_ok status" "DBImpl_makeRoomForWrite nb d env = Some (status, d', env')"
  | (unfit) st1 where "\<not> status_ok status" "DBImpl_makeRoomForWrite nb d env = Some (st1, d', env')" "status_ok st1"
  | (unlogged) st1 d1 env1 wal wal2 where "DBImpl_makeRoomForWrite nb d env = Some (st1, d1, env1)" "status_ok st1"
      "db_wal d1 = Some wal" "batch_fits batch (db_last_sequence d1 + 1)"
      "env_wal_append (batch_payload batch (db_last_sequence d1 + 1)) wal env1 = (status, wal2, env')"
      "\<not> status_ok status" "d' = d1\<lparr>db_wal := Some wal2\<rparr>"
  | (unsynced) st1 d1 env1 wal wal1 st2 wal2 env2 where "DBImpl_makeRoomForWrite nb d env = Some (st1, d1, env1)" "status_ok st1"
      "db_wal d1 = Some wal" "batch_fits batch (db_last_sequence d1 + 1)"
      "env_wal_append (batch_payload batch (db_last_sequence d1 + 1)) wal env1 = (st2, wal1, env2)" "status_ok st2"
      "wo_durability options = kSync" "env_wal_sync wal1 env2 = (status, wal2, env')"
      "\<not> status_ok status" "d' = d1\<lparr>db_wal := Some wal2\<rparr>"
  | (applied) st1 d1 env1 wal wal1 st2 wal2 env2 st3 mt where "DBImpl_makeRoomForWrite nb d env = Some (st1, d1, env1)" "status_ok st1"
      "db_wal d1 = Some wal" "batch_fits batch (db_last_sequence d1 + 1)" "status_ok status"
      "env_wal_append (batch_payload batch (db_last_sequence d1 + 1)) wal env1 = (st2, wal1, env2)" "status_ok st2"
      "(if wo_durability options = kSync then env_wal_sync wal1 env2 else (success, wal1, env2)) = (st3, wal2, env')" "status_ok st3"
      "memtable_adds nb (number_ops (db_last_sequence d1 + 1) batch) (db_memtable d1) = Some mt"
      "d' = d1\<lparr>db_wal := Some wal2, db_memtable := mt,
                db_last_sequence := db_last_sequence d1 + of_nat (length batch)\<rparr>"
proof (cases "batch = []")
  case True
  then have "status_ok status" "d' = d" "env' = env" using assms by (auto simp: DBImpl_write_def WriteBatch_empty_def)
  then show ?thesis by (rule empty [OF True])
next
  case False
  obtain st1 d1 env1 where m: "DBImpl_makeRoomForWrite nb d env = Some (st1, d1, env1)"
    using assms False by (auto simp: DBImpl_write_def WriteBatch_empty_def split: option.splits)
  show ?thesis
  proof (cases "status_ok st1 \<and> batch_fits batch (db_last_sequence d1 + 1)")
    case False
    have "\<not> status_ok status \<and> (status, d', env') = (st1, d1, env1) \<or>
        \<not> status_ok status \<and> d' = d1 \<and> env' = env1 \<and> status_ok st1"
      using assms m \<open>batch \<noteq> []\<close> False encode_batch_cases [of batch "db_last_sequence d1 + 1"]
      by (auto simp: DBImpl_write_def WriteBatch_empty_def split: if_splits)
    then show ?thesis using m room unfit by blast
  next
    case True
    then have e: "WriteBatchCodec_encode batch (db_last_sequence d1 + 1) = Inr (batch_payload batch (db_last_sequence d1 + 1))"
      by (simp add: encode_batch_Inr)
    obtain wal where w: "db_wal d1 = Some wal"
      using assms m \<open>batch \<noteq> []\<close> True e by (cases "db_wal d1") (auto simp: DBImpl_write_def WriteBatch_empty_def Let_def)
    obtain st2 wal1 env2 where a: "env_wal_append (batch_payload batch (db_last_sequence d1 + 1)) wal env1 = (st2, wal1, env2)"
      by (rule prod_cases3)
    obtain st3 wal2 env3 where y: "(if wo_durability options = kSync then env_wal_sync wal1 env2 else (success, wal1, env2)) = (st3, wal2, env3)"
      by (rule prod_cases3)
    have run: "Some (status, d', env') =
      (if \<not> status_ok st2 then Some (st2, d1\<lparr>db_wal := Some wal1\<rparr>, env2)
       else if \<not> status_ok st3 then Some (st3, d1\<lparr>db_wal := Some wal2\<rparr>, env3)
       else map_option (\<lambda>mt. (success, d1\<lparr>db_wal := Some wal2, db_memtable := mt,
                db_last_sequence := db_last_sequence d1 + of_nat (length batch)\<rparr>, env3))
          (memtable_adds nb (number_ops (db_last_sequence d1 + 1) batch) (db_memtable d1)))"
      using assms m \<open>batch \<noteq> []\<close> True e w a y
      by (cases "wo_durability options = kSync"; cases "status_ok st2"; cases "status_ok st3")
        (auto simp: DBImpl_write_def WriteBatch_empty_def DBImpl_applyBatch_def apply_operations_adds option.map_comp
          comp_def WriteBatch_count_def Let_def)
    consider "\<not> status_ok st2" | "status_ok st2" "\<not> status_ok st3" | "status_ok st2" "status_ok st3" by blast
    then show ?thesis
    proof cases
      case 1
      then show ?thesis using run a True by (intro unlogged [OF m _ w]) simp_all
    next
      case 2
      then have "wo_durability options = kSync" using y by (auto split: if_splits)
      then show ?thesis using 2 run y True by (intro unsynced [OF m _ w _ a]) simp_all
    next
      case 3
      then obtain mt where mt: "memtable_adds nb (number_ops (db_last_sequence d1 + 1) batch) (db_memtable d1) = Some mt"
        using run [symmetric] by auto
      then have "env' = env3" using 3 run by simp
      then show ?thesis using 3 run mt y True by (intro applied [OF m _ w _ _ a _ _ _ mt, of st3 wal2]) simp_all
    qed
  qed
qed

text \<open>Rotating moves the memtable one layer down; nothing else is new.\<close>

lemma db_rep_wal [simp]: "db_rep (d\<lparr>db_wal := w\<rparr>) = db_rep d"
  by (intro ext) (simp add: db_rep_def)

lemma db_repD:
  assumes "db_rep d ms ims lls"
  shows "\<forall>l \<in> set (ms # ims @ layers lls). sorted_entries l" and "newest_first (ms # ims @ layers lls)"
    and "version_inv lls" and "\<exists>v. db_current_version d = Some v \<and> version_rep v lls" and "memtable_rep (db_memtable d) ms"
proof -
  obtain v where v: "version_rep v lls" "version_inv lls" using assms by (auto simp: db_rep_def)
  have mem: "sorted_entries es" if "memtable_rep mt es" for mt es
    using that list_rep_props(5) by (auto simp: memtable_rep_def)
  have "\<forall>l \<in> set (layers lls). sorted_entries l"
    using sorted_layers [OF _ v(2) version_sorted [OF v(1)]] v(1) by (simp add: version_rep_def)
  then show "\<forall>l \<in> set (ms # ims @ layers lls). sorted_entries l"
    using assms mem by (auto simp: db_rep_def split: option.splits)
qed (use assms in \<open>simp_all add: db_rep_def\<close>)

lemma newest_first_Nil [simp]: "newest_first ([] # ls) \<longleftrightarrow> newest_first ls"
  by (auto simp: newest_first_def newer_def)

lemma lookup_in_Nil [simp]: "lookup_in [] k s = Absent"
  by (simp add: lookup_in_def)

lemma rotate_inv:
  assumes "good_new nb" "db_rep d ms ims lls" "db_immutable d = None" "\<not> MemTable_empty (db_memtable d)"
    and "d' = d\<lparr>db_next_file_number := n,
               db_immutable := Some \<lparr>im_memtable = db_memtable d, im_table_number = t, im_last_sequence = q\<rparr>,
               db_memtable := MemTable_new nb, db_wal := w, db_wal_number := wn\<rparr>"
  shows "db_rep d' [] [ms] lls" and "ims = []"
proof -
  show i: "ims = []" using assms(2,3) by (simp add: db_rep_def)
  have "ms \<noteq> []" using assms(2,4) by (auto simp: db_rep_def memtable_rep_def MemTable_empty_def)
  then show "db_rep d' [] [ms] lls"
    using assms(2,5) i memtable_new_rep [OF assms(1)] by (simp add: db_rep_def)
qed

lemma lookup_added:
  assumes good: "good_new nb" and s: "sorted_entries ms" "sorted_entries ms'"
    and new: "\<forall>op \<in> set new. ok_op op" "sorted_wrt (<) (map fst new)" "set ms' = set ms \<union> op_entry ` set new"
    and later: "\<forall>op \<in> set new. \<forall>e \<in> set ms. entry_seq e < fst op"
  shows "lookup_in ms' k q = (case history_get (rev new) k q of Absent \<Rightarrow> lookup_in ms k q | r \<Rightarrow> r)"
proof -
  obtain mt es where es: "memtable_rep mt es" "set es = op_entry ` set new" using history_rep [OF good new(1,2)] by blast
  have sorted: "sorted_entries es" using es(1) list_rep_props(5) by (auto simp: memtable_rep_def)
  have "newest_first [es, ms]"
    using es(2) later new(1) ok_op_entry(3) by (auto simp: newest_first_def newer_def)
  from lookup_layers_merged [OF this _ s(2), of k q] have "lookup_in ms' k q = lookup_layers [es, ms] k q"
    using sorted s(1) es(2) new(3) by (simp add: Un_commute)
  then show ?thesis using lookup_history [OF sorted es(2) new(1,2), of k q] by (simp split: LookupResult.splits)
qed

lemma history_get_append:
  "history_get (new @ old) k q = (case history_get new k q of Absent \<Rightarrow> history_get old k q | r \<Rightarrow> r)"
  by (induction new k q rule: history_get.induct) (auto split: ValueType.splits)

lemma newest_first_Cons: "newest_first (l # ls) \<longleftrightarrow> (\<forall>m \<in> set ls. newer l m) \<and> newest_first ls"
  by (simp add: newest_first_def)

text \<open>Applying a batch whose first number is the next one.\<close>

lemma apply_inv:
  assumes good: "good_new nb" and rep: "db_rep d ms ims lls" and q: "db_last_sequence d = q"
    and h: "holds h low q (ms # ims @ layers lls)" and fits: "batch_fits batch (q + 1)"
    and adds: "memtable_adds nb (number_ops (q + 1) batch) (db_memtable d) = Some mt"
    and d': "d' = d\<lparr>db_wal := w, db_memtable := mt, db_last_sequence := q + of_nat (length batch)\<rparr>"
  shows "\<exists>ms'. db_rep d' ms' ims lls \<and>
    holds (h @ number_ops (q + 1) batch) low (q + of_nat (length batch)) (ms' # ims @ layers lls)"
    and "unat (q + of_nat (length batch)) = unat q + length batch"
proof -
  let ?new = "number_ops (q + 1) batch" and ?last = "q + of_nat (length batch)"
  have r: "0 < unat (q + 1)" "unat (q + 1) + length batch \<le> 2 ^ 56"
    using fits valid_range_nat by (auto simp: batch_fits_def)
  moreover have "unat q < 2 ^ 64" using unsigned_less [of q] by simp
  ultimately have q1: "unat (q + 1) = unat q + 1" by (simp add: unat_plus_if' split: if_splits)
  show last: "unat ?last = unat q + length batch"
    using r(2) q1 by (simp add: unat_plus_if' unat_u64)
  note ok = number_ops_ok [OF fits]
  have seqs: "unat q < unat (fst op) \<and> unat (fst op) \<le> unat ?last" if "op \<in> set ?new" for op
    using ok(3) that q1 last by (fastforce simp: word_le_nat_alt)
  have old: "\<forall>l \<in> set (ms # ims @ layers lls). \<forall>e \<in> set l. unat (entry_seq e) \<le> unat q"
    using h by (simp add: holds_def word_le_nat_alt)
  have later: "\<forall>op \<in> set ?new. \<forall>e \<in> set l. entry_seq e < fst op" if "l \<in> set (ms # ims @ layers lls)" for l
    using old that seqs by (fastforce simp: word_less_nat_alt)
  obtain ms' where m: "memtable_rep mt ms'" "set ms' = set ms \<union> op_entry ` set ?new"
    using memtable_adds_rep [OF good db_repD(5) [OF rep] ok(1,2) later] adds by auto
  have entry: "entry_seq (op_entry op) = fst op" if "op \<in> set ?new" for op using ok(1) that ok_op_entry(3) by blast
  have "newer ms' l" if l: "l \<in> set (ims @ layers lls)" for l
  proof -
    have "newer ms l" using db_repD(2) [OF rep] l by (simp add: newest_first_Cons)
    then show ?thesis using later [of l] l m(2) entry by (auto simp: newer_def)
  qed
  then have rep': "db_rep d' ms' ims lls"
    using rep m(1) unfolding d' by (simp add: db_rep_def newest_first_Cons)
  have "\<forall>l \<in> set (ms' # ims @ layers lls). \<forall>e \<in> set l. entry_seq e \<le> ?last"
    using old seqs entry m(2) last by (fastforce simp: word_le_nat_alt)
  moreover have "lookup_layers (ms' # ims @ layers lls) k p =
      (case history_get (rev ?new) k p of Absent \<Rightarrow> lookup_layers (ms # ims @ layers lls) k p | r \<Rightarrow> r)" for k p
    using lookup_added [OF good _ _ ok(1,2) m(2) later] db_repD(1) [OF rep] db_repD(1) [OF rep']
    by (simp split: LookupResult.splits)
  ultimately have "holds (h @ ?new) low ?last (ms' # ims @ layers lls)"
    using h unfolding holds_def by (simp add: history_get_append split: LookupResult.splits)
  with rep' show "\<exists>ms'. db_rep d' ms' ims lls \<and> holds (h @ ?new) low ?last (ms' # ims @ layers lls)" by blast
qed

lemma job_ok_cong:
  "db_immutable d' = db_immutable d \<Longrightarrow> db_manifest d' = db_manifest d \<Longrightarrow>
   job_ok low v d' ims lls job = job_ok low v d ims lls job"
  by (cases job) simp_all

lemma job_ok_rotated:
  "job_ok low v d [] lls job \<Longrightarrow> db_immutable d = None \<Longrightarrow> db_manifest d' = db_manifest d \<Longrightarrow> job_ok low v d' ims lls job"
  by (cases job) (auto simp: flush_ready_def)

lemma stacked_cong:
  "db_last_sequence d' = db_last_sequence d \<Longrightarrow> db_immutable d' = db_immutable d \<Longrightarrow> db_manifest d' = db_manifest d \<Longrightarrow>
   stacked ops low d' ms ims lls = stacked ops low d ms ims lls"
  by (simp add: stacked_def)

lemma stackedD: "stacked ops low d ms ims lls \<Longrightarrow> holds (number_ops 1 ops) low (db_last_sequence d) (ms # ims @ layers lls)"
  by (simp add: stacked_def)

lemma room_inv:
  assumes good: "good_new nb" and rep: "db_rep d ms ims lls" and r: "DBImpl_makeRoomForWrite nb d env = Some (status, d1, env1)"
    and h: "stacked ops low d ms ims lls" and job: "job_ok low v d ims lls job" and len: "unat (db_last_sequence d) = length ops"
  shows "\<exists>ms' ims'. db_rep d1 ms' ims' lls \<and> stacked ops low d1 ms' ims' lls \<and> job_ok low v d1 ims' lls job"
    and "db_last_sequence d1 = db_last_sequence d" "db_snapshots d1 = db_snapshots d"
      "db_current_version d1 = db_current_version d"
proof -
  have "(\<exists>ms' ims'. db_rep d1 ms' ims' lls \<and> stacked ops low d1 ms' ims' lls \<and> job_ok low v d1 ims' lls job) \<and>
    db_last_sequence d1 = db_last_sequence d \<and> db_snapshots d1 = db_snapshots d \<and> db_current_version d1 = db_current_version d"
    using r
  proof (cases rule: makeRoom_cases)
    case room
    then show ?thesis using rep h job by blast
  next
    case (rotated wal)
    note ri = rotate_inv [OF good rep rotated(2,3,6)]
    have "stacked ops low d1 [] [ms] lls" using h ri(2) len unfolding rotated(6) by (simp add: stacked_def holds_def Let_def)
    moreover have "job_ok low v d1 [ms] lls job" using job ri(2) job_ok_rotated [of low v d lls job d1] rotated(2,6) by simp
    ultimately show ?thesis using ri(1) rotated(6) by fastforce
  qed
  then show "\<exists>ms' ims'. db_rep d1 ms' ims' lls \<and> stacked ops low d1 ms' ims' lls \<and> job_ok low v d1 ims' lls job"
    "db_last_sequence d1 = db_last_sequence d" "db_snapshots d1 = db_snapshots d"
    "db_current_version d1 = db_current_version d" by blast+
qed

lemma write_inv:
  assumes good: "good_new nb" and inv: "sys_inv ops m s"
    and w: "DBImpl_write nb options batch (sy_db s) env = Some (status, d', env')"
    and len: "length (ops @ (if status_ok status then batch else [])) + 1 < 2 ^ 56"
  shows "sys_inv (ops @ (if status_ok status then batch else [])) m (s\<lparr>sy_db := d', sy_files := F\<rparr>)"
proof -
  let ?d = "sy_db s" and ?q = "db_last_sequence (sy_db s)"
  obtain low ms ims lls v where i: "db_rep ?d ms ims lls" "db_current_version ?d = Some v"
    "stacked ops low ?d ms ims lls" "snapshots_ok low m ?d"
    "job_ok low v ?d ims lls (sy_job s)" "unat ?q = length ops" "length ops + 1 < 2 ^ 56"
    using inv unfolding sys_inv_def by (elim exE conjE)
  have room: "\<exists>ms' ims'. db_rep d1 ms' ims' lls \<and> stacked ops low d1 ms' ims' lls \<and>
      job_ok low v d1 ims' lls (sy_job s) \<and> db_last_sequence d1 = ?q \<and> snapshots_ok low m d1 \<and> db_current_version d1 = Some v"
    if "DBImpl_makeRoomForWrite nb ?d env = Some (st1, d1, env1)" for st1 d1 env1
    using room_inv [OF good i(1) that i(3,5,6)] i(2,4) by (auto simp: snapshots_ok_def)
  have failed: "sys_inv ops m (s\<lparr>sy_db := d1\<lparr>db_wal := wal\<rparr>, sy_files := F\<rparr>)"
    if "DBImpl_makeRoomForWrite nb ?d env = Some (st1, d1, env1)" for st1 d1 env1 wal
    using room [OF that] i(6,7) job_ok_cong [of "d1\<lparr>db_wal := wal\<rparr>" d1] stacked_cong [of "d1\<lparr>db_wal := wal\<rparr>" d1]
    unfolding sys_inv_def by (fastforce simp: snapshots_ok_def)
  show ?thesis using w
  proof (cases rule: write_cases)
    case empty
    then show ?thesis using inv by (simp add: sys_inv_def)
  next
    case room
    have "d'\<lparr>db_wal := db_wal d'\<rparr> = d'" by simp
    then show ?thesis using failed [OF room(2), of "db_wal d'"] room(1) by simp
  next
    case (unfit st1)
    have "d'\<lparr>db_wal := db_wal d'\<rparr> = d'" by simp
    then show ?thesis using failed [OF unfit(2), of "db_wal d'"] unfit(1) by simp
  next
    case (unlogged st1 d1 env1 wal wal2)
    then show ?thesis using failed [OF unlogged(1)] by simp
  next
    case (unsynced st1 d1 env1 wal wal1 st2 wal2 env2)
    then show ?thesis using failed [OF unsynced(1)] by simp
  next
    case (applied st1 d1 env1 wal wal1 st2 wal2 env2 st3 mt)
    obtain ms1 ims1 where r: "db_rep d1 ms1 ims1 lls" "stacked ops low d1 ms1 ims1 lls"
      "job_ok low v d1 ims1 lls (sy_job s)" "db_last_sequence d1 = ?q" "snapshots_ok low m d1" "db_current_version d1 = Some v"
      using room [OF applied(1)] by (elim exE conjE)
    note ap = apply_inv [OF good r(1,4) stackedD [OF r(2), unfolded r(4)] applied(4,10,11) [unfolded r(4)]]
    have q: "1 + of_nat (length ops) = ?q + 1" unfolding i(6) [symmetric] by simp
    obtain ms2 where ms2: "db_rep d' ms2 ims1 lls"
      "holds (number_ops 1 (ops @ batch)) low (?q + of_nat (length batch)) (ms2 # ims1 @ layers lls)"
      using ap(1) unfolding number_ops_append q by (elim exE conjE)
    have st: "stacked (ops @ batch) low d' ms2 ims1 lls"
      using r(2) ms2(2) unfolding applied(11) r(4) by (auto simp: stacked_def Let_def)
    have le: "?q \<le> ?q + of_nat (length batch)" using ap(2) by (simp add: word_le_nat_alt)
    have "snapshots_ok low m d'"
      using r(4,5) le applied(11) by (auto simp: snapshots_ok_def intro: order_trans)
    moreover have "job_ok low v d' ims1 lls (sy_job s)" using r(3) applied(11) job_ok_cong [of d' d1] by simp
    ultimately show ?thesis
      using ms2(1) st ap(2) r(4,6) i(6) applied(5,11) len unfolding sys_inv_def
      by (intro exI [of _ low] exI [of _ ms2] exI [of _ ims1] exI [of _ lls] exI [of _ v]) simp
  qed
qed

subsection \<open>Flushes\<close>

lemma flush_build_outcome:
  assumes rep: "memtable_rep (im_memtable im) es" "es \<noteq> []" and sized: "flush_sized im"
  shows "\<exists>res env'. flush_build im dir env = Some (res, env') \<and>
    same_outside dir {im_table_number im} (env_files env) (env_files env') \<and>
    (case res of
       Inl status \<Rightarrow> \<not> status_ok status
     | Inr (descriptor, reader) \<Rightarrow> tm_number descriptor = im_table_number im \<and>
         output_ok dir (env_files env') \<lparr>out_meta = descriptor, out_reader = reader\<rparr> es)"
proof -
  let ?n = "im_table_number im"
  let ?tmp = "sstableTemporaryFileName dir ?n" and ?fin = "sstableFileName dir ?n"
  have size: "entries_size es + 100 < 2 ^ 32" using sized rep(1) by (simp add: flush_sized_def)
  then have len: "length es < 2 ^ 64" using entries_size_length [of es] by simp
  have sorted: "sorted_entries es" using rep(1) list_rep_props(5) by (auto simp: memtable_rep_def)
  have ne: "?tmp \<noteq> ?fin" by simp
  obtain res env1 where b: "buildLevel0Table (im_memtable im) ?tmp ?fin builder_defaults env = Some (res, env1)"
    "\<And>meta. res = Inr meta \<Longrightarrow> \<exists>ess. concat ess = es \<and> [] \<notin> set ess \<and> meta = table_meta 16 ess \<and>
       env_files env1 = (env_files env)(?fin \<mapsto> table_bytes 16 ess)"
    "\<And>status. res = Inl status \<Longrightarrow> \<not> status_ok status \<and> (\<forall>p. p \<noteq> ?tmp \<longrightarrow> env_files env1 p = env_files env p)"
    using level0_outcome [OF rep len ne, of builder_defaults env] by (auto simp: builder_defaults_def)
  show ?thesis
  proof (cases res)
    case (Inl status)
    then show ?thesis using b(1) b(3) [OF Inl] by (auto simp: flush_build_def same_outside_def own_paths_def)
  next
    case (Inr meta)
    then obtain ess where e: "concat ess = es" "[] \<notin> set ess" "meta = table_meta 16 ess"
      "env_files env1 = (env_files env)(?fin \<mapsto> table_bytes 16 ess)" using b(2) by blast
    have ok: "table_ok 16 ess" using table_ok_sized [of 16 ess] e(1,2) sorted size by simp
    have same: "same_outside dir {?n} (env_files env) (env_files env1)" by (simp add: e(4) same_outside_def own_paths_def)
    obtain r env2 where o: "SSTableReader_open ?fin env1 = (r, env2)" by fastforce
    note f2 = open_files [OF o]
    show ?thesis
    proof (cases r)
      case (Inl st)
      have "same_outside dir {?n} (env_files env) (env_files (removeFileBestEffort ?fin env2))"
        by (rule remove_own) (use same f2 in auto)
      then show ?thesis using b(1) Inr o Inl open_Inl [OF o [unfolded Inl]] by (simp add: flush_build_def)
    next
      case t: (Inr t)
      have "reader_rep 16 ess t" by (rule open_reader_any [OF o [unfolded t] _ ok]) (simp add: e(4))
      from output_table_rep [OF this, of "env_files env2" dir ?n] show ?thesis
        using b(1) Inr o t rep(2) e same f2 by (simp add: flush_build_def)
    qed
  qed
qed

lemma flush_publish_inv:
  assumes rep: "db_rep d ms ims lls" and v: "db_current_version d = Some v" and r: "flush_ready v version ims"
    and d': "d' = flush_publish candidate version d"
  shows "\<exists>lls'. db_rep d' ms [] lls' \<and> layers lls' = ims @ layers lls"
proof -
  obtain es descriptor reader where e: "ims = [es]" "table_rep \<lparr>vt_meta = descriptor, vt_reader = reader\<rparr> es"
    "version = Version_withLevel0Table descriptor reader v" using r by (auto simp: flush_ready_def)
  have vr: "version_rep v lls" using rep v by (simp add: db_rep_def)
  have new: "newest_first (ms # es # layers lls)" using db_repD(2) [OF rep] e(1) by simp
  let ?lls = "lls[kLevel0 := es # lls ! kLevel0]"
  have "version_inv ?lls" using new by (intro version_inv_level0 [OF vr db_repD(3) [OF rep]]) (simp add: newest_first_Cons)
  then have "db_rep d' ms [] ?lls"
    using rep new version_rep_level0 [OF vr e(2)] layers_level0 [OF vr, of es] e(3)
    by (simp add: db_rep_def d' flush_publish_def)
  then show ?thesis using layers_level0 [OF vr, of es] e(1) by auto
qed

subsection \<open>Compactions\<close>

lemma unat_Suc_word:
  assumes "n \<noteq> (- 1 :: u64)"
  shows "unat (n + 1) = Suc (unat n)"
proof -
  have "n + 1 \<noteq> 0" using assms by (metis add.commute eq_neg_iff_add_eq_0)
  then have "0 < unat (n + 1)" by (simp add: unat_gt_0)
  moreover have "unat n < 2 ^ 64" using unsigned_less [of n] by simp
  ultimately show ?thesis by (simp add: unat_plus_if' split: if_splits)
qed

interpretation file_numbers: number_source allocate_file_number "\<lambda>n. {k. n \<le> k \<and> k < - 1}"
proof
  fix n k n' assume a: "allocate_file_number n = (Inr k, n')"
  then have "n \<noteq> - 1" "k = n" "n' = n + 1" by (auto simp: allocate_file_number_def split: if_splits)
  then show "k \<in> {k. n \<le> k \<and> k < - 1} \<and> {k. n' \<le> k \<and> k < - 1} \<subseteq> {k. n \<le> k \<and> k < - 1} - {k}"
    using unat_Suc_word [of n] word_n1_ge [of n] by (auto simp: word_le_nat_alt order.strict_iff_order)
next
  fix n s n' assume "allocate_file_number n = (Inl s, n')"
  then show "\<not> status_ok s \<and> {k. n' \<le> k \<and> k < - 1} \<subseteq> {k. n \<le> k \<and> k < - 1}"
    by (auto simp: allocate_file_number_def split: if_splits)
qed

lemma plan_readyD:
  assumes "db_rep d ms ims lls" "db_current_version d = Some v" "plan_ready low plan v"
  shows "plan_ok plan v" and "pickCompaction (Some v) (cp_oldest_snapshot plan) CompactionOptions_default = Some plan"
    and "cp_oldest_snapshot plan \<le> low" "cp_oldest_snapshot plan < kMaxSequenceNumber"
    and "distinct (map fst (concat (plan_lists plan lls)))" "version_rep v lls" "Suc (cp_input_level plan) < kNumLevels"
proof -
  show v: "version_rep v lls" using assms(1,2) by (simp add: db_rep_def)
  obtain oldest where o: "oldest \<le> low" "oldest < kMaxSequenceNumber"
    "pickCompaction (Some v) oldest CompactionOptions_default = Some plan" using assms(3) by (auto simp: plan_ready_def)
  note p = picked_plan [OF o(3) v db_repD(3) [OF assms(1)]]
  show "plan_ok plan v" "pickCompaction (Some v) (cp_oldest_snapshot plan) CompactionOptions_default = Some plan"
    "cp_oldest_snapshot plan \<le> low" "cp_oldest_snapshot plan < kMaxSequenceNumber"
    using p(1,2) o by simp_all
  show "Suc (cp_input_level plan) < kNumLevels" using p(1) by (simp add: plan_ok_def)
  show "distinct (map fst (concat (plan_lists plan lls)))"
    by (rule compaction_parts [OF v db_repD(3) [OF assms(1)] o(3)])
qed

lemma compact_build_outcome:
  assumes rep: "db_rep d ms ims lls" "db_current_version d = Some v" "plan_ready low plan v"
    and sized: "compact_sized plan" and renv: "quiet renv"
  shows "\<exists>res n' env'. buildCompactionTables plan dir allocate_file_number CompactionOptions_default renv n env =
      Some (res, n', env') \<and> {k. n' \<le> k \<and> k < - 1} \<subseteq> {k. n \<le> k \<and> k < - 1} \<and>
    same_outside dir {k. n \<le> k \<and> k < - 1} (env_files env) (env_files env') \<and>
    (case res of
       Inl status \<Rightarrow> \<not> status_ok status
     | Inr outputs \<Rightarrow> \<exists>ls. outputs_rep dir ({k. n \<le> k \<and> k < - 1} - {k. n' \<le> k \<and> k < - 1}) (env_files env') outputs ls \<and>
         tables_ready plan outputs v lls ls)"
proof -
  note p = plan_readyD [OF rep]
  have iv: "cp_input_version plan = Some v" using p(1) by (simp add: plan_ok_def)
  have size: "entries_size (merge_all (plan_lists plan lls)) + 100 < 2 ^ 32"
    using sized iv p(6) by (simp add: compact_sized_def)
  have base: "\<forall>l \<in> {outputLevel plan + 1..<kNumLevels}. ranges_sorted (Version_level l v)"
    using version_ranges_sorted [OF p(6) db_repD(3) [OF rep(1)]] by simp
  have bytes: "co_output_bytes CompactionOptions_default \<noteq> 0"
    by (simp add: CompactionOptions_default_def kCompactionOutputBytes_def)
  have ready: "tables_ready plan outputs v lls ls"
    if "outputs_rep dir K F outputs ls" "concat ls = kept (cp_oldest_snapshot plan) (base_for v (outputLevel plan)) []
      kMaxSequenceNumber (merge_all (plan_lists plan lls))" for K F outputs ls
    using that by (auto simp: tables_ready_def outputs_rep_def list_all2_map1 output_ok_def elim: list_all2_mono)
  from file_numbers.build_tables_outcome [OF p(1) bytes plan_lists_rep [OF p(6,1)] p(5) renv size base, of dir n env]
  show ?thesis using ready by (fastforce split: sum.splits)
qed

lemma compact_publish_inv:
  assumes rep: "db_rep d ms ims lls" "db_current_version d = Some v" and r: "compact_ready low v version lls"
    and h: "stacked ops low d ms ims lls" and d': "d' = compact_publish candidate version d"
    and q: "ms_flushed_sequence candidate = ms_flushed_sequence (db_manifest d)"
  shows "\<exists>lls'. db_rep d' ms ims lls' \<and> stacked ops low d' ms ims lls'"
proof -
  obtain plan outputs ls where p: "plan_ready low plan v" "tables_ready plan outputs v lls ls"
    "version = Version_withCompaction (cp_input_level plan) (cp_inputs plan) (cp_overlaps plan) (map output_table outputs) v"
    using r by (auto simp: compact_ready_def)
  note pr = plan_readyD [OF rep p(1)]
  let ?lls = "compact_levels (cp_input_level plan) (cp_inputs plan) (cp_overlaps plan) ls lls"
  have t: "list_all2 table_rep (map output_table outputs) ls" "user_disjoint ls" "concat ls =
      kept (cp_oldest_snapshot plan) (base_for v (outputLevel plan)) [] kMaxSequenceNumber (merge_all (plan_lists plan lls))"
    using p(2) by (simp_all add: tables_ready_def)
  note cr = compaction_reads [OF pr(6) db_repD(3) [OF rep(1)] pr(2,4) t(2,3)]
  have vr: "version_rep version ?lls" unfolding p(3) by (rule version_rep_compaction [OF pr(6) t(1) pr(7)])
  have len: "length lls = kNumLevels" "length ?lls = kNumLevels" using pr(6) vr by (simp_all add: version_rep_def)
  have sub: "\<exists>l' \<in> set (layers lls). e \<in> set l'" if "l \<in> set (layers ?lls)" "e \<in> set l" for l e
    using cr(2) that unfolding all_entries_layers [OF len(1)] all_entries_layers [OF len(2)] by blast
  have old: "newest_first (ms # ims @ layers lls)" by (rule db_repD(2) [OF rep(1)])
  have "newer l m" if "l \<in> set (ms # ims)" "m \<in> set (layers ?lls)" for l m
  proof -
    have "newer l m'" if "m' \<in> set (layers lls)" for m'
      using old \<open>l \<in> set (ms # ims)\<close> that by (auto simp: newest_first_def sorted_wrt_append)
    then show ?thesis using sub [OF that(2)] by (fastforce simp: newer_def)
  qed
  then have "newest_first (ms # ims @ layers ?lls)"
    using old cr(1) by (auto simp: newest_first_def version_inv_def sorted_wrt_append)
  then have rep': "db_rep d' ms ims ?lls" using rep(1) vr cr(1) by (simp add: db_rep_def d' compact_publish_def)
  have keep: "holds h low q (pre @ layers ?lls)" if "holds h low q (pre @ layers lls)" for h q pre
  proof -
    have "lookup_layers (pre @ layers ?lls) k s = Found x \<longleftrightarrow> lookup_layers (pre @ layers lls) k s = Found x"
      if "low \<le> s" for k s x
      using cr(3) [OF order_trans [OF pr(3) that], of k x] by (auto simp: lookup_layers_append split: LookupResult.splits)
    moreover have "\<forall>l \<in> set (pre @ layers ?lls). \<forall>e \<in> set l. entry_seq e \<le> q"
      using that sub by (fastforce simp: holds_def)
    ultimately show ?thesis using that unfolding holds_def by blast
  qed
  have "stacked ops low d' ms ims ?lls"
    using h q keep [of _ _ "ms # ims"] keep [of _ _ ims] keep [of _ _ "[]"]
    unfolding d' stacked_def compact_publish_def by (simp add: Let_def)
  with rep' show ?thesis by blast
qed

lemma stacked_mono: "stacked ops low d ms ims lls \<Longrightarrow> low \<le> low' \<Longrightarrow> stacked ops low' d ms ims lls"
proof -
  assume "low \<le> low'"
  then have "holds h low q ls \<Longrightarrow> holds h low' q ls" for h q ls using order_trans unfolding holds_def by blast
  then show "stacked ops low d ms ims lls \<Longrightarrow> stacked ops low' d ms ims lls" by (auto simp: stacked_def Let_def)
qed

lemma compact_pick_inv:
  assumes sn: "snapshots_ok low m d" and pick: "compact_pick d = Some plan"
    and v: "db_current_version d = Some v" and q: "unat (db_last_sequence d) + 1 < 2 ^ 56"
  shows "\<exists>low'. low \<le> low' \<and> plan_ready low' plan v \<and> snapshots_ok low' m d"
proof -
  let ?oldest = "SnapshotTracker_oldest (db_last_sequence d) (db_snapshots d)"
  have o: "?oldest = (if m = {#} then db_last_sequence d else Min_mset m)"
    using sn tracks_oldest by (simp add: snapshots_ok_def)
  have "Min_mset m \<in># m" if "m \<noteq> {#}" using Min_in [of "set_mset m"] that by simp
  then have le: "low \<le> ?oldest" "?oldest \<le> db_last_sequence d"
    using sn unfolding o by (auto simp: snapshots_ok_def)
  have "db_last_sequence d < kMaxSequenceNumber" using q by (simp add: word_less_nat_alt kMax_unat)
  then have "plan_ready ?oldest plan v"
    using pick v le(2) by (auto simp: plan_ready_def compact_pick_def)
  moreover have "snapshots_ok ?oldest m d" using sn le(2) o by (auto simp: snapshots_ok_def)
  ultimately show ?thesis using le(1) by blast
qed

subsection \<open>Every step keeps the invariant\<close>

text \<open>A step that leaves the layers alone.\<close>

lemma sys_invE:
  assumes "sys_inv ops m s"
  obtains low ms ims lls v where "db_rep (sy_db s) ms ims lls" "db_current_version (sy_db s) = Some v"
    "stacked ops low (sy_db s) ms ims lls" "snapshots_ok low m (sy_db s)"
    "job_ok low v (sy_db s) ims lls (sy_job s)" "unat (db_last_sequence (sy_db s)) = length ops" "length ops + 1 < 2 ^ 56"
  using assms unfolding sys_inv_def by blast

lemma sys_invI:
  "db_rep (sy_db s) ms ims lls \<Longrightarrow> db_current_version (sy_db s) = Some v \<Longrightarrow>
   stacked ops low (sy_db s) ms ims lls \<Longrightarrow> snapshots_ok low m (sy_db s) \<Longrightarrow>
   job_ok low v (sy_db s) ims lls (sy_job s) \<Longrightarrow> unat (db_last_sequence (sy_db s)) = length ops \<Longrightarrow>
   length ops + 1 < 2 ^ 56 \<Longrightarrow> sys_inv ops m s"
  unfolding sys_inv_def by blast

lemma db_rep_fields [simp]:
  "db_rep (d\<lparr>db_background_error := e\<rparr>) = db_rep d" "db_rep (d\<lparr>db_next_file_number := n\<rparr>) = db_rep d"
  "db_rep (d\<lparr>db_snapshots := t\<rparr>) = db_rep d" "db_rep (d\<lparr>db_shutting_down := b\<rparr>) = db_rep d"
  by (simp_all add: db_rep_def fun_eq_iff)

lemma snapshots_ok_fields [simp]:
  "snapshots_ok low m (d\<lparr>db_background_error := e\<rparr>) = snapshots_ok low m d"
  "snapshots_ok low m (d\<lparr>db_next_file_number := n\<rparr>) = snapshots_ok low m d"
  "snapshots_ok low m (d\<lparr>db_shutting_down := b\<rparr>) = snapshots_ok low m d"
  by (simp_all add: snapshots_ok_def)

lemma job_ok_fields [simp]:
  "job_ok low v (d\<lparr>db_next_file_number := n\<rparr>) ims lls job = job_ok low v d ims lls job"
  "job_ok low v (d\<lparr>db_snapshots := t\<rparr>) ims lls job = job_ok low v d ims lls job"
  "job_ok low v (d\<lparr>db_shutting_down := b\<rparr>) ims lls job = job_ok low v d ims lls job"
  by (rule job_ok_cong, simp, simp)+

lemma stacked_fields [simp]:
  "stacked ops low (d\<lparr>db_background_error := e\<rparr>) = stacked ops low d" "stacked ops low (d\<lparr>db_next_file_number := n\<rparr>) = stacked ops low d"
  "stacked ops low (d\<lparr>db_snapshots := t\<rparr>) = stacked ops low d" "stacked ops low (d\<lparr>db_shutting_down := b\<rparr>) = stacked ops low d"
  by (simp_all add: stacked_def fun_eq_iff)

lemma failed_inv: "sys_inv ops m s \<Longrightarrow> sys_inv ops m (background_failed status (s\<lparr>sy_files := F\<rparr>))"
  by (erule sys_invE, rule sys_invI) (simp_all add: background_failed_def)

lemma sys_inv_files [simp]:
  "sys_inv ops m (s\<lparr>sy_files := F\<rparr>) = sys_inv ops m s"
  "sys_inv ops m (s\<lparr>sy_files := F, sy_job := job\<rparr>) = sys_inv ops m (s\<lparr>sy_job := job\<rparr>)"
  "sys_inv ops m (s\<lparr>sy_job := job, sy_db := d\<rparr>) = sys_inv ops m (s\<lparr>sy_db := d, sy_job := job\<rparr>)"
  by (simp_all add: sys_inv_def)

lemma sys_inv_number: "sys_inv ops m s \<Longrightarrow> sys_inv ops m (s\<lparr>sy_db := (sy_db s)\<lparr>db_next_file_number := n\<rparr>\<rparr>)"
  by (erule sys_invE, rule sys_invI) simp_all

lemma sys_inv_job:
  assumes "sys_inv ops m s"
    and "\<And>low ms ims lls v. db_rep (sy_db s) ms ims lls \<Longrightarrow> db_current_version (sy_db s) = Some v \<Longrightarrow>
      job_ok low v (sy_db s) ims lls (sy_job s) \<Longrightarrow> job_ok low v (sy_db s) ims lls job"
  shows "sys_inv ops m (s\<lparr>sy_job := job\<rparr>)"
proof (rule sys_invE [OF assms(1)])
  fix low ms ims lls v
  assume i: "db_rep (sy_db s) ms ims lls" "db_current_version (sy_db s) = Some v"
    "stacked ops low (sy_db s) ms ims lls" "snapshots_ok low m (sy_db s)"
    "job_ok low v (sy_db s) ims lls (sy_job s)" "unat (db_last_sequence (sy_db s)) = length ops" "length ops + 1 < 2 ^ 56"
  then show ?thesis using assms(2) [OF i(1,2,5)] by (intro sys_invI [of _ ms ims lls v _ low]) simp_all
qed

lemma snapshot_inv:
  assumes "sys_inv ops m s"
  shows "DBImpl_newSnapshot False (sy_db s) = (Inr sn, d) \<Longrightarrow> sys_inv ops (add_mset (sn_sequence sn) m) (s\<lparr>sy_db := d\<rparr>)"
    and "sn_sequence sn \<in># m \<Longrightarrow>
      sys_inv ops (m - {#sn_sequence sn#}) (s\<lparr>sy_db := SnapshotImpl_destroy sn (sy_db s)\<rparr>)"
    and "sys_inv ops m (s\<lparr>sy_db := DBImpl_shutdown (sy_db s)\<rparr>)"
proof -
  obtain low ms ims lls v where i: "db_rep (sy_db s) ms ims lls" "db_current_version (sy_db s) = Some v"
    "stacked ops low (sy_db s) ms ims lls" "snapshots_ok low m (sy_db s)"
    "job_ok low v (sy_db s) ims lls (sy_job s)" "unat (db_last_sequence (sy_db s)) = length ops" "length ops + 1 < 2 ^ 56"
    by (rule sys_invE [OF assms])
  have add: "snapshots_ok low (add_mset q m) (d\<lparr>db_snapshots := SnapshotTracker_add q (db_snapshots d)\<rparr>)"
    if "snapshots_ok low m d" "q = db_last_sequence d" for d q
    using that tracks_add [of "db_snapshots d" m q] by (simp add: snapshots_ok_def)
  have remove: "snapshots_ok low (m - {#q#}) (d\<lparr>db_snapshots := SnapshotTracker_remove q (db_snapshots d)\<rparr>)"
    if "snapshots_ok low m d" "q \<in># m" for d q
    using that tracks_remove [of "db_snapshots d" m q] by (auto simp: snapshots_ok_def dest: in_diffD)
  show "sys_inv ops (add_mset (sn_sequence sn) m) (s\<lparr>sy_db := d\<rparr>)" if "DBImpl_newSnapshot False (sy_db s) = (Inr sn, d)"
    using that i add [OF i(4) refl]
    by (intro sys_invI [of _ ms ims lls v]) (auto simp: DBImpl_newSnapshot_def SnapshotImpl_new_def)
  show "sys_inv ops (m - {#sn_sequence sn#}) (s\<lparr>sy_db := SnapshotImpl_destroy sn (sy_db s)\<rparr>)" if "sn_sequence sn \<in># m"
    using i remove [OF i(4) that] by (intro sys_invI [of _ ms ims lls v]) (auto simp: SnapshotImpl_destroy_def)
  show "sys_inv ops m (s\<lparr>sy_db := DBImpl_shutdown (sy_db s)\<rparr>)"
    using i by (intro sys_invI [of _ ms ims lls v]) (auto simp: DBImpl_shutdown_def)
qed

lemma flush_inv:
  assumes inv: "sys_inv ops m s"
  shows "db_immutable (sy_db s) = Some im \<Longrightarrow> flush_sized im \<Longrightarrow> flush_build im dir env = Some (Inr (descriptor, reader), env') \<Longrightarrow>
      sys_inv ops m (s\<lparr>sy_job := FlushBuilt im descriptor reader\<rparr>)"
    and "sy_job s = FlushBuilt im descriptor reader \<Longrightarrow>
      flush_prepare (im_last_sequence im) descriptor reader (sy_db s) = Some (candidate, version, wal) \<Longrightarrow>
      sys_inv ops m (s\<lparr>sy_job := FlushPrepared im candidate version wal\<rparr>)"
    and "sy_job s = FlushPrepared im candidate version wal \<Longrightarrow> sys_inv ops m (s\<lparr>sy_job := FlushCommitted candidate version wal\<rparr>)"
    and "sy_job s = FlushCommitted candidate version wal \<Longrightarrow>
      sys_inv ops m (s\<lparr>sy_db := flush_publish candidate version (sy_db s), sy_job := FlushCleaning wal\<rparr>)"
proof -
  show "sys_inv ops m (s\<lparr>sy_job := FlushBuilt im descriptor reader\<rparr>)" if b: "db_immutable (sy_db s) = Some im" "flush_sized im"
    "flush_build im dir env = Some (Inr (descriptor, reader), env')"
  proof (rule sys_inv_job [OF inv])
    fix low ms ims lls v assume "db_rep (sy_db s) ms ims lls"
    then obtain es where es: "ims = [es]" "memtable_rep (im_memtable im) es" "es \<noteq> []" using b(1) by (auto simp: db_rep_def)
    from flush_build_outcome [OF es(2,3) b(2), of dir env] b(1,3) es(1)
    show "job_ok low v (sy_db s) ims lls (FlushBuilt im descriptor reader)" by (auto simp: output_ok_def output_table_def)
  qed
  show "sys_inv ops m (s\<lparr>sy_job := FlushPrepared im candidate version wal\<rparr>)" if b: "sy_job s = FlushBuilt im descriptor reader"
    "flush_prepare (im_last_sequence im) descriptor reader (sy_db s) = Some (candidate, version, wal)"
    by (rule sys_inv_job [OF inv]) (use b in \<open>auto simp: flush_prepare_def flush_ready_def Let_def\<close>)
  show "sys_inv ops m (s\<lparr>sy_job := FlushCommitted candidate version wal\<rparr>)" if "sy_job s = FlushPrepared im candidate version wal"
    by (rule sys_inv_job [OF inv]) (use that in simp)
  show "sys_inv ops m (s\<lparr>sy_db := flush_publish candidate version (sy_db s), sy_job := FlushCleaning wal\<rparr>)"
    if b: "sy_job s = FlushCommitted candidate version wal"
  proof (rule sys_invE [OF inv])
    fix low ms ims lls v
    assume i: "db_rep (sy_db s) ms ims lls" "db_current_version (sy_db s) = Some v"
      "stacked ops low (sy_db s) ms ims lls" "snapshots_ok low m (sy_db s)"
      "job_ok low v (sy_db s) ims lls (sy_job s)" "unat (db_last_sequence (sy_db s)) = length ops" "length ops + 1 < 2 ^ 56"
    obtain lls' where l: "db_rep (flush_publish candidate version (sy_db s)) ms [] lls'" "layers lls' = ims @ layers lls"
      using flush_publish_inv [OF i(1,2) _ refl] i(5) b by fastforce
    have "stacked ops low (flush_publish candidate version (sy_db s)) ms [] lls'"
      using i(3,5) b l(2) by (auto simp: stacked_def flush_publish_def Let_def)
    then show ?thesis
      using i l by (intro sys_invI [of _ ms "[]" lls' version]) (auto simp: flush_publish_def snapshots_ok_def)
  qed
qed

lemma compact_inv:
  assumes inv: "sys_inv ops m s"
  shows "compact_pick (sy_db s) = Some plan \<Longrightarrow> sys_inv ops m (s\<lparr>sy_job := CompactPicked plan\<rparr>)"
    and "sy_job s = CompactPicked plan \<Longrightarrow> compact_sized plan \<Longrightarrow> quiet renv \<Longrightarrow>
      buildCompactionTables plan dir allocate_file_number CompactionOptions_default renv n env = Some (Inr outputs, n', env') \<Longrightarrow>
      sys_inv ops m (s\<lparr>sy_job := CompactBuilt plan outputs\<rparr>)"
    and "sy_job s = CompactBuilt plan outputs \<Longrightarrow> compact_prepare plan outputs (sy_db s) = Some (candidate, version) \<Longrightarrow>
      sys_inv ops m (s\<lparr>sy_job := CompactPrepared outputs candidate version\<rparr>)"
    and "sy_job s = CompactPrepared outputs candidate version \<Longrightarrow> sys_inv ops m (s\<lparr>sy_job := CompactCommitted candidate version\<rparr>)"
    and "sy_job s = CompactCommitted candidate version \<Longrightarrow>
      sys_inv ops m (s\<lparr>sy_db := compact_publish candidate version (sy_db s), sy_job := CompactCleaning\<rparr>)"
proof -
  obtain low ms ims lls v where i: "db_rep (sy_db s) ms ims lls" "db_current_version (sy_db s) = Some v"
    "stacked ops low (sy_db s) ms ims lls" "snapshots_ok low m (sy_db s)"
    "job_ok low v (sy_db s) ims lls (sy_job s)" "unat (db_last_sequence (sy_db s)) = length ops" "length ops + 1 < 2 ^ 56"
    by (rule sys_invE [OF inv])
  show "sys_inv ops m (s\<lparr>sy_job := CompactPicked plan\<rparr>)" if pick: "compact_pick (sy_db s) = Some plan"
  proof -
    obtain low' where "low \<le> low'" "plan_ready low' plan v" "snapshots_ok low' m (sy_db s)"
      using compact_pick_inv [OF i(4) pick i(2)] i(6,7) by auto
    then show ?thesis using i stacked_mono [OF i(3)] by (intro sys_invI [of _ ms ims lls v _ low']) simp_all
  qed
  show "sys_inv ops m (s\<lparr>sy_job := CompactBuilt plan outputs\<rparr>)"
    if b: "sy_job s = CompactPicked plan" "compact_sized plan" "quiet renv"
    "buildCompactionTables plan dir allocate_file_number CompactionOptions_default renv n env = Some (Inr outputs, n', env')"
  proof (rule sys_inv_job [OF inv])
    fix low ms ims lls v assume r: "db_rep (sy_db s) ms ims lls" "db_current_version (sy_db s) = Some v"
      "job_ok low v (sy_db s) ims lls (sy_job s)"
    have p: "plan_ready low plan v" using r(3) b(1) by simp
    from compact_build_outcome [OF r(1,2) p b(2,3), of dir n env] b(4) p
    show "job_ok low v (sy_db s) ims lls (CompactBuilt plan outputs)" by auto
  qed
  show "sys_inv ops m (s\<lparr>sy_job := CompactPrepared outputs candidate version\<rparr>)"
    if b: "sy_job s = CompactBuilt plan outputs" "compact_prepare plan outputs (sy_db s) = Some (candidate, version)"
  proof (rule sys_inv_job [OF inv])
    fix low ms ims lls v assume r: "db_rep (sy_db s) ms ims lls" "db_current_version (sy_db s) = Some v"
      "job_ok low v (sy_db s) ims lls (sy_job s)"
    have p: "plan_ready low plan v" "\<exists>ls. tables_ready plan outputs v lls ls" using r(3) b(1) by simp_all
    have "cp_input_version plan = Some v" using plan_readyD(1) [OF r(1,2) p(1)] by (simp add: plan_ok_def)
    then have "version = Version_withCompaction (cp_input_level plan) (cp_inputs plan) (cp_overlaps plan) (map output_table outputs) v"
      using b(2) by (simp add: compact_prepare_def Let_def output_table_def [abs_def])
    moreover have "ms_flushed_sequence candidate = ms_flushed_sequence (db_manifest (sy_db s))"
      using b(2) by (auto simp: compact_prepare_def Let_def)
    ultimately show "job_ok low v (sy_db s) ims lls (CompactPrepared outputs candidate version)"
      using p by (auto simp: compact_ready_def)
  qed
  show "sys_inv ops m (s\<lparr>sy_job := CompactCommitted candidate version\<rparr>)" if "sy_job s = CompactPrepared outputs candidate version"
    by (rule sys_inv_job [OF inv]) (use that in simp)
  show "sys_inv ops m (s\<lparr>sy_db := compact_publish candidate version (sy_db s), sy_job := CompactCleaning\<rparr>)"
    if b: "sy_job s = CompactCommitted candidate version"
  proof -
    obtain lls' where "db_rep (compact_publish candidate version (sy_db s)) ms ims lls'"
      "stacked ops low (compact_publish candidate version (sy_db s)) ms ims lls'"
      using compact_publish_inv [OF i(1,2) _ i(3) refl] i(5) b by fastforce
    then show ?thesis
      using i by (intro sys_invI [of _ ms ims lls' version]) (auto simp: compact_publish_def snapshots_ok_def)
  qed
qed

lemma step_inv:
  assumes good: "good_new nb" and inv: "sys_inv ops m s" and st: "db_step nb ls s ev s'"
    and len: "length (ops @ batch_of ev) + 1 < 2 ^ 56" and rel: "\<And>q. ev = Released q \<Longrightarrow> q \<in># m"
  shows "sys_inv (ops @ batch_of ev) (track m ev) s'"
  using st
proof cases
  case (client_write env batch options status d env')
  then show ?thesis using write_inv [OF good inv client_write(5), of "env_files env'"] len by (simp split: if_splits)
next
  case (acquire sn d)
  then show ?thesis using snapshot_inv(1) [OF inv] by simp
next
  case (release sn)
  then show ?thesis using snapshot_inv(2) [OF inv, of sn] rel by simp
next
  case shutdown
  then show ?thesis using snapshot_inv(3) [OF inv] by simp
next
  case (flush_build im env result env')
  then show ?thesis
    using flush_inv(1) [OF inv flush_build(4,5)] failed_inv [OF inv] by (cases result) (auto split: prod.splits)
next
  case (flush_prepare im descriptor reader candidate version wal)
  then show ?thesis using flush_inv(2) [OF inv] by simp
next
  case (flush_commit im candidate version wal env status env')
  then show ?thesis using flush_inv(3) [OF inv] failed_inv [OF inv] by simp
next
  case (flush_publish candidate version wal)
  then show ?thesis using flush_inv(4) [OF inv] by simp
next
  case (flush_clean wal env)
  then show ?thesis using sys_inv_job [OF inv, of Idle] by simp
next
  case (compact_pick plan)
  then show ?thesis using compact_inv(1) [OF inv] by simp
next
  case (compact_build plan renv env result n' env' s1)
  then show ?thesis
    using sys_inv_number [OF compact_inv(2) [OF inv compact_build(3-5)]] failed_inv [OF sys_inv_number [OF inv]]
    by (cases result) auto
next
  case (compact_prepare plan outputs candidate version)
  then show ?thesis using compact_inv(3) [OF inv] by simp
next
  case (compact_commit outputs candidate version env status env')
  then show ?thesis using compact_inv(4) [OF inv] failed_inv [OF inv] by simp
next
  case (compact_publish candidate version)
  then show ?thesis using compact_inv(5) [OF inv] by simp
next
  case (compact_clean env)
  then show ?thesis using sys_inv_job [OF inv, of Idle] by simp
qed

lemma runs_inv:
  assumes "good_new nb" "db_runs nb ls s evs t" "sys_inv ops {#} s"
  shows "length (ops @ acknowledged evs) + 1 < 2 ^ 56 \<Longrightarrow> sys_inv (ops @ acknowledged evs) (live_snapshots evs) t"
  using assms(2,3)
proof (induction rule: db_runs.induct)
  case start
  then show ?case by (simp add: acknowledged_def live_snapshots_def)
next
  case (step evs t ev u)
  have a: "acknowledged (evs @ [ev]) = acknowledged evs @ batch_of ev"
    "live_snapshots (evs @ [ev]) = track (live_snapshots evs) ev"
    by (simp_all add: acknowledged_def live_snapshots_def)
  have "sys_inv (ops @ acknowledged evs) (live_snapshots evs) t" using step a by simp
  from step_inv [OF assms(1) this step.hyps(2)] show ?case using step a by simp
qed

end
