(* ===== verification/DBReads.thy ===== *)
theory DBReads
  imports DBStep
begin

text \<open>
  What readers of a running database see.  \<open>db_map\<close> is the specification: the map that a sequence of
  puts and deletes leaves behind.  A read at sequence number \<open>q\<close>, whether by \<^verbatim>\<open>get\<close> or by an
  iterator, sees the map of the first \<open>q\<close> acknowledged operations.
\<close>

fun apply_op :: "(bytes \<rightharpoonup> bytes) \<Rightarrow> Operation \<Rightarrow> (bytes \<rightharpoonup> bytes)" where
  "apply_op m operation =
     (case op_type operation of
        kPut \<Rightarrow> m(op_key operation \<mapsto> op_value operation)
      | kDelete \<Rightarrow> m(op_key operation := None))"

definition db_map :: "Operation list \<Rightarrow> (bytes \<rightharpoonup> bytes)" where
  "db_map operations = foldl apply_op Map.empty operations"

text \<open>The sequence number at which the options let a reader see the database.\<close>

definition reads_at :: "ReadOptions \<Rightarrow> DBImpl \<Rightarrow> SequenceNumber multiset \<Rightarrow> SequenceNumber \<Rightarrow> bool" where
  "reads_at options d m q \<longleftrightarrow>
     (case ro_snapshot options of
        None \<Rightarrow> q = db_last_sequence d
      | Some snapshot \<Rightarrow> sn_tracker snapshot = db_snapshots_id d \<and> sn_sequence snapshot \<in># m \<and> q = sn_sequence snapshot)"

subsection \<open>Histories and maps\<close>

lemma db_map_snoc [simp]: "db_map (ops @ [operation]) = apply_op (db_map ops) operation"
  by (simp add: db_map_def)

lemma history_map:
  assumes "length ops + 1 < 2 ^ 56"
  shows "history_get (rev (number_ops 1 ops)) k q = Found x \<longleftrightarrow> db_map (take (unat q) ops) k = Some x"
  using assms
proof (induction ops rule: rev_induct)
  case Nil
  then show ?case by (simp add: db_map_def)
next
  case (snoc operation ops)
  have u: "unat (1 + of_nat (length ops) :: SequenceNumber) = length ops + 1"
    using snoc.prems by (simp add: unat_plus_if' unat_u64)
  show ?case
  proof (cases "length ops < unat q")
    case True
    then have "1 + of_nat (length ops) \<le> q" unfolding word_le_nat_alt u by simp
    moreover have "take (unat q) (ops @ [operation]) = ops @ [operation]" "take (unat q) ops = ops" using True by simp_all
    ultimately show ?thesis
      using snoc by (auto simp: number_ops_append split: OperationType.splits)
  next
    case False
    then have "\<not> 1 + of_nat (length ops) \<le> q" unfolding word_le_nat_alt u by simp
    then show ?thesis using snoc False by (auto simp: number_ops_append split: OperationType.splits)
  qed
qed

lemma found_option:
  assumes "\<And>x. r = Found x \<longleftrightarrow> opt = Some x"
  shows "(case r of Found x \<Rightarrow> f x | Deleted \<Rightarrow> y | Absent \<Rightarrow> y) = (case opt of Some x \<Rightarrow> f x | None \<Rightarrow> y)"
proof (cases opt)
  case None
  then have "r \<noteq> Found x" for x using assms by simp
  then show ?thesis using None by (cases r) auto
next
  case (Some x)
  then show ?thesis using assms [of x] by simp
qed

subsection \<open>Reads in a state of the invariant\<close>

lemma reads_visible:
  assumes "snapshots_ok low m d" "reads_at options d m q"
  shows "snapshot_sequence options d = Inr (case ro_snapshot options of None \<Rightarrow> None | Some sn \<Rightarrow> Some q)"
    and "(case (case ro_snapshot options of None \<Rightarrow> None | Some sn \<Rightarrow> Some q) of None \<Rightarrow> db_last_sequence d | Some s \<Rightarrow> s) = q"
    and "low \<le> q" "q \<le> db_last_sequence d"
  using assms by (auto simp: reads_at_def snapshot_sequence_def snapshots_ok_def split: option.splits)

lemma get_layers:
  assumes rep: "db_rep d ms ims lls" and sn: "snapshots_ok low m d" and q: "reads_at options d m q" "q \<le> kMaxSequenceNumber"
    and key: "length key + 8 < 2 ^ 32"
  shows "\<exists>res env'. DBImpl_get False options key d env = Some (res, env') \<and>
    (\<forall>x. res = Inr x \<longrightarrow> lookup_layers (ms # ims @ layers lls) key q = Found x) \<and>
    (quiet env \<longrightarrow> res = (case lookup_layers (ms # ims @ layers lls) key q of
       Found x \<Rightarrow> Inr x | _ \<Rightarrow> Inl (notFound ''key does not exist'')))"
proof -
  obtain v where v: "db_current_version d = Some v" "version_rep v lls" using db_repD(4) [OF rep] by blast
  have mem: "MemTable_get key q (db_memtable d) = Some (lookup_in ms key q)"
    by (rule memtable_get_rep [OF db_repD(5) [OF rep] q(2) key])
  have imm: "(case db_immutable d of None \<Rightarrow> Some Absent | Some im \<Rightarrow> MemTable_get key q (im_memtable im)) =
      Some (lookup_layers ims key q)"
    using rep memtable_get_rep [OF _ q(2) key] by (auto simp: db_rep_def split: option.splits LookupResult.splits)
  obtain r env1 where g: "Version_get options key q v env = (r, env1)" by fastforce
  note vg = version_get_layers [OF v(2) db_repD(3) [OF rep] q(2) g]
  have r: "(\<forall>y. r = Inr y \<longrightarrow> y = lookup_layers (layers lls) key q) \<and> (quiet env \<longrightarrow> r = Inr (lookup_layers (layers lls) key q))"
    using vg(1) vg(2) [of "env_files env"] by (auto simp: quiet_at_def)
  have get: "DBImpl_get False options key d env =
    (case lookup_in ms key q of
       Found value \<Rightarrow> Some (Inr value, env)
     | Deleted \<Rightarrow> Some (Inl (notFound ''key does not exist''), env)
     | Absent \<Rightarrow> (case lookup_layers ims key q of
         Found value \<Rightarrow> Some (Inr value, env)
       | Deleted \<Rightarrow> Some (Inl (notFound ''key does not exist''), env)
       | Absent \<Rightarrow> (case r of
           Inl status \<Rightarrow> Some (Inl status, env1)
         | Inr (Found value) \<Rightarrow> Some (Inr value, env1)
         | Inr _ \<Rightarrow> Some (Inl (notFound ''key does not exist''), env1))))"
    using mem imm g v(1) reads_visible(1,2) [OF sn q(1)]
    by (auto simp: DBImpl_get_def Let_def split: LookupResult.splits sum.splits)
  show ?thesis unfolding get
    using r by (auto simp: lookup_layers_append split: LookupResult.splits sum.splits)
qed

lemma inv_get:
  assumes inv: "sys_inv ops m s" and q: "reads_at options (sy_db s) m q" and key: "length key + 8 < 2 ^ 32"
  shows "\<exists>res env'. DBImpl_get False options key (sy_db s) env = Some (res, env') \<and>
    (\<forall>x. res = Inr x \<longrightarrow> db_map (take (unat q) ops) key = Some x) \<and>
    (quiet env \<longrightarrow> res = (case db_map (take (unat q) ops) key of
       Some x \<Rightarrow> Inr x | None \<Rightarrow> Inl (notFound ''key does not exist'')))"
proof -
  obtain low ms ims lls v where i: "db_rep (sy_db s) ms ims lls"
    "stacked ops low (sy_db s) ms ims lls" "snapshots_ok low m (sy_db s)"
    "unat (db_last_sequence (sy_db s)) = length ops" "length ops + 1 < 2 ^ 56"
    using inv unfolding sys_inv_def by (elim exE conjE)
  note rv = reads_visible [OF i(3) q]
  have "q \<le> kMaxSequenceNumber" using rv(4) i(4,5) by (simp add: word_le_nat_alt kMax_unat)
  from get_layers [OF i(1,3) q this key, of env] obtain res env' where g:
    "DBImpl_get False options key (sy_db s) env = Some (res, env')"
    "\<forall>x. res = Inr x \<longrightarrow> lookup_layers (ms # ims @ layers lls) key q = Found x"
    "quiet env \<longrightarrow> res = (case lookup_layers (ms # ims @ layers lls) key q of
       Found x \<Rightarrow> Inr x | _ \<Rightarrow> Inl (notFound ''key does not exist''))" by blast
  have l: "lookup_layers (ms # ims @ layers lls) key q = Found x \<longleftrightarrow> db_map (take (unat q) ops) key = Some x" for x
    using stackedD [OF i(2)] rv(3) unfolding holds_def history_map [OF i(5)] by blast
  then have "(case lookup_layers (ms # ims @ layers lls) key q of Found x \<Rightarrow> Inr x | _ \<Rightarrow> Inl (notFound ''key does not exist'')) =
      (case db_map (take (unat q) ops) key of Some x \<Rightarrow> Inr x | None \<Rightarrow> Inl (notFound ''key does not exist''))"
    by (rule found_option)
  then show ?thesis using g l by auto
qed

subsection \<open>Iterators\<close>

lemma table_inputs:
  assumes "list_all2 table_rep ts ls" "quiet env"
  shows "list_all2 (\<lambda>c l. \<exists>p. input_at c l p)
    (map (\<lambda>table. TableInput (SSTableReader_newIterator options (vt_reader table) env)) ts) ls"
  unfolding list_all2_map1
  by (rule list_all2_mono [OF assms(1)]) (use tab_at_new [OF _ assms(2)] in \<open>fastforce simp: table_rep_def\<close>)

lemma memtable_input_rep:
  "memtable_rep mt es \<Longrightarrow> \<exists>p. input_at (MemInput (MemTable_newIterator mt)) es p"
  using mem_at_new by (auto intro: exI)

lemma concat_version_levels:
  "version_rep v lls \<Longrightarrow> concat (map (\<lambda>level. Version_level level v) [0..<kNumLevels]) = concat (ver_levels v)"
  by (erule version_repE) (simp add: Version_level_def level_consts upt_conv_Cons)

lemma distinct_map_append:
  "distinct (map f a) \<Longrightarrow> distinct (map f b) \<Longrightarrow> (\<And>x y. x \<in> set a \<Longrightarrow> y \<in> set b \<Longrightarrow> f x \<noteq> f y) \<Longrightarrow>
   distinct (map f (a @ b))"
  by auto

lemma list_all2_concat: "list_all2 (list_all2 P) xss yss \<Longrightarrow> list_all2 P (concat xss) (concat yss)"
  by (induction rule: list_all2_induct) (simp_all add: list_all2_appendI)

lemma distinct_layers:
  assumes "db_rep d ms ims lls"
  shows "distinct (map fst (concat (ms # ims @ concat lls)))"
proof -
  obtain v where v: "version_rep v lls" using db_repD(4) [OF assms] by blast
  note s = db_repD(1) [OF assms] and n = db_repD(2) [OF assms]
  have len: "length lls = kNumLevels" using v by (simp add: version_rep_def)
  have keys: "fst x \<noteq> fst y" if "newer a b" "x \<in> set a" "y \<in> set b" for a b x y
    using newer_keys [OF that(1)] that(2,3) by blast
  have sub: "\<exists>l \<in> set (layers lls). e \<in> set l" if "e \<in> set (concat (concat lls))" for e
    using that all_entries_layers [OF len] by (fastforce simp: all_entries_def)
  have "distinct (map fst (concat (ms # ims)))"
  proof (rule distinct_concat_pairwise)
    show "\<forall>l \<in> set (ms # ims). distinct (map fst l)" using s sorted_keys_distinct by simp
    have "newest_first (ms # ims)" using n by (simp add: newest_first_def sorted_wrt_append)
    then show "sorted_wrt (\<lambda>a b. \<forall>x \<in> set a. \<forall>y \<in> set b. fst x \<noteq> fst y) (ms # ims)"
      unfolding newest_first_def by (rule sorted_wrt_mono_rel [rotated]) (use newer_keys in blast)
  qed
  moreover have "fst x \<noteq> fst y" if x: "x \<in> set (concat (ms # ims))" and y: "y \<in> set (concat (concat lls))" for x y
  proof -
    obtain a b where ab: "a \<in> set (ms # ims)" "x \<in> set a" "b \<in> set (layers lls)" "y \<in> set b" using x sub [OF y] by auto
    then have "newer a b" using n by (auto simp: newest_first_def sorted_wrt_append)
    then show ?thesis using keys ab by blast
  qed
  moreover have "concat (ms # ims @ concat lls) = concat (ms # ims) @ concat (concat lls)" by simp
  ultimately show ?thesis
    using distinct_map_append [OF _ version_distinct [OF v db_repD(3) [OF assms]]] by presburger
qed

lemma inv_iterator:
  assumes inv: "sys_inv ops m s" and q: "reads_at options (sy_db s) m q" and env: "quiet env" and target: "length target + 8 < 2 ^ 32"
  shows "\<exists>it n kvs. DBImpl_newIterator False options (sy_db s) env = Some (Inr it) \<and>
    sorted_wrt (\<lambda>a b. fst a < fst b) kvs \<and>
    (\<forall>k v. (k, v) \<in> set kvs \<longleftrightarrow> db_map (take (unat q) ops) k = Some v) \<and>
    (\<exists>it'. DBIterator_seekToFirst merged_ops it = Some it' \<and> db_scan merged_ops n it' = Some kvs) \<and>
    (\<exists>it'. DBIterator_seek merged_ops target it = Some it' \<and>
       db_scan merged_ops n it' = Some (filter (\<lambda>(k, v). target \<le> k) kvs))"
proof -
  let ?d = "sy_db s"
  obtain low ms ims lls v where i: "db_rep ?d ms ims lls" "db_current_version ?d = Some v"
    "stacked ops low ?d ms ims lls" "snapshots_ok low m ?d"
    "unat (db_last_sequence ?d) = length ops" "length ops + 1 < 2 ^ 56"
    using inv unfolding sys_inv_def by (elim exE conjE)
  note rv = reads_visible [OF i(4) q]
  have q56: "q \<le> kMaxSequenceNumber" using rv(4) i(5,6) by (simp add: word_le_nat_alt kMax_unat)
  have v: "version_rep v lls" using i(1,2) by (simp add: db_rep_def)
  let ?tables = "map (\<lambda>table. TableInput (SSTableReader_newIterator options (vt_reader table) env)) (concat (ver_levels v))"
  let ?imm = "case db_immutable ?d of None \<Rightarrow> [] | Some im \<Rightarrow> [MemInput (MemTable_newIterator (im_memtable im))]"
  let ?children = "MemInput (MemTable_newIterator (db_memtable ?d)) # ?imm @ ?tables"
  let ?ess = "ms # ims @ concat lls"
  let ?it = "DBIterator_new (MergingIterator_new ?children) q"
  have "list_all2 table_rep (concat (ver_levels v)) (concat lls)"
    using v by (intro list_all2_concat) (simp add: version_rep_def)
  note t = table_inputs [OF this env, of options]
  have "list_all2 (\<lambda>c l. \<exists>p. input_at c l p) ?imm ims"
    using i(1) memtable_input_rep by (auto simp: db_rep_def simp del: input_at.simps split: option.splits)
  then have children: "list_all2 (\<lambda>c l. \<exists>p. input_at c l p) ?children ?ess"
    using memtable_input_rep [OF db_repD(5) [OF i(1)]] t by (simp add: list_all2_appendI del: input_at.simps)
  have new: "DBImpl_newIterator False options ?d env = Some (Inr ?it)"
    using rv(1,2) i(2) concat_version_levels [OF v] by (simp add: DBImpl_newIterator_def Let_def)
  have d: "distinct (map fst (concat ?ess))" by (rule distinct_layers [OF i(1)])
  let ?es = "merge_all ?ess"
  have "\<forall>l \<in> set ?ess. sorted_entries l" using db_repD(1) [OF i(1)] version_sorted [OF v] by auto
  from merge_all_of [OF this d] have es1: "sorted_entries ?es" "set ?es = set (concat ?ess)"
    unfolding merge_of_def by (blast dest: mset_eq_setD)+
  have "\<Union> (set ` set (concat lls)) = \<Union> (set ` set (layers lls))"
    using all_entries_layers [of lls] v by (simp add: all_entries_def version_rep_def)
  then have es: "set ?es = \<Union> (set ` set (ms # ims @ layers lls))" unfolding es1(2) by simp
  have look: "lookup_in ?es k q = Found x \<longleftrightarrow> db_map (take (unat q) ops) k = Some x" for k x
    using stackedD [OF i(3)] rv(3) lookup_layers_merged [OF db_repD(2,1) [OF i(1)] es1(1) es, of k q]
    unfolding holds_def history_map [OF i(6)] by metis
  have kvs: "\<forall>k x. (k, x) \<in> set (db_view ?es q) \<longleftrightarrow> db_map (take (unat q) ops) k = Some x"
    using db_iterator_views [OF children d q56 target] look by (simp add: Let_def)
  note views = db_iterator_views [OF children d q56 target, unfolded Let_def]
  show ?thesis
    by (rule exI [of _ ?it], rule exI [of _ "length ?es"], rule exI [of _ "db_view ?es q"], intro conjI)
      (fact new kvs conjunct1 [OF conjunct2 [OF conjunct2 [OF views]]] conjunct1 [OF views]
        conjunct1 [OF conjunct2 [OF views]])+
qed

subsection \<open>A new database\<close>

lemma env_wal_open_bad: "env_wal_open p env = (Inl status, env') \<Longrightarrow> \<not> status_ok status"
  by (auto simp: env_wal_open_def WalWriter_open_def split: prod.splits option.splits)

lemma initialize_Inr:
  assumes "DBImpl_initializeNewDatabase ls files d env = (status, d', env')" "status_ok status"
    and "ms_levels (db_manifest d) = replicate kNumLevels []"
  obtains wal env1 env2 where
    "env_wal_open (walFileName (db_directory d) (db_next_file_number d)) env = (Inr wal, env1)"
    "d' = d\<lparr>db_next_file_number := db_next_file_number d + 1, db_wal := Some wal, db_wal_number := db_next_file_number d,
       db_manifest := (db_manifest d)\<lparr>ms_oldest_wal_number := db_next_file_number d\<rparr>,
       db_current_version := Some \<lparr>ver_levels = replicate kNumLevels []\<rparr>\<rparr>"
    "\<exists>st. status_ok st \<and> writeManifest (manifestFileName (db_directory d)) (manifestTemporaryFileName (db_directory d))
       ((db_manifest d)\<lparr>ms_oldest_wal_number := db_next_file_number d\<rparr>) env1 = (st, env2)"
    "dc_wal_numbers files = []" "\<not> dc_has_sstable files"
    "env' = removeObsoleteSSTableFilesBestEffort ls (db_directory d) (db_manifest d') env2"
proof -
  let ?n = "db_next_file_number d" and ?dir = "db_directory d"
  let ?m = "(db_manifest d)\<lparr>ms_oldest_wal_number := ?n\<rparr>"
  obtain r env1 where w: "env_wal_open (walFileName ?dir ?n) env = (r, env1)" by fastforce
  obtain st env2 where m: "writeManifest (manifestFileName ?dir) (manifestTemporaryFileName ?dir) ?m env1 = (st, env2)" by fastforce
  have v: "Version_open ?dir ?m env2 = (Inr \<lparr>ver_levels = replicate kNumLevels []\<rparr>, env2)"
    using assms(3) by (simp add: Version_open_def level_consts numeral_3_eq_3)
  have f: "dc_wal_numbers files = []" "\<not> dc_has_sstable files"
    using assms(1,2) by (cases "dc_wal_numbers files \<noteq> [] \<or> dc_has_sstable files";
        auto simp: DBImpl_initializeNewDatabase_def)+
  show ?thesis
  proof (cases r)
    case (Inl s)
    then show ?thesis using assms(1,2) f w env_wal_open_bad [OF w [unfolded Inl]]
      by (simp add: DBImpl_initializeNewDatabase_def Let_def)
  next
    case (Inr wal)
    have st: "status_ok st"
      using assms(1,2) f w m Inr by (cases "status_ok st") (simp_all add: DBImpl_initializeNewDatabase_def Let_def)
    then show ?thesis
      using assms(1,2) f w m Inr v
      by (intro that [of wal env1 env2]) (auto simp: DBImpl_initializeNewDatabase_def DBImpl_loadVersion_def Let_def)
  qed
qed

lemma lock_files:
  assumes "acquireDatabaseLock fd answer dir lock env = (status, lock', env')"
  shows "env_files env' = env_files env \<or> (\<exists>c. env_files env' = (env_files env)(lockFileName dir \<mapsto> c))"
  using assms call_files [of env]
  by (auto simp: acquireDatabaseLock_def sys_open_create_def put_file_def Let_def split: prod.splits option.splits if_splits)

lemma open_Inr:
  assumes "DBImpl_open nb ls id1 answers False options dir env = Some (Inr d, env')"
  obtains lock env1 files env2 has env3 where
    "env_files env1 = env_files env \<or> (\<exists>c. env_files env1 = (env_files env)(lockFileName dir \<mapsto> c))"
    "scanDatabaseDirectory ls dir env1 = (Inr files, env2)" "dc_maximum_number files \<noteq> - 1"
    "sys_exists (manifestFileName dir) env2 = (Inr has, env3)"
    "\<exists>status. status_ok status \<and>
      (if has then DBImpl_recoverDatabase nb ls files ((DBImpl_new nb id1)\<lparr>db_lock := lock, db_options := options,
           db_directory := dir, db_next_file_number := dc_maximum_number files + 1\<rparr>) env3
       else Some (DBImpl_initializeNewDatabase ls files ((DBImpl_new nb id1)\<lparr>db_lock := lock, db_options := options,
           db_directory := dir, db_next_file_number := dc_maximum_number files + 1\<rparr>) env3)) = Some (status, d, env')"
proof -
  let ?prep = "prepareDatabaseDirectory (oa_exists answers) (oa_is_directory answers) (oa_create answers) (do_open_mode options) dir"
  obtain st lock env1 where a: "acquireDatabaseLock (oa_fd answers) (oa_flock answers) dir (db_lock (DBImpl_new nb id1)) env = (st, lock, env1)"
    by (rule prod_cases3)
  obtain r env2 where sc: "scanDatabaseDirectory ls dir env1 = (r, env2)" by fastforce
  obtain e env3 where ex: "sys_exists (manifestFileName dir) env2 = (e, env3)" by fastforce
  have ok: "status_ok ?prep" "status_ok st" "do_write_buffer_size options \<noteq> 0"
    using assms a by (auto simp: DBImpl_open_def Let_def split: if_splits)
  obtain files where fl: "r = Inr files" "dc_maximum_number files \<noteq> - 1"
    using assms a sc ok by (cases r) (auto simp: DBImpl_open_def Let_def split: if_splits)
  obtain has where has: "e = Inr has" using assms a sc ok fl ex by (cases e) (auto simp: DBImpl_open_def Let_def)
  let ?d = "(DBImpl_new nb id1)\<lparr>db_lock := lock, db_options := options, db_directory := dir,
    db_next_file_number := dc_maximum_number files + 1\<rparr>"
  let ?run = "if has then DBImpl_recoverDatabase nb ls files ?d env3 else Some (DBImpl_initializeNewDatabase ls files ?d env3)"
  obtain status d1 env4 where run: "?run = Some (status, d1, env4)"
    using assms a sc ok fl ex has by (cases ?run) (auto simp: DBImpl_open_def Let_def)
  have "status_ok status" "d1 = d" "env4 = env'"
    using assms a sc ok fl ex has run by (auto simp: DBImpl_open_def Let_def split: if_splits option.splits)
  then show ?thesis
    using that [OF lock_files [OF a] sc [unfolded fl(1)] fl(2) ex [unfolded has], of lock] run by blast
qed

lemma scan_files: "scanDatabaseDirectory ls dir env = (r, env') \<Longrightarrow> env_files env' = env_files env"
  using call_files [of env] by (auto simp: scanDatabaseDirectory_def sys_list_directory_def Let_def split: prod.splits option.splits)

lemma fresh_open:
  assumes "DBImpl_open nb ls id1 answers False options dir env = Some (Inr d, env')" "env_files env (manifestFileName dir) = None"
  obtains lock wal n where "d = (DBImpl_new nb id1)\<lparr>db_lock := lock, db_options := options, db_directory := dir,
      db_next_file_number := n + 1, db_wal := Some wal, db_wal_number := n,
      db_manifest := ManifestState_new\<lparr>ms_oldest_wal_number := n\<rparr>,
      db_current_version := Some \<lparr>ver_levels = replicate kNumLevels []\<rparr>\<rparr>"
  using assms(1)
proof (cases rule: open_Inr)
  case (1 lock env1 files env2 has env3)
  have none: "env_files env2 (manifestFileName dir) = None" using 1(1) scan_files [OF 1(2)] assms(2) manifest_names(3) [of dir, symmetric] by auto
  have "\<not> has" using 1(4) none call_files [of env2] by (auto simp: sys_exists_def split: prod.splits option.splits if_splits)
  then obtain status where s: "status_ok status" "DBImpl_initializeNewDatabase ls files ((DBImpl_new nb id1)\<lparr>db_lock := lock,
      db_options := options, db_directory := dir, db_next_file_number := dc_maximum_number files + 1\<rparr>) env3 = (status, d, env')"
    using 1(5) by auto
  have "ms_levels (db_manifest (DBImpl_new nb id1)) = replicate kNumLevels []"
    by (simp add: DBImpl_new_def ManifestState_new_def)
  then show ?thesis
    using initialize_Inr [OF s(2,1)] that [where lock = lock and n = "dc_maximum_number files + 1"] by (fastforce simp: DBImpl_new_def)
qed

lemma fresh_inv:
  assumes good: "good_new nb" and o: "DBImpl_open nb ls id1 answers False options dir env = Some (Inr d, env')"
    and new: "env_files env (manifestFileName dir) = None"
  shows "sys_inv [] {#} \<lparr>sy_db = d, sy_files = F, sy_job = Idle\<rparr>"
proof -
  let ?v = "\<lparr>ver_levels = replicate kNumLevels []\<rparr>" and ?lls = "replicate kNumLevels ([] :: entry list list)"
  obtain lock wal n where d: "d = (DBImpl_new nb id1)\<lparr>db_lock := lock, db_options := options, db_directory := dir,
      db_next_file_number := n + 1, db_wal := Some wal, db_wal_number := n,
      db_manifest := ManifestState_new\<lparr>ms_oldest_wal_number := n\<rparr>, db_current_version := Some ?v\<rparr>"
    by (rule fresh_open [OF o new])
  have l: "layers ?lls = [[], []]" by (simp add: level_consts numeral_3_eq_3)
  have v: "version_rep ?v ?lls" "version_inv ?lls"
    by (simp_all add: version_rep_def version_inv_def l user_disjoint_def level_consts numeral_3_eq_3)
     (simp_all add: newest_first_def)
  have "db_rep d [] [] ?lls"
    using v memtable_new_rep [OF good] by (simp add: d DBImpl_new_def db_rep_def l) (simp add: newest_first_def)
  moreover have "stacked [] 0 d [] [] ?lls" by (simp add: stacked_def holds_def l d DBImpl_new_def ManifestState_new_def)
  ultimately show ?thesis
    by (intro sys_invI [of _ "[]" "[]" ?lls ?v _ 0]) (simp_all add: d DBImpl_new_def snapshots_ok_def tracks_new)
qed

lemma fresh_idle:
  assumes "DBImpl_open nb ls id1 answers False options dir env = Some (Inr d, env')" "env_files env (manifestFileName dir) = None"
  shows "compact_pick (DBImpl_shutdown d) = None"
proof (rule fresh_open [OF assms])
  fix lock wal n
  assume "d = (DBImpl_new nb id1)\<lparr>db_lock := lock, db_options := options, db_directory := dir,
      db_next_file_number := n + 1, db_wal := Some wal, db_wal_number := n,
      db_manifest := ManifestState_new\<lparr>ms_oldest_wal_number := n\<rparr>,
      db_current_version := Some \<lparr>ver_levels = replicate kNumLevels []\<rparr>\<rparr>"
  then show ?thesis
    by (simp add: compact_pick_def DBImpl_shutdown_def pickCompaction_def levelAtLimit_def Version_level_def level_consts
        numeral_3_eq_3 CompactionOptions_default_def kLevel0CompactionTrigger_def kLevel1CompactionBytes_def)
qed

lemmas fresh_run = runs_inv [OF _ _ fresh_inv, unfolded append_Nil]

subsection \<open>What a snapshot sees\<close>

lemma runs_split:
  assumes "db_runs nb ls s (evs @ ev # evs') u"
  shows "\<exists>t t'. db_runs nb ls s evs t \<and> db_step nb ls t ev t'"
  using assms
proof (induction evs' arbitrary: u rule: rev_induct)
  case Nil
  then show ?case by (cases rule: db_runs.cases) auto
next
  case (snoc e evs')
  from snoc.prems obtain t where "db_runs nb ls s (evs @ ev # evs') t"
    by (cases rule: db_runs.cases) (auto simp flip: append_Cons append_assoc)
  then show ?case by (rule snoc.IH)
qed

lemma acquired_sequence:
  assumes "db_step nb ls t (Acquired q) t'"
  shows "q = db_last_sequence (sy_db t)"
  using assms by cases (auto simp: DBImpl_newSnapshot_def SnapshotImpl_new_def split: if_splits sum.splits)

text \<open>The operations that a snapshot shows are those acknowledged before it was taken.\<close>

lemma snapshot_prefix:
  assumes good: "good_new nb" and inv: "sys_inv [] {#} s" and r: "db_runs nb ls s (evs @ Acquired q # evs') u"
    and len: "length (acknowledged (evs @ Acquired q # evs')) + 1 < 2 ^ 56"
  shows "take (unat q) (acknowledged (evs @ Acquired q # evs')) = acknowledged evs"
proof -
  obtain t t' where t: "db_runs nb ls s evs t" "db_step nb ls t (Acquired q) t'" using runs_split [OF r] by blast
  have "length (acknowledged evs) + 1 < 2 ^ 56" using len by (simp add: acknowledged_def)
  then have "sys_inv (acknowledged evs) (live_snapshots evs) t" using runs_inv [OF good t(1) inv] by simp
  then have "unat q = length (acknowledged evs)" using acquired_sequence [OF t(2)] by (auto elim: sys_invE)
  then show ?thesis by (simp add: acknowledged_def)
qed

end
