(* ===== verification/DBLive.thy ===== *)
theory DBLive
  imports DBReads
begin

text \<open>
  Progress: in an environment without errors (\<open>quiet\<close>) an empty directory can be opened, a write
  returns unless it has to wait for a flush, and the flush that it waits for ends.
\<close>

subsection \<open>The log\<close>

lemma quiet_wal_open:
  assumes "quiet_at F env"
  shows "\<exists>env'. env_wal_open p env = (Inr \<lparr>ww_path = p, ww_error = success\<rparr>, env') \<and>
    quiet_at (F(p \<mapsto> (case F p of None \<Rightarrow> [] | Some c \<Rightarrow> c))) env'"
proof -
  obtain env1 where c: "sys_call env = (None, env1)" "quiet_at F env1" using quiet_sys_call [OF assms] by blast
  then show ?thesis by (auto simp: env_wal_open_def WalWriter_open_def quiet_at_def quiet_def)
qed

lemma append_benign:
  assumes "benign as" "status_ok (ww_error w)" "wal_payload_ok p"
  shows "\<exists>as'. WalWriter_append as p w log = (success, w, log @ wal_record p, as') \<and> benign as'"
proof -
  define h where "h = encodeFixed32 (of_nat (length p)) @ encodeFixed32 (crc32c p)"
  obtain as1 where 1: "write_loop as h log = (None, log @ h, as1)" "benign as1" using write_loop_benign [OF assms(1)] by blast
  obtain as2 where 2: "write_loop as1 p (log @ h) = (None, (log @ h) @ p, as2)" "benign as2" using write_loop_benign [OF 1(2)] by blast
  have "putFixed32 (putFixed32 [] (of_nat (length p))) (crc32c p) = h" "wal_record p = h @ p"
    by (simp_all add: putFixed32_def h_def wal_record_def)
  then show ?thesis
    using 1 2 assms(2,3) by (simp add: WalWriter_append_def WalWriter_writeAll_def wal_payload_ok_def)
qed

lemma quiet_wal_append:
  assumes "quiet_at F env" "status_ok (ww_error w)" "wal_payload_ok p"
  shows "\<exists>env'. env_wal_append p w env = (success, w, env') \<and>
    quiet_at (F(ww_path w \<mapsto> (case F (ww_path w) of None \<Rightarrow> [] | Some log \<Rightarrow> log) @ wal_record p)) env'"
  using append_benign [OF _ assms(2,3), of "env_io env" "case F (ww_path w) of None \<Rightarrow> [] | Some log \<Rightarrow> log"] assms(1)
  by (auto simp: env_wal_append_def quiet_at_def quiet_def)

lemma sync_loop_quiet: "set as \<subseteq> {EINTR} \<Longrightarrow> sync_loop as = (None, [])"
  by (induction as) auto

lemma quiet_wal_sync:
  assumes "quiet_at F env" "status_ok (ww_error w)"
  shows "\<exists>env'. env_wal_sync w env = (success, w, env') \<and> quiet_at F env'"
  using assms sync_loop_quiet [of "env_sync env"] by (auto simp: env_wal_sync_def WalWriter_sync_def quiet_at_def quiet_def)

lemma batch_payload_ok:
  assumes "batch_fits b s"
  shows "wal_payload_ok (batch_payload b s)"
proof -
  have "length (batch_payload b s) \<noteq> 0" by (simp add: kBatchHeaderSize_def)
  then have "batch_payload b s \<noteq> []" by (metis list.size(3))
  then show ?thesis using assms by (simp add: wal_payload_ok_def batch_fits_def batch_consts)
qed

subsection \<open>Writing\<close>

lemma write_returns:
  assumes good: "good_new nb" and rep: "db_rep d1 ms ims lls" and seq: "\<forall>l \<in> set (ms # ims @ layers lls). \<forall>e \<in> set l. entry_seq e \<le> db_last_sequence d1"
    and room: "DBImpl_makeRoomForWrite nb d env = Some (status, d1, env1)" "status_ok status" "quiet_at F env1"
    and wal: "db_wal d1 = Some w" "status_ok (ww_error w)"
    and fits: "batch_fits batch (db_last_sequence d1 + 1)"
  shows "\<exists>d' env'. DBImpl_write nb options batch d env = Some (success, d', env') \<and> quiet env'"
proof -
  let ?q = "db_last_sequence d1"
  note ok = number_ops_ok [OF fits]
  have "unat (?q + 1) = unat ?q + 1"
  proof -
    have "0 < unat (?q + 1)" using fits valid_range_nat by (auto simp: batch_fits_def)
    moreover have "unat ?q < 2 ^ 64" using unsigned_less [of ?q] by simp
    ultimately show ?thesis by (simp add: unat_plus_if' split: if_splits)
  qed
  then have "\<forall>op \<in> set (number_ops (?q + 1) batch). \<forall>e \<in> set ms. entry_seq e < fst op"
    using ok(3) seq by (fastforce simp: word_le_nat_alt word_less_nat_alt)
  from memtable_adds_rep [OF good db_repD(5) [OF rep] ok(1,2) this] obtain mt where
    mt: "memtable_adds nb (number_ops (?q + 1) batch) (db_memtable d1) = Some mt" by blast
  obtain env2 where a: "env_wal_append (batch_payload batch (?q + 1)) w env1 = (success, w, env2)" "quiet_at (env_files env2) env2"
    using quiet_wal_append [OF room(3) wal(2) batch_payload_ok [OF fits]] by (auto simp: quiet_at_def)
  obtain env3 where s: "env_wal_sync w env2 = (success, w, env3)" "quiet_at (env_files env2) env3"
    using quiet_wal_sync [OF a(2) wal(2)] by blast
  have "batch \<noteq> []" "WriteBatchCodec_encode batch (?q + 1) = Inr (batch_payload batch (?q + 1))"
    using fits by (simp_all add: batch_fits_def encode_batch_Inr)
  then show ?thesis
    using room(1,2) wal(1) a s mt
    by (cases "wo_durability options = kSync")
      (auto simp: DBImpl_write_def WriteBatch_empty_def Let_def DBImpl_applyBatch_def apply_operations_adds quiet_at_def)
qed

text \<open>Making room fails in no other way than by waiting for the flush of the immutable memtable.\<close>

lemma quiet_room:
  assumes "quiet env" "status_ok (db_background_error d)" "db_next_file_number d \<le> - 1 - 2"
    and "db_wal d = Some w" "status_ok (ww_error w)"
  shows "(case DBImpl_makeRoomForWrite nb d env of
      None \<Rightarrow> db_immutable d \<noteq> None \<and> do_write_buffer_size (db_options d) \<le> MemTable_memoryUsage (db_memtable d)
    | Some (status, d1, env1) \<Rightarrow> status_ok status \<and> quiet env1 \<and> (\<exists>w'. db_wal d1 = Some w' \<and> status_ok (ww_error w')))"
proof (cases "MemTable_empty (db_memtable d) \<or> MemTable_memoryUsage (db_memtable d) < do_write_buffer_size (db_options d)")
  case True
  then show ?thesis using assms by (simp add: DBImpl_makeRoomForWrite_def)
next
  case False
  obtain env1 where "env_wal_open (walFileName (db_directory d) (db_next_file_number d + 1)) env =
      (Inr \<lparr>ww_path = walFileName (db_directory d) (db_next_file_number d + 1), ww_error = success\<rparr>, env1)" "quiet env1"
    using quiet_wal_open [OF quiet_at_self [THEN iffD2, OF assms(1)]] by (auto simp: quiet_at_def)
  moreover have "\<not> db_next_file_number d > - 1 - 2" using assms(3) by simp
  ultimately show ?thesis
    using False assms(2) by (auto simp: DBImpl_makeRoomForWrite_def DBImpl_rotateMemTable_def Let_def)
qed

lemma inv_write_progress:
  assumes good: "good_new nb" and inv: "sys_inv ops m s" and env: "quiet env"
    and run: "status_ok (db_background_error (sy_db s))" "db_next_file_number (sy_db s) \<le> - 1 - 2"
      "db_wal (sy_db s) = Some w" "status_ok (ww_error w)"
    and fits: "batch_fits batch (db_last_sequence (sy_db s) + 1)"
  shows "(case DBImpl_write nb options batch (sy_db s) env of
      None \<Rightarrow> db_immutable (sy_db s) \<noteq> None \<and>
        do_write_buffer_size (db_options (sy_db s)) \<le> MemTable_memoryUsage (db_memtable (sy_db s))
    | Some (status, d', env') \<Rightarrow> status_ok status \<and> quiet env')"
proof (cases "DBImpl_makeRoomForWrite nb (sy_db s) env")
  case None
  then show ?thesis
    using quiet_room [OF env run, of nb] fits by (simp add: DBImpl_write_def WriteBatch_empty_def batch_fits_def)
next
  case (Some x)
  obtain status d1 env1 where x: "x = (status, d1, env1)" by (rule prod_cases3)
  obtain w' where w': "status_ok status" "quiet env1" "db_wal d1 = Some w'" "status_ok (ww_error w')"
    using quiet_room [OF env run, of nb] Some x by auto
  obtain low ms ims lls v where i: "db_rep (sy_db s) ms ims lls" "job_ok low v (sy_db s) ims lls (sy_job s)"
    "stacked ops low (sy_db s) ms ims lls" "unat (db_last_sequence (sy_db s)) = length ops"
    using inv unfolding sys_inv_def by (elim exE conjE)
  note r = room_inv [OF good i(1) Some [unfolded x] i(3,2,4)]
  obtain ms' ims' where r': "db_rep d1 ms' ims' lls" "stacked ops low d1 ms' ims' lls" using r(1) by blast
  have "\<forall>l \<in> set (ms' # ims' @ layers lls). \<forall>e \<in> set l. entry_seq e \<le> db_last_sequence d1"
    using stackedD [OF r'(2)] unfolding holds_def by blast
  from write_returns [OF good r'(1) this Some [unfolded x] w'(1) quiet_at_self [THEN iffD2, OF w'(2)] w'(3,4), of batch options]
  obtain d' env' where "DBImpl_write nb options batch (sy_db s) env = Some (success, d', env')" "quiet env'"
    using fits r(2) by auto
  then show ?thesis by simp
qed

subsection \<open>Opening\<close>

text \<open>A directory that exists, whose lock is free, and a thread that starts.\<close>

definition smooth_answers :: OpenAnswers where
  "smooth_answers = \<lparr>oa_exists = Inr True, oa_is_directory = Inr True, oa_create = None, oa_fd = 3, oa_flock = None, oa_thread = None\<rparr>"

lemma quiet_lock:
  assumes "quiet_at F env"
  shows "\<exists>lock env'. acquireDatabaseLock fd None dir l env = (success, lock, env') \<and>
    quiet_at (F(lockFileName dir \<mapsto> (case F (lockFileName dir) of None \<Rightarrow> [] | Some c \<Rightarrow> c))) env'"
  using quiet_sys_open_create [OF assms, of "lockFileName dir"]
  by (auto simp: acquireDatabaseLock_def Let_def split: prod.splits)

lemma new_manifest_ok: "n \<noteq> 0 \<Longrightarrow> manifest_ok (ManifestState_new\<lparr>ms_oldest_wal_number := n\<rparr>)"
  by (simp add: manifest_ok_def ManifestState_new_def level_consts numeral_3_eq_3 ranges_disjoint_def kMaxSequenceNumber_def)

lemma new_manifest_size: "length (manifest_bytes 3 (ManifestState_new\<lparr>ms_oldest_wal_number := n\<rparr>)) \<le> kMaximumManifestSize"
  by (simp add: manifest_bytes_def manifest_contents_def ManifestState_new_def level_consts numeral_3_eq_3 level_bytes_def
      kMaximumManifestSize_def)

lemma quiet_removes:
  assumes "quiet env"
  shows "quiet (removeObsoleteSSTableFilesBestEffort ls d m env)" "quiet (removeObsoleteWalFilesBestEffort ls d n env)"
proof -
  obtain env1 where c: "sys_call env = (None, env1)" "quiet env1"
    using quiet_sys_call [OF quiet_at_self [THEN iffD2, OF assms]] by (auto simp: quiet_at_def)
  have r: "quiet (remove_if P ps env1)" for P ps
    using quiet_remove_if [OF quiet_at_self [THEN iffD2, OF c(2)]] by (auto simp: quiet_at_def)
  show "quiet (removeObsoleteSSTableFilesBestEffort ls d m env)" "quiet (removeObsoleteWalFilesBestEffort ls d n env)"
    using c r by (simp_all add: removeObsoleteWalFilesBestEffort_def removeObsoleteSSTableFilesBestEffort_def
        sys_list_directory_def remove_wals_if remove_sstables_if)
qed

lemma distinct_subset_singleton: "distinct xs \<Longrightarrow> set xs \<subseteq> {x} \<Longrightarrow> xs = [] \<or> xs = [x]"
  by (cases xs; cases "tl xs") auto

lemma quiet_new_database:
  assumes "quiet_at Map.empty env" "dir \<noteq> []" "do_write_buffer_size options \<noteq> 0" "do_open_mode options = kOpenOrCreate"
    "good_lister ls"
  shows "\<exists>d env'. DBImpl_open nb ls id1 smooth_answers False options dir env = Some (Inr d, env') \<and> quiet env' \<and>
    db_wal d = Some \<lparr>ww_path = walFileName dir 1, ww_error = success\<rparr> \<and> db_background_error d = success \<and>
    db_next_file_number d = 2 \<and> db_last_sequence d = 0 \<and> db_immutable d = None"
proof -
  let ?lock = "lockFileName dir"
  obtain lock env1 where l: "acquireDatabaseLock 3 None dir (db_lock (DBImpl_new nb id1)) env = (success, lock, env1)"
    "quiet_at [?lock \<mapsto> []] env1" using quiet_lock [OF assms(1)] by fastforce
  obtain env2 where c: "sys_call env1 = (None, env2)" "quiet_at [?lock \<mapsto> []] env2" using quiet_sys_call [OF l(2)] by blast
  have "set (ls dir [?lock \<mapsto> []]) \<subseteq> {?lock}" using assms(5) by (auto simp: good_lister_def)
  moreover have "distinct (ls dir [?lock \<mapsto> []])" using assms(5) by (simp add: good_lister_def)
  ultimately have lst: "ls dir [?lock \<mapsto> []] = [] \<or> ls dir [?lock \<mapsto> []] = [?lock]"
    by (rule distinct_subset_singleton [rotated])
  have "parseNumberedFileName ?lock = None" by simp
  then have sc: "scanDatabaseDirectory ls dir env1 = (Inr \<lparr>dc_wal_numbers = [], dc_has_sstable = False, dc_maximum_number = 0\<rparr>, env2)"
    using c lst by (auto simp: scanDatabaseDirectory_def sys_list_directory_def quiet_at_def Let_def)
  obtain env3 where ex: "sys_exists (manifestFileName dir) env2 = (Inr False, env3)" "quiet_at [?lock \<mapsto> []] env3"
    using quiet_sys_exists [OF c(2), of "manifestFileName dir"] manifest_names(3) [of dir, symmetric] by auto
  obtain env4 where w: "env_wal_open (walFileName dir 1) env3 = (Inr \<lparr>ww_path = walFileName dir 1, ww_error = success\<rparr>, env4)"
    "quiet env4" using quiet_wal_open [OF ex(2)] by (auto simp: quiet_at_def)
  obtain st env5 where m: "writeManifest (manifestFileName dir) (manifestTemporaryFileName dir)
      (ManifestState_new\<lparr>ms_oldest_wal_number := 1\<rparr>) env4 = (st, env5)" by fastforce
  have levels: "length (ms_levels (ManifestState_new\<lparr>ms_oldest_wal_number := 1\<rparr>)) = kNumLevels"
    by (simp add: ManifestState_new_def)
  have st: "status_ok st" "quiet env5"
    using writeManifest_outcome(3) [OF m _ levels] w(2) new_manifest_ok [of 1] new_manifest_size by auto
  have v: "Version_open dir (ManifestState_new\<lparr>ms_oldest_wal_number := 1\<rparr>) env5 = (Inr \<lparr>ver_levels = replicate kNumLevels []\<rparr>, env5)"
    by (simp add: Version_open_def ManifestState_new_def level_consts numeral_3_eq_3)
  have p: "prepareDatabaseDirectory (Inr True) (Inr True) None kOpenOrCreate dir = success"
    using assms(2) by (simp add: prepareDatabaseDirectory_def)
  show ?thesis
    using l sc ex w m st v p assms(3,4)
    by (auto simp: DBImpl_open_def smooth_answers_def Let_def DBImpl_initializeNewDatabase_def DBImpl_new_def
        DBImpl_loadVersion_def quiet_removes)
qed

text \<open>A new database with one acknowledged write, on which the properties are instantiated.\<close>

definition sample_env :: Env where
  "sample_env = \<lparr>env_files = Map.empty, env_io = [], env_sync = [], env_call = []\<rparr>"

definition sample_batch :: WriteBatch where
  "sample_batch = WriteBatch_put [] [0x6b] [0x76]"

lemma sample_open:
  obtains d env where "DBImpl_open next_block sorted_lister 0 smooth_answers False DBOptions_default ''db'' sample_env = Some (Inr d, env)"
    "quiet env" "db_wal d = Some \<lparr>ww_path = walFileName ''db'' 1, ww_error = success\<rparr>" "db_background_error d = success"
    "db_next_file_number d = 2" "db_last_sequence d = 0" "db_immutable d = None"
    "env_files sample_env (manifestFileName ''db'') = None"
  using quiet_new_database [of sample_env "''db''" DBOptions_default sorted_lister next_block 0] good_sorted_lister
  by (auto simp: quiet_at_def quiet_def sample_env_def DBOptions_default_def)

lemma sample_batch_fits: "batch_fits sample_batch 1"
  by (simp add: batch_fits_def sample_batch_def WriteBatch_put_def hasValidSequenceRange_def op_size_def batch_consts
      kMaxSequenceNumber_def)

lemma sample_facts:
  "acknowledged [Wrote sample_batch] = sample_batch" "length sample_batch = 1"
  "db_map sample_batch = [[0x6b] \<mapsto> [0x76]]"
  by (simp add: acknowledged_def, simp_all add: sample_batch_def WriteBatch_put_def db_map_def)

lemma sample_run:
  obtains d env status d' env' where
    "DBImpl_open next_block sorted_lister 0 smooth_answers False DBOptions_default ''db'' sample_env = Some (Inr d, env)"
    "DBImpl_write next_block WriteOptions_default sample_batch d env = Some (status, d', env')" "status_ok status" "quiet env'"
    "db_runs next_block sorted_lister \<lparr>sy_db = d, sy_files = env_files env, sy_job = Idle\<rparr> [Wrote sample_batch]
       \<lparr>sy_db = d', sy_files = env_files env', sy_job = Idle\<rparr>"
    "env_files sample_env (manifestFileName ''db'') = None" "db_last_sequence d' = 1"
proof -
  obtain d env where o: "DBImpl_open next_block sorted_lister 0 smooth_answers False DBOptions_default ''db'' sample_env = Some (Inr d, env)"
    "quiet env" "db_wal d = Some \<lparr>ww_path = walFileName ''db'' 1, ww_error = success\<rparr>" "db_background_error d = success"
    "db_next_file_number d = 2" "db_last_sequence d = 0" "db_immutable d = None"
    "env_files sample_env (manifestFileName ''db'') = None" by (rule sample_open)
  let ?s = "\<lparr>sy_db = d, sy_files = env_files env, sy_job = Idle\<rparr>"
  have inv: "sys_inv [] {#} ?s" by (rule fresh_inv [OF good_next_block o(1,8)])
  from inv_write_progress [OF good_next_block inv o(2), of _ sample_batch WriteOptions_default] o(3-7) sample_batch_fits
  obtain status d' env' where w: "DBImpl_write next_block WriteOptions_default sample_batch d env = Some (status, d', env')"
    "status_ok status" "quiet env'" by (auto split: option.splits)
  let ?t = "\<lparr>sy_db = d', sy_files = env_files env', sy_job = Idle\<rparr>"
  have "db_step next_block sorted_lister ?s (Wrote sample_batch) ?t"
    using db_step.client_write [of env ?s sample_batch next_block WriteOptions_default status d' env'] w(1,2)
    by (simp add: sample_batch_def WriteBatch_put_def wf_op_def)
  from db_runs.step [OF db_runs.start this] have r: "db_runs next_block sorted_lister ?s [Wrote sample_batch] ?t" by simp
  have "sys_inv sample_batch {#} ?t"
    using runs_inv [OF good_next_block r inv]
    by (simp add: acknowledged_def live_snapshots_def) (simp add: sample_batch_def WriteBatch_put_def)
  then have "unat (db_last_sequence d') = 1"
    by (auto elim!: sys_invE simp: sample_batch_def WriteBatch_put_def)
  then have "db_last_sequence d' = 1" by (simp add: word_unat_eq_iff)
  then show ?thesis using that o(1,8) w r by blast
qed

end
