(* ===== verification/DBRecover.thy ===== *)
theory DBRecover
  imports DBLive
begin

text \<open>
  Recovery.  Whatever the files of a directory hold and whatever the system calls answer, replaying
  the logs ends and adds to the memtable exactly the operations of the batches that were read.
\<close>

subsection \<open>Replaying records\<close>

text \<open>The memtable of a database under recovery holds the operations after \<open>base\<close>.\<close>

definition replayed :: "SequenceNumber \<Rightarrow> Operation list \<Rightarrow> DBImpl \<Rightarrow> bool" where
  "replayed base ops d \<longleftrightarrow> (\<exists>ms. memtable_rep (db_memtable d) ms \<and> set ms = op_entry ` set (number_ops (base + 1) ops)) \<and>
     unat (db_last_sequence d) = unat base + length ops \<and> unat base + length ops < 2 ^ 56 \<and>
     (\<forall>op \<in> set (number_ops (base + 1) ops). ok_op op)"

lemma replayed_new:
  "good_new nb \<Longrightarrow> db_memtable d = MemTable_new nb \<Longrightarrow> db_last_sequence d = base \<Longrightarrow> unat base < 2 ^ 56 \<Longrightarrow> replayed base [] d"
  using memtable_new_rep by (auto simp: replayed_def intro!: exI [of _ "[]"])

lemma replayed_batch:
  assumes good: "good_new nb" and r: "replayed base ops d" and fits: "batch_fits batch (db_last_sequence d + 1)"
  shows "\<exists>d'. DBImpl_applyBatch nb batch (db_last_sequence d + 1) d = Some d' \<and>
    replayed base (ops @ batch) (d'\<lparr>db_last_sequence := db_last_sequence d' + of_nat (WriteBatch_count batch)\<rparr>) \<and>
    (\<exists>mt. d' = d\<lparr>db_memtable := mt\<rparr>)"
proof -
  let ?q = "db_last_sequence d"
  obtain ms where ms: "memtable_rep (db_memtable d) ms" "set ms = op_entry ` set (number_ops (base + 1) ops)"
    and u: "unat ?q = unat base + length ops" "unat base + length ops < 2 ^ 56"
    and old: "\<forall>op \<in> set (number_ops (base + 1) ops). ok_op op" using r by (auto simp: replayed_def)
  note ok = number_ops_ok [OF fits]
  have range: "unat (?q + 1) + length batch \<le> 2 ^ 56" using fits valid_range_nat by (auto simp: batch_fits_def)
  have q1: "unat (?q + 1) = unat ?q + 1" using u by (simp add: unat_plus_if')
  have last: "unat (?q + of_nat (length batch)) = unat ?q + length batch"
    using range q1 by (simp add: unat_plus_if' unat_u64)
  have "unat (base + 1) = unat base + 1" using u(2) by (simp add: unat_plus_if')
  then have n: "map (\<lambda>op. unat (fst op)) (number_ops (base + 1) ops) = [unat base + 1..<unat base + 1 + length ops]"
    using number_ops_numbers [of "base + 1" ops] u(2) by simp
  have seq: "unat (fst op) \<le> unat ?q" if "op \<in> set (number_ops (base + 1) ops)" for op
  proof -
    have "unat (fst op) \<in> set (map (\<lambda>op. unat (fst op)) (number_ops (base + 1) ops))" using that by simp
    then show ?thesis unfolding n using u(1) by auto
  qed
  have later: "\<forall>op \<in> set (number_ops (?q + 1) batch). \<forall>e \<in> set ms. entry_seq e < fst op"
  proof (intro ballI)
    fix op e assume "op \<in> set (number_ops (?q + 1) batch)" "e \<in> set ms"
    then obtain o1 where "unat ?q < unat (fst op)" "e = op_entry o1" "o1 \<in> set (number_ops (base + 1) ops)"
      using ok(3) q1 ms(2) by (fastforce simp: word_le_nat_alt)
    then show "entry_seq e < fst op" using seq [of o1] old ok_op_entry(3) [of o1] by (simp add: word_less_nat_alt)
  qed
  obtain mt ms' where mt: "memtable_adds nb (number_ops (?q + 1) batch) (db_memtable d) = Some mt" "memtable_rep mt ms'"
    "set ms' = set ms \<union> op_entry ` set (number_ops (?q + 1) batch)"
    using memtable_adds_rep [OF good ms(1) ok(1,2) later] by blast
  have e: "base + 1 + of_nat (length ops) = ?q + 1"
  proof -
    have "unat (base + of_nat (length ops)) = unat ?q" using u by (simp add: unat_plus_if' unat_u64)
    then have "base + of_nat (length ops) = ?q" by (simp add: word_unat_eq_iff)
    then show ?thesis by (simp add: algebra_simps)
  qed
  have app: "number_ops (base + 1) (ops @ batch) = number_ops (base + 1) ops @ number_ops (?q + 1) batch"
    unfolding number_ops_append e ..
  have "DBImpl_applyBatch nb batch (?q + 1) d = Some (d\<lparr>db_memtable := mt\<rparr>)"
    using mt(1) by (simp add: DBImpl_applyBatch_def apply_operations_adds)
  moreover have "replayed base (ops @ batch) (d\<lparr>db_memtable := mt, db_last_sequence := ?q + of_nat (WriteBatch_count batch)\<rparr>)"
    using mt(2,3) ms(2) last range q1 u old ok(1) unfolding replayed_def app
    by (auto simp: WriteBatch_count_def image_Un)
  ultimately show ?thesis by auto
qed

text \<open>Everything but the memtable and the last sequence number stays as it was.\<close>

definition same_rest :: "DBImpl \<Rightarrow> DBImpl \<Rightarrow> bool" where
  "same_rest d d' \<longleftrightarrow> d' = d\<lparr>db_memtable := db_memtable d', db_last_sequence := db_last_sequence d'\<rparr>"

lemma records_total:
  "good_new nb \<Longrightarrow> replayed base ops d \<Longrightarrow> \<exists>status r d' as' new. recover_records nb as reader d = Some (status, r, d', as') \<and>
    replayed base (ops @ new) d' \<and> same_rest d d'"
proof (induction nb as reader d arbitrary: ops rule: recover_records.induct)
  case (1 nb as reader d)
  obtain res reader1 as1 where n: "WalReader_readNext as reader = (res, reader1, as1)" by (rule prod_cases3)
  have stop: "same_rest d d" "replayed base (ops @ []) d" using 1(3) by (simp_all add: same_rest_def)
  show ?case
  proof (cases "\<exists>payload first batch. res = Inr (kRecord payload) \<and> WriteBatchCodec_decode payload = Inr (first, batch) \<and>
      first = db_last_sequence d + 1")
    case False
    then have "\<exists>status. recover_records nb as reader d = Some (status, reader1, d, as1)"
      using n by (subst recover_records.simps) (auto split: sum.splits WalReadResult.splits)
    then show ?thesis using stop by blast
  next
    case True
    then obtain payload first batch where p: "res = Inr (kRecord payload)" "WriteBatchCodec_decode payload = Inr (first, batch)"
      "first = db_last_sequence d + 1" by blast
    have "batch_fits batch (db_last_sequence d + 1)" using decode_batch_Inr(1) [OF p(2)] p(3) by simp
    from replayed_batch [OF 1(2,3) this] obtain d1 mt where d1: "DBImpl_applyBatch nb batch (db_last_sequence d + 1) d = Some d1"
      "replayed base (ops @ batch) (d1\<lparr>db_last_sequence := db_last_sequence d1 + of_nat (WriteBatch_count batch)\<rparr>)"
      "d1 = d\<lparr>db_memtable := mt\<rparr>" by blast
    let ?d = "d1\<lparr>db_last_sequence := db_last_sequence d1 + of_nat (WriteBatch_count batch)\<rparr>"
    have run: "recover_records nb as reader d = recover_records nb as1 reader1 ?d"
      using n p d1(1) by (subst recover_records.simps) simp
    have "\<exists>status r d' as' new. recover_records nb as1 reader1 ?d = Some (status, r, d', as') \<and>
        replayed base ((ops @ batch) @ new) d' \<and> same_rest ?d d'"
      using n p d1 1(2) by (intro 1(1)) auto
    moreover have "same_rest ?d d' \<Longrightarrow> same_rest d d'" for d' by (simp add: same_rest_def d1(3))
    ultimately show ?thesis unfolding run by fastforce
  qed
qed

lemma wal_file_total:
  assumes "good_new nb" "replayed base ops d"
  shows "\<exists>status d' env' new. DBImpl_recoverWalFile nb path d env = Some (status, d', env') \<and>
    replayed base (ops @ new) d' \<and> same_rest d d'"
proof -
  have stop: "same_rest d d" "replayed base (ops @ []) d" using assms(2) by (simp_all add: same_rest_def)
  obtain answer env1 where c: "sys_call env = (answer, env1)" by fastforce
  show ?thesis
  proof (cases "WalReader_open answer path (env_files env1)")
    case (Inl status)
    then show ?thesis using c stop by (auto simp: DBImpl_recoverWalFile_def intro!: exI [of _ "[]"])
  next
    case (Inr reader)
    obtain status r d' as' new where rr: "recover_records nb (env_io env1) reader d = Some (status, r, d', as')"
      "replayed base (ops @ new) d'" "same_rest d d'" using records_total [OF assms] by blast
    obtain fs env2 where fs: "sys_file_size path (env1\<lparr>env_io := as'\<rparr>) = (fs, env2)" by fastforce
    obtain tr env3 where tr: "sys_truncate path (wr_valid_bytes r) env2 = (tr, env3)" by fastforce
    have "\<exists>status env'. DBImpl_recoverWalFile nb path d env = Some (status, d', env')"
      using c Inr rr(1) fs tr by (auto simp: DBImpl_recoverWalFile_def Let_def split: sum.splits option.splits)
    then show ?thesis using rr(2,3) by blast
  qed
qed

lemma wals_total:
  assumes "good_new nb"
  shows "replayed base ops d \<Longrightarrow> \<exists>status d' env' new. recover_wals nb ns d env = Some (status, d', env') \<and> replayed base (ops @ new) d'"
proof (induction ns arbitrary: ops d env)
  case Nil
  then show ?case by (auto intro!: exI [of _ "[]"])
next
  case (Cons n ns)
  obtain status d1 env1 new where w: "DBImpl_recoverWalFile nb (walFileName (db_directory d) n) d env = Some (status, d1, env1)"
    "replayed base (ops @ new) d1" using wal_file_total [OF assms Cons.prems] by blast
  have "replayed base (ops @ new) (d1\<lparr>db_wal_number := n\<rparr>)" using w(2) by (simp add: replayed_def)
  from Cons.IH [OF this, of env1] obtain st d2 env2 new2 where
    r: "recover_wals nb ns (d1\<lparr>db_wal_number := n\<rparr>) env1 = Some (st, d2, env2)" "replayed base (ops @ (new @ new2)) d2" by auto
  show ?case
  proof (cases "status_ok status")
    case True
    then show ?thesis using w(1) r by (intro exI [of _ st] exI [of _ d2] exI [of _ env2] exI [of _ "new @ new2"]) simp
  next
    case False
    then show ?thesis using w by auto
  qed
qed

lemma manifest_sequence:
  assumes "readManifest path env = (Inr m, env')"
  shows "unat (ms_flushed_sequence m) < 2 ^ 56"
proof -
  obtain data where "decodeManifest data = Inr m"
    using assms by (auto simp: readManifest_def split: sum.splits prod.splits if_splits)
  then have "manifest_ok m" using decode_Inr by blast
  then show ?thesis by (simp add: manifest_ok_def word_le_nat_alt kMax_unat)
qed

text \<open>Opening a database returns, whatever the directory holds.\<close>

lemma open_total:
  assumes "good_new nb"
  shows "DBImpl_open nb ls id1 answers db_is_null options dir env \<noteq> None"
proof -
  have rec: "DBImpl_recoverDatabase nb ls files d env \<noteq> None" if d: "db_memtable d = MemTable_new nb" for files d env
  proof -
    obtain r env1 where m: "readManifest (manifestFileName (db_directory d)) env = (r, env1)" by fastforce
    show ?thesis
    proof (cases r)
      case (Inr manifest)
      obtain st d1 env2 where v: "DBImpl_loadVersion (d\<lparr>db_manifest := manifest\<rparr>) env1 = (st, d1, env2)" by (rule prod_cases3)
      have d1: "db_memtable d1 = MemTable_new nb" "db_manifest d1 = manifest"
        using v d by (auto simp: DBImpl_loadVersion_def split: prod.splits sum.splits)
      have "replayed (ms_flushed_sequence manifest) [] (d1\<lparr>db_last_sequence := ms_flushed_sequence (db_manifest d1)\<rparr>)"
        using d1 manifest_sequence [OF m [unfolded Inr]] by (intro replayed_new [OF assms]) simp_all
      note wt = wals_total [OF assms this]
      have "DBImpl_recoverWalFiles nb ns d1 env \<noteq> None" for ns env
      proof -
        let ?ns = "drop (std_lower_bound (\<lambda>number. number < ms_oldest_wal_number (db_manifest d1)) ns 0 (length ns)) ns"
        obtain st d2 env2 where "recover_wals nb ?ns (d1\<lparr>db_last_sequence := ms_flushed_sequence (db_manifest d1)\<rparr>) env = Some (st, d2, env2)"
          using wt by blast
        moreover obtain w env3 where "env_wal_open (walFileName (db_directory d2) (db_wal_number d2)) env2 = (w, env3)" by fastforce
        ultimately show ?thesis by (cases w) (simp_all add: DBImpl_recoverWalFiles_def Let_def)
      qed
      then obtain x where x: "DBImpl_recoverWalFiles nb (dc_wal_numbers files) d1 env2 = Some x" by blast
      obtain st2 d2 env3 where "x = (st2, d2, env3)" by (rule prod_cases3)
      then show ?thesis using m Inr v x by (simp add: DBImpl_recoverDatabase_def Let_def)
    qed (use m in \<open>simp add: DBImpl_recoverDatabase_def\<close>)
  qed
  have new: "db_memtable ((DBImpl_new nb id1)\<lparr>db_lock := l, db_options := opts, db_directory := dir, db_next_file_number := n\<rparr>) =
    MemTable_new nb" for l opts n by (simp add: DBImpl_new_def)
  obtain st lock env1 where a: "acquireDatabaseLock (oa_fd answers) (oa_flock answers) dir (db_lock (DBImpl_new nb id1)) env = (st, lock, env1)"
    by (rule prod_cases3)
  obtain r env2 where sc: "scanDatabaseDirectory ls dir env1 = (r, env2)" by fastforce
  obtain e env3 where ex: "sys_exists (manifestFileName dir) env2 = (e, env3)" by fastforce
  have "\<exists>x. (if has then DBImpl_recoverDatabase nb ls files ((DBImpl_new nb id1)\<lparr>db_lock := lock, db_options := options,
      db_directory := dir, db_next_file_number := n\<rparr>) env3 else Some (DBImpl_initializeNewDatabase ls files
      ((DBImpl_new nb id1)\<lparr>db_lock := lock, db_options := options, db_directory := dir, db_next_file_number := n\<rparr>) env3)) = Some x"
    for has files n using rec [OF new] by (cases has; simp only: if_True if_False; blast)
  note run = this
  let ?prep = "prepareDatabaseDirectory (oa_exists answers) (oa_is_directory answers) (oa_create answers) (do_open_mode options) dir"
  show ?thesis
  proof (cases "db_is_null \<or> do_write_buffer_size options = 0 \<or> \<not> status_ok ?prep \<or> \<not> status_ok st")
    case True
    then show ?thesis using a by (auto simp: DBImpl_open_def Let_def)
  next
    case False
    show ?thesis
    proof (cases "\<exists>files has. r = Inr files \<and> dc_maximum_number files \<noteq> - 1 \<and> e = Inr has")
      case True
      then obtain files has where h: "r = Inr files" "dc_maximum_number files \<noteq> - 1" "e = Inr has" by blast
      obtain x where x: "(if has then DBImpl_recoverDatabase nb ls files ((DBImpl_new nb id1)\<lparr>db_lock := lock, db_options := options,
          db_directory := dir, db_next_file_number := dc_maximum_number files + 1\<rparr>) env3 else Some (DBImpl_initializeNewDatabase ls files
          ((DBImpl_new nb id1)\<lparr>db_lock := lock, db_options := options, db_directory := dir,
            db_next_file_number := dc_maximum_number files + 1\<rparr>) env3)) = Some x" using run by blast
      obtain s2 d2 env4 where "x = (s2, d2, env4)" by (rule prod_cases3)
      then show ?thesis using False a sc ex h x
        by (cases "status_ok s2"; cases "oa_thread answers") (simp_all add: DBImpl_open_def Let_def)
    next
      case bad: False
      then show ?thesis using False a sc ex
        by (cases r; cases e) (auto simp: DBImpl_open_def Let_def)
    qed
  qed
qed

end
