(* ===== verification/DBTurn.thy ===== *)
theory DBTurn
  imports DBStep
begin

text \<open>
  The functions of the background thread as a whole (\<^verbatim>\<open>flushImmutableMemTable\<close>, \<^verbatim>\<open>compact\<close> and a turn
  of \<^verbatim>\<open>backgroundLoop\<close>) are sequences of the steps of \<open>db_step\<close>, here without steps of clients in
  between.
\<close>

definition silently :: "block_allocator \<Rightarrow> lister \<Rightarrow> System \<Rightarrow> System \<Rightarrow> bool" where
  "silently nb ls s t \<longleftrightarrow> (\<exists>evs. db_runs nb ls s evs t \<and> set evs \<subseteq> {Silent})"

lemma silently_refl: "silently nb ls s s"
  using db_runs.start by (force simp: silently_def)

lemma silently_step:
  assumes "silently nb ls s t" "db_step nb ls t Silent u"
  shows "silently nb ls s u"
proof -
  obtain evs where "db_runs nb ls s evs t" "set evs \<subseteq> {Silent}" using assms(1) by (auto simp: silently_def)
  moreover from this(1) assms(2) have "db_runs nb ls s (evs @ [Silent]) u" by (rule db_runs.step) simp
  ultimately show ?thesis unfolding silently_def by (intro exI [of _ "evs @ [Silent]"]) simp
qed

text \<open>How a turn ends: idle again, or stopped by an error.\<close>

definition after_job :: "Status \<Rightarrow> DBImpl \<Rightarrow> fs \<Rightarrow> System" where
  "after_job status d files =
     (if status_ok status then \<lparr>sy_db = d, sy_files = files, sy_job = Idle\<rparr>
      else \<lparr>sy_db = d\<lparr>db_background_error := status\<rparr>, sy_files = files, sy_job = Stopped\<rparr>)"

lemma flush_silently:
  assumes f: "DBImpl_flushImmutableMemTable ls d env = Some (status, d', env')"
    and im: "db_immutable d = Some im" "flush_sized im" and turn: "db_shutting_down d \<or> \<not> DBImpl_hasCompactionWork d"
    and rep: "db_rep d ms ims lls"
  shows "silently nb ls \<lparr>sy_db = d, sy_files = env_files env, sy_job = Idle\<rparr> (after_job status d' (env_files env'))"
proof -
  let ?s = "\<lparr>sy_db = d, sy_files = env_files env, sy_job = Idle\<rparr>"
  obtain r env1 where b: "flush_build im (db_directory d) env = Some (r, env1)"
    using f im(1) by (cases "flush_build im (db_directory d) env") (auto simp: DBImpl_flushImmutableMemTable_def)
  have step1: "db_step nb ls ?s Silent (case r of
         Inl status \<Rightarrow> background_failed status (?s\<lparr>sy_files := env_files env1\<rparr>)
       | Inr (descriptor, reader) \<Rightarrow> ?s\<lparr>sy_files := env_files env1, sy_job := FlushBuilt im descriptor reader\<rparr>)"
    using im turn b by (intro db_step.flush_build) simp_all
  show ?thesis
  proof (cases r)
    case (Inl st)
    obtain es where "memtable_rep (im_memtable im) es" "es \<noteq> []" using rep im(1) by (auto simp: db_rep_def)
    from flush_build_outcome [OF this im(2), of "db_directory d" env] have "\<not> status_ok st" using b Inl by simp
    then show ?thesis
      using silently_step [OF silently_refl step1] f im(1) b Inl
      by (simp add: DBImpl_flushImmutableMemTable_def after_job_def background_failed_def)
  next
    case (Inr x)
    obtain descriptor reader where x: "x = (descriptor, reader)" by fastforce
    let ?s1 = "?s\<lparr>sy_files := env_files env1, sy_job := FlushBuilt im descriptor reader\<rparr>"
    have r1: "silently nb ls ?s ?s1" using silently_step [OF silently_refl step1] Inr x by simp
    obtain candidate version wal where p: "flush_prepare (im_last_sequence im) descriptor reader d = Some (candidate, version, wal)"
      using f im(1) b Inr x by (cases "flush_prepare (im_last_sequence im) descriptor reader d") (auto simp: DBImpl_flushImmutableMemTable_def)
    let ?s2 = "?s\<lparr>sy_files := env_files env1, sy_job := FlushPrepared im candidate version wal\<rparr>"
    have "db_step nb ls ?s1 Silent (?s1\<lparr>sy_job := FlushPrepared im candidate version wal\<rparr>)"
      using p by (intro db_step.flush_prepare) simp_all
    then have r2: "silently nb ls ?s ?s2" using silently_step [OF r1] by simp
    obtain st env2 where c: "flush_commit (im_table_number im) candidate (db_directory d) env1 = (st, env2)" by fastforce
    have step3: "db_step nb ls ?s2 Silent (if \<not> status_ok st then background_failed st (?s2\<lparr>sy_files := env_files env2\<rparr>)
        else ?s2\<lparr>sy_files := env_files env2, sy_job := FlushCommitted candidate version wal\<rparr>)"
      using c by (intro db_step.flush_commit) simp_all
    show ?thesis
    proof (cases "status_ok st")
      case False
      then show ?thesis
        using silently_step [OF r2 step3] f im(1) b Inr x p c
        by (simp add: DBImpl_flushImmutableMemTable_def after_job_def background_failed_def)
    next
      case True
      let ?s3 = "?s\<lparr>sy_files := env_files env2, sy_job := FlushCommitted candidate version wal\<rparr>"
      have r3: "silently nb ls ?s ?s3" using silently_step [OF r2 step3] True by simp
      let ?d = "flush_publish candidate version d"
      let ?s4 = "\<lparr>sy_db = ?d, sy_files = env_files env2, sy_job = FlushCleaning wal\<rparr>"
      have "db_step nb ls ?s3 Silent (?s3\<lparr>sy_db := flush_publish candidate version (sy_db ?s3), sy_job := FlushCleaning wal\<rparr>)"
        by (intro db_step.flush_publish) simp
      then have r4: "silently nb ls ?s ?s4" using silently_step [OF r3] by simp
      have "db_step nb ls ?s4 Silent (?s4\<lparr>sy_files := env_files (removeObsoleteWalFilesBestEffort ls (db_directory (sy_db ?s4)) wal env2), sy_job := Idle\<rparr>)"
        by (intro db_step.flush_clean) simp_all
      then show ?thesis
        using silently_step [OF r4] f im(1) b Inr x p c True
        by (simp add: DBImpl_flushImmutableMemTable_def after_job_def flush_publish_def)
    qed
  qed
qed

text \<open>Work for a compaction is a plan for one: the thread never spins.\<close>

lemma has_work_plan:
  assumes "db_current_version d = Some v"
  shows "DBImpl_hasCompactionWork d \<longleftrightarrow> compact_pick d \<noteq> None"
  using assms
  by (auto simp: DBImpl_hasCompactionWork_def compact_pick_def needsCompaction_def pickCompaction_def Let_def split: prod.splits)

lemma compact_silently:
  assumes f: "DBImpl_compact ls renv d env = Some (status, d', env')"
    and turn: "\<not> db_shutting_down d" "DBImpl_hasCompactionWork d" "\<And>plan. compact_pick d = Some plan \<Longrightarrow> compact_sized plan"
    and renv: "quiet renv" and inv: "sys_inv ops m \<lparr>sy_db = d, sy_files = env_files env, sy_job = Idle\<rparr>"
  shows "silently nb ls \<lparr>sy_db = d, sy_files = env_files env, sy_job = Idle\<rparr> (after_job status d' (env_files env'))"
proof -
  let ?s = "\<lparr>sy_db = d, sy_files = env_files env, sy_job = Idle\<rparr>"
  obtain v where v: "db_current_version d = Some v" using inv by (auto simp: sys_inv_def)
  obtain plan where pk: "compact_pick d = Some plan" using turn(2) has_work_plan [OF v] by auto
  let ?s1 = "?s\<lparr>sy_job := CompactPicked plan\<rparr>"
  have "db_step nb ls ?s Silent ?s1" using turn pk by (intro db_step.compact_pick) simp_all
  then have r1: "silently nb ls ?s ?s1" by (rule silently_step [OF silently_refl])
  let ?build = "buildCompactionTables plan (db_directory d) allocate_file_number CompactionOptions_default renv (db_next_file_number d) env"
  obtain r n env1 where b: "?build = Some (r, n, env1)"
    using f pk by (cases ?build) (auto simp: DBImpl_compact_def)
  let ?d = "d\<lparr>db_next_file_number := n\<rparr>"
  have step2: "db_step nb ls ?s1 Silent (case r of
         Inl status \<Rightarrow> background_failed status (?s1\<lparr>sy_db := ?d, sy_files := env_files env1\<rparr>)
       | Inr outputs \<Rightarrow> ?s1\<lparr>sy_db := ?d, sy_files := env_files env1, sy_job := CompactBuilt plan outputs\<rparr>)"
    using turn(3) pk renv b by (intro db_step.compact_build) simp_all
  show ?thesis
  proof (cases r)
    case (Inl st)
    have i1: "sys_inv ops m ?s1" using compact_inv(1) [OF inv] pk by simp
    obtain low ms ims lls v where i: "db_rep d ms ims lls" "db_current_version d = Some v" "plan_ready low plan v"
      using i1 by (auto elim!: sys_invE)
    from compact_build_outcome [OF i turn(3) [OF pk] renv, of "db_directory d" "db_next_file_number d" env]
    have "\<not> status_ok st" using b Inl by simp
    then show ?thesis
      using silently_step [OF r1 step2] f pk b Inl
      by (simp add: DBImpl_compact_def after_job_def background_failed_def Let_def)
  next
    case (Inr outputs)
    let ?s2 = "\<lparr>sy_db = ?d, sy_files = env_files env1, sy_job = CompactBuilt plan outputs\<rparr>"
    have r2: "silently nb ls ?s ?s2" using silently_step [OF r1 step2] Inr by simp
    obtain candidate version where p: "compact_prepare plan outputs ?d = Some (candidate, version)"
      using f pk b Inr by (cases "compact_prepare plan outputs ?d") (auto simp: DBImpl_compact_def Let_def)
    let ?s3 = "?s2\<lparr>sy_job := CompactPrepared outputs candidate version\<rparr>"
    have "db_step nb ls ?s2 Silent ?s3" using p by (intro db_step.compact_prepare) simp_all
    then have r3: "silently nb ls ?s ?s3" by (rule silently_step [OF r2])
    obtain st env2 where c: "compact_commit outputs candidate (db_directory d) env1 = (st, env2)" by fastforce
    have step4: "db_step nb ls ?s3 Silent (if \<not> status_ok st then background_failed st (?s3\<lparr>sy_files := env_files env2\<rparr>)
        else ?s3\<lparr>sy_files := env_files env2, sy_job := CompactCommitted candidate version\<rparr>)"
      using c by (intro db_step.compact_commit) simp_all
    show ?thesis
    proof (cases "status_ok st")
      case False
      then show ?thesis
        using silently_step [OF r3 step4] f pk b Inr p c
        by (simp add: DBImpl_compact_def after_job_def background_failed_def Let_def)
    next
      case True
      let ?s4 = "\<lparr>sy_db = ?d, sy_files = env_files env2, sy_job = CompactCommitted candidate version\<rparr>"
      have r4: "silently nb ls ?s ?s4" using silently_step [OF r3 step4] True by simp
      let ?s5 = "\<lparr>sy_db = compact_publish candidate version ?d, sy_files = env_files env2, sy_job = CompactCleaning\<rparr>"
      have "db_step nb ls ?s4 Silent (?s4\<lparr>sy_db := compact_publish candidate version (sy_db ?s4), sy_job := CompactCleaning\<rparr>)"
        by (intro db_step.compact_publish) simp
      then have r5: "silently nb ls ?s ?s5" using silently_step [OF r4] by simp
      have "db_step nb ls ?s5 Silent (?s5\<lparr>sy_files := env_files (removeObsoleteSSTableFilesBestEffort ls
          (db_directory (sy_db ?s5)) (db_manifest (sy_db ?s5)) env2), sy_job := Idle\<rparr>)"
        by (intro db_step.compact_clean) simp_all
      then show ?thesis
        using silently_step [OF r5] f pk b Inr p c True
        by (simp add: DBImpl_compact_def after_job_def compact_publish_def Let_def)
    qed
  qed
qed

lemma turn_silently:
  assumes t: "DBImpl_backgroundTurn ls renv d env = Some (goes_on, d', env')"
    and inv: "sys_inv ops m \<lparr>sy_db = d, sy_files = env_files env, sy_job = Idle\<rparr>" and renv: "quiet renv"
    and sized: "\<And>im. db_immutable d = Some im \<Longrightarrow> flush_sized im" "\<And>plan. compact_pick d = Some plan \<Longrightarrow> compact_sized plan"
  shows "\<exists>job \<in> {Idle, Stopped}. silently nb ls \<lparr>sy_db = d, sy_files = env_files env, sy_job = Idle\<rparr>
    \<lparr>sy_db = d', sy_files = env_files env', sy_job = job\<rparr> \<and> (job = Stopped \<longrightarrow> \<not> goes_on \<and> \<not> status_ok (db_background_error d'))"
proof -
  let ?s = "\<lparr>sy_db = d, sy_files = env_files env, sy_job = Idle\<rparr>"
  have rest: ?thesis if r: "silently nb ls ?s (after_job status d1 (env_files env'))"
    "Some (goes_on, d', env') = (if \<not> status_ok status then Some (False, d1\<lparr>db_background_error := status\<rparr>, env')
        else Some (\<not> (db_shutting_down d1 \<and> db_immutable d1 = None), d1, env'))" for status d1
    using r by (cases "status_ok status") (auto simp: after_job_def)
  consider (ended) "(goes_on, d', env') = (False, d, env)"
    | (compacting) "\<not> db_shutting_down d" "DBImpl_hasCompactionWork d"
    | (flushing) "\<not> (\<not> db_shutting_down d \<and> DBImpl_hasCompactionWork d)" "db_immutable d \<noteq> None"
    using t by (auto simp: DBImpl_backgroundTurn_def split: if_splits)
  then show ?thesis
  proof cases
    case ended
    then show ?thesis using silently_refl by auto
  next
    case compacting
    obtain status d1 env1 where c: "DBImpl_compact ls renv d env = Some (status, d1, env1)"
      using t compacting by (cases "DBImpl_compact ls renv d env") (auto simp: DBImpl_backgroundTurn_def)
    have "env1 = env'" using t compacting c by (auto simp: DBImpl_backgroundTurn_def split: if_splits)
    then show ?thesis
      using t compacting c by (intro rest [OF compact_silently [OF c [unfolded \<open>env1 = env'\<close>] compacting sized(2) renv inv]])
        (auto simp: DBImpl_backgroundTurn_def)
  next
    case flushing
    obtain im where im: "db_immutable d = Some im" using flushing(2) by auto
    obtain status d1 env1 where c: "DBImpl_flushImmutableMemTable ls d env = Some (status, d1, env1)"
      using t flushing by (cases "DBImpl_flushImmutableMemTable ls d env") (auto simp: DBImpl_backgroundTurn_def)
    obtain ms ims lls where rep: "db_rep d ms ims lls" using inv by (auto elim!: sys_invE)
    have "env1 = env'" using t flushing c by (auto simp: DBImpl_backgroundTurn_def split: if_splits)
    then show ?thesis
      using t flushing c im
      by (intro rest [OF flush_silently [OF c [unfolded \<open>env1 = env'\<close>] im sized(1) [OF im] _ rep]]) (auto simp: DBImpl_backgroundTurn_def)
  qed
qed

end
