(* ===== verification/Spec2Isabelle.thy ===== *)
theory Spec2Isabelle
  imports Crc32c CApi DBRecover DBTurn
begin

text \<open>
  \<^bold>\<open>The program.\<close>  Mizu is a replicated key-value store.  Its storage engine, the C++17 LSM tree under
  \<^verbatim>\<open>src/engine/lsmtree\<close>, is the subject of this development.  Paths below are relative to it.  A write is
  encoded as a batch (\<^verbatim>\<open>src/db/write_batch*.cc\<close>), appended to the write-ahead log (\<^verbatim>\<open>src/wal\<close>) and then added
  to the memtable (\<^verbatim>\<open>src/db/memtable.cc\<close>, a skip list in an arena).  A full memtable becomes immutable;
  the background thread flushes it into a table file (\<^verbatim>\<open>src/table\<close>, \<^verbatim>\<open>src/db/flush_memtable.cc\<close>), publishes
  a new manifest (\<^verbatim>\<open>src/db/manifest.cc\<close>) and compacts levels (\<^verbatim>\<open>src/db/compaction.cc\<close>).  Reads look into the
  memtables and then into the levels of the current version (\<^verbatim>\<open>src/db/version.cc\<close>), at the latest
  sequence number or at that of a snapshot (\<^verbatim>\<open>src/db/snapshot.cc\<close>); iterators merge the same inputs
  (\<^verbatim>\<open>merging_iterator.cc\<close>, \<^verbatim>\<open>db_iterator.cc\<close>).  \<^verbatim>\<open>src/db/db_impl.cc\<close> ties these together and \<^verbatim>\<open>src/c_api.cc\<close>
  exports them.

  \<^bold>\<open>The model.\<close>  Every C++ function is a HOL function; structures are records, enumerations are
  datatypes, \<^verbatim>\<open>uint32_t\<close> and \<^verbatim>\<open>uint64_t\<close> are words, strings and slices are lists of bytes, a status is the
  record \<open>Status\<close>, a function with an output parameter returns \<open>Status + 'a\<close>.  The operating system
  is an environment (\<open>Env\<close>, theory \<open>Posix\<close>): the files as byte strings, and lists of answers that say how
  the next calls are perturbed (short counts, interruptions, errors).  Theorems quantify over all of
  them; \<open>quiet\<close> says that no call fails.  An outer \<open>None\<close> is a call that does not return, or a thread
  that waits.

  \<^bold>\<open>Theories and code.\<close>
  \<^item> \<open>Prelude\<close>, \<open>Status\<close>, \<open>Coding\<close>, \<open>Crc32c\<close>, \<open>Options\<close>: machine types, statuses, fixed-width codecs, the
    checksum and the option structures (\<^verbatim>\<open>src/util\<close>, \<^verbatim>\<open>include/lsmtree/db.h\<close>).  Shown: the readers invert
    the writers; the checksum detects every change within four consecutive bytes.
  \<^item> \<open>Posix\<close>: files and system calls with the retry loops.
  \<^item> \<open>InternalKey\<close>, \<open>InternalIterator\<close>: internal keys, their order, and the iterator interface as a record
    of operations with the contract \<open>internal_iterator\<close>.
  \<^item> \<open>Arena\<close>, \<open>SkipList\<close>, \<open>MemTable\<close>: the memtable.  Shown: allocated regions are disjoint; insertion
    refines insertion into a sorted list; a lookup finds the newest version that is visible.
  \<^item> \<open>WriteBatch\<close>, \<open>Wal\<close>: batch codec and log.  Shown: the codec is a round trip; what was acknowledged is
    read back from a log that was cut anywhere; damaged records are detected.
  \<^item> \<open>Block\<close>, \<open>BloomFilter\<close>, \<open>TableFormat\<close>, \<open>SSTableBuilder\<close>, \<open>SSTableReader\<close>: table files.  Shown: a table
    that was built and opened answers lookups and scans like the entries it was built from; iterators
    stay inside arbitrary block bytes; damaged blocks are rejected.
  \<^item> \<open>Filename\<close>, \<open>DbFiles\<close>, \<open>Manifest\<close>: names, the directory, and the manifest.  Shown: publication is atomic
    and decoding inverts encoding in all three format versions.
  \<^item> \<open>Snapshot\<close>, \<open>Version\<close>, \<open>FlushMemTable\<close>, \<open>MergingIterator\<close>, \<open>DBIterator\<close>: live snapshots, the levels,
    flushing, and iteration over everything.
  \<^item> \<open>Compaction\<close>, \<open>CompactionDrop\<close>, \<open>CompactionWrite\<close>, \<open>CompactionVersion\<close>: picking, the drop rule, the output
    writer under any answers, and that readers at or above the oldest snapshot see no difference.
  \<^item> \<open>DBImpl\<close>, \<open>CApi\<close>: the database object and the C interface, one definition per critical section.
  \<^item> \<open>DBStep\<close>: the interleaving of clients and background thread as a step relation, and its invariant;
    \<open>DBReads\<close>: what readers see; \<open>DBLive\<close>: progress; \<open>DBRecover\<close>: recovery returns; \<open>DBTurn\<close>: the functions
    of the background thread are sequences of steps.
  \<^item> This theory: the properties of the whole database and of the C interface.

  \<^bold>\<open>Interfaces.\<close>  The locales are \<open>key_order\<close> (orders of keys), \<open>comparator\<close> (the order a skip list uses),
  \<open>framing\<close> (records of the log), \<open>internal_iterator\<close> and \<open>merging_input\<close> (iterators), \<open>number_source\<close>
  (allocation of file numbers).  Each is interpreted on the definitions of the model: \<open>internal_iterator\<close>
  for blocks, tables, memtables and merges.

  \<^bold>\<open>Bounds.\<close>  Loops are recursions with termination proofs, or return \<open>None\<close> when they would not end,
  and then it is proved that they do.  Sequence numbers have 56 bits: fewer than \<open>2 ^ 56 - 1\<close> operations
  are acknowledged.  Keys are shorter than \<open>2 ^ 32 - 8\<close> bytes.  Tables that are written stay below four
  gigabytes (\<open>flush_sized\<close>, \<open>compact_sized\<close>), which the 32-bit fields of the format need.

  \<^bold>\<open>Not modelled.\<close>  The Go layers (\<^verbatim>\<open>raft\<close>, \<^verbatim>\<open>kv\<close>, \<^verbatim>\<open>client\<close>, \<^verbatim>\<open>cmd\<close>, \<^verbatim>\<open>internal/lsmtree\<close>), generated protocol code and
  the tests.  Mutexes, condition variables and the memory order of atomic links: a critical section is
  one step, and a skip list is sequential.  The release of memory.  Loss of power: a file holds what was
  written to it, whether synchronised or not.  Failing reads of the inputs while a compaction builds
  its tables (\<open>quiet renv\<close>), and the allocation of the numbers of one compaction in several steps.
\<close>

section \<open>The database as a whole\<close>





section \<open>The C interface\<close>



text \<open>
  C9. A reader keeps its database.  While a reader is open, closing the handle of the database
  leaves the database in place, and the reader answers every lookup as before; the last of them
  to be closed destroys the database.
\<close>

theorem c_reader_keeps_database:
  assumes "lsm_reader_open raised (Some h) False st = Some (status, Some r, st1)" and "0 < cs_uses st (ld_db h)"
  shows "\<exists>st2. lsm_db_close ls renv (Some h) st1 = Some st2 \<and> cs_dbs st2 = cs_dbs st1 \<and>
    map_option (\<lambda>(status, output, _). (status, output)) (lsm_reader_get allocated raised' (Some r) key n null st2) =
    map_option (\<lambda>(status, output, _). (status, output)) (lsm_reader_get allocated raised' (Some r) key n null st1) \<and>
    (\<forall>st3. cs_uses st (ld_db h) = 1 \<longrightarrow> lsm_reader_close ls renv (Some r) st2 = Some st3 \<longrightarrow> cs_dbs st3 (ld_db h) = None)"
proof -
  obtain d sn d' where r: "cs_dbs st (ld_db h) = Some d" "DBImpl_newSnapshot False d = (Inr sn, d')"
    "r = \<lparr>lr_db = Some (ld_db h), lr_snapshot = sn\<rparr>"
    "st1 = st\<lparr>cs_dbs := (cs_dbs st)(ld_db h \<mapsto> d'), cs_uses := (cs_uses st)(ld_db h := cs_uses st (ld_db h) + 1)\<rparr>"
    using assms(1) by (auto simp: lsm_reader_open_def split: option.splits prod.splits sum.splits)
  let ?st2 = "st1\<lparr>cs_uses := cs_uses st\<rparr>"
  have "lsm_db_close ls renv (Some h) st1 = Some ?st2"
    using assms(2) r(4) by (simp add: lsm_db_close_def release_db_def)
  moreover have "map_option (\<lambda>(status, output, _). (status, output)) (lsm_reader_get allocated raised' (Some r) key n null ?st2) =
    map_option (\<lambda>(status, output, _). (status, output)) (lsm_reader_get allocated raised' (Some r) key n null st1)"
    by (auto simp: lsm_reader_get_def c_catch_def c_invalid_def c_exception_def c_unknownException_def c_status_def
        copySlice_def Let_def split: option.splits exn.splits sum.splits)
  moreover have "cs_dbs st3 (ld_db h) = None"
    if "cs_uses st (ld_db h) = 1" "lsm_reader_close ls renv (Some r) ?st2 = Some st3" for st3
    using that r by (auto simp: lsm_reader_close_def release_db_def)
  ultimately show ?thesis by (intro exI [of _ ?st2]) simp
qed

theorem c_reader_keeps_database_witness:
  "\<exists>status r st1 st2.
    lsm_reader_open None (Some \<lparr>ld_db = 0\<rparr>) False
      \<lparr>cs_last_error = [], cs_dbs = [0 \<mapsto> DBImpl_new next_block 0], cs_uses = \<lambda>_. 1, cs_next = 1, cs_env = sample_env\<rparr> =
      Some (status, Some r, st1) \<and>
    lsm_db_close sorted_lister sample_env (Some \<lparr>ld_db = 0\<rparr>) st1 = Some st2 \<and> cs_dbs st2 0 \<noteq> None"
proof -
  let ?st = "\<lparr>cs_last_error = [], cs_dbs = [0 \<mapsto> DBImpl_new next_block 0], cs_uses = \<lambda>_. 1, cs_next = 1, cs_env = sample_env\<rparr> :: CState"
  obtain status r st1 where o: "lsm_reader_open None (Some \<lparr>ld_db = 0\<rparr>) False ?st = Some (status, Some r, st1)" "cs_dbs st1 0 \<noteq> None"
    by (simp add: lsm_reader_open_def DBImpl_newSnapshot_def SnapshotImpl_new_def)
  from c_reader_keeps_database [OF o(1), of sorted_lister sample_env True None "Some []" 0 False]
  obtain st2 where "lsm_db_close sorted_lister sample_env (Some \<lparr>ld_db = 0\<rparr>) st1 = Some st2" "cs_dbs st2 = cs_dbs st1" by auto
  then show ?thesis using o by (intro exI [of _ status] exI [of _ r] exI [of _ st1] exI [of _ st2]) simp
qed

section \<open>Progress\<close>







end
